(* ===== verification/Kernel_Prelude.thy ===== *)
theory Kernel_Prelude
  imports Main "HOL-Library.Word" "HOL-Library.Monad_Syntax"
begin

text \<open>
  The shared ground of the development.

  \<^item> names for the C integer types the kernel uses, as fixed-width words;
  \<^item> the alignment macros of \<open>kernel/src/mm/pmm.h\<close> and the page size of
    \<open>kernel/src/config.h\<close>;
  \<^item> the flat byte-addressed kernel memory with its 64-bit load and store;
  \<^item> the collections of simplification rules and the generic lemmas on words, lists and
    options that the component theories use.

  A computation that may not come back to its caller has a result in \<open>'a option\<close>:
  \<open>None\<close> stands for a call that never returns. That is an endless loop, a failed
  \<open>assert\<close> (which runs \<open>hlt\<close>), a call of \<open>hcf\<close>, or a fault (an access to
  \<open>NULL\<close>, outside an array or to a freed object), which ends in \<open>kpanic\<close> and
  \<open>hcf\<close>. C error returns such as \<open>-1\<close> and \<open>NULL\<close> stay ordinary values.
\<close>

unbundle bit_operations_syntax

type_synonym u8 = "8 word"
type_synonym u16 = "16 word"
type_synonym u32 = "32 word"
type_synonym u64 = "64 word"

named_theorems mem_simps "reads over writes of the byte memory"
named_theorems align_simps "facts on the alignment macros"

abbreviation (input) NULL :: u64 where
  "NULL \<equiv> 0"


section \<open>Alignment macros\<close>

definition PAGE_SIZE :: u64 where
  "PAGE_SIZE = 0x1000"

definition DIV_ROUND_UP :: "u64 \<Rightarrow> u64 \<Rightarrow> u64" where
  "DIV_ROUND_UP x y = (x + (y - 1)) div y"

definition ALIGN_UP :: "u64 \<Rightarrow> u64 \<Rightarrow> u64" where
  "ALIGN_UP x y = DIV_ROUND_UP x y * y"

definition ALIGN_DOWN :: "u64 \<Rightarrow> u64 \<Rightarrow> u64" where
  "ALIGN_DOWN x y = (x div y) * y"

definition page_aligned :: "u64 \<Rightarrow> bool" where
  "page_aligned x \<longleftrightarrow> x mod PAGE_SIZE = 0"

lemma unat_PAGE_SIZE [simp]: "unat PAGE_SIZE = 4096"
  by (simp add: PAGE_SIZE_def)

lemma unat_mult_no_wrap:
  fixes x y :: "'a::len word"
  assumes "unat x * unat y < 2 ^ LENGTH('a)"
  shows "unat (x * y) = unat x * unat y"
  using assms by (simp add: unat_word_ariths)

lemma unat_plus_no_wrap:
  fixes x y :: "'a::len word"
  assumes "unat x + unat y < 2 ^ LENGTH('a)"
  shows "unat (x + y) = unat x + unat y"
  using assms by (simp add: unat_word_ariths)

lemma unat_minus_no_wrap:
  fixes x y :: "'a::len word"
  assumes "y \<le> x"
  shows "unat (x - y) = unat x - unat y"
  using assms by (rule unat_sub)

lemma unat_lt_64: "unat (x :: u64) < 18446744073709551616"
  using unsigned_less [of x, where ?'a = nat] by simp

lemma unat_DIV_ROUND_UP [align_simps]:
  assumes y: "0 < y" and fits: "unat x + unat y \<le> 2 ^ 64"
  shows "unat (DIV_ROUND_UP x y) = (unat x + unat y - 1) div unat y"
proof -
  have y1: "unat (y - 1) = unat y - 1"
    using y by (simp add: unat_minus_one word_gt_0)
  have ypos: "0 < unat y"
    using y by (simp add: word_less_nat_alt)
  have "unat (x + (y - 1)) = unat x + (unat y - 1)"
    by (rule trans [OF unat_plus_no_wrap]) (use y1 ypos fits in simp_all)
  then show ?thesis
    using ypos by (simp add: DIV_ROUND_UP_def unat_div)
qed

lemma unat_ALIGN_UP [align_simps]:
  assumes y: "0 < y" and fits: "unat x + unat y \<le> 2 ^ 64"
  shows "unat (ALIGN_UP x y) = (unat x + unat y - 1) div unat y * unat y"
proof -
  have d: "unat (DIV_ROUND_UP x y) = (unat x + unat y - 1) div unat y"
    using y fits by (rule unat_DIV_ROUND_UP)
  have "(unat x + unat y - 1) div unat y * unat y \<le> unat x + unat y - 1"
    by simp
  also have "\<dots> < 2 ^ 64"
    using fits y by (simp add: word_less_nat_alt)
  finally show ?thesis
    unfolding ALIGN_UP_def by (subst unat_mult_no_wrap) (simp_all add: d)
qed

lemma unat_ALIGN_DOWN [align_simps]:
  "unat (ALIGN_DOWN x y) = unat x div unat y * unat y"
proof -
  have "unat x div unat y * unat y \<le> unat x"
    by simp
  also have "\<dots> < 2 ^ 64"
    using unat_lt_64 [of x] by simp
  finally show ?thesis
    unfolding ALIGN_DOWN_def by (subst unat_mult_no_wrap) (simp_all add: unat_div)
qed

lemma page_aligned_unat: "page_aligned x \<longleftrightarrow> unat x mod 4096 = 0"
  by (simp add: page_aligned_def word_unat_eq_iff unat_mod)

lemma multiple_below:
  fixes n k M :: nat
  assumes "n mod k = 0" and "n < M" and "M mod k = 0"
  shows "n + k \<le> M"
proof -
  from assms obtain a b where ab: "n = k * a" "M = k * b"
    by (meson dvdE mod_eq_0_iff_dvd)
  with assms(2) have "a + 1 \<le> b"
    by (simp add: Suc_le_eq)
  then have "k * (a + 1) \<le> k * b"
    by (rule mult_le_mono2)
  with ab show ?thesis by (simp add: algebra_simps)
qed

lemma round_up_multiple:
  fixes n k :: nat
  assumes "n mod k = 0" and "0 < k"
  shows "(n + (k - 1)) div k * k = n"
proof -
  from assms obtain a where "n = k * a"
    by (auto simp: mod_eq_0_iff_dvd)
  moreover from assms(2) have "(k * a + (k - 1)) div k = a"
    by (intro div_nat_eqI) auto
  ultimately show ?thesis by simp
qed

lemma ALIGN_UP_aligned:
  assumes "page_aligned x"
  shows "ALIGN_UP x PAGE_SIZE = x"
proof -
  have m: "unat x mod 4096 = 0"
    using assms by (simp add: page_aligned_unat)
  have "unat x < 2 ^ 64" "(2::nat) ^ 64 mod 4096 = 0"
    using unat_lt_64 [of x] by simp_all
  with m have fits: "unat x + 4096 \<le> 2 ^ 64"
    by (intro multiple_below) simp_all
  have "unat (ALIGN_UP x PAGE_SIZE) = (unat x + 4095) div 4096 * 4096"
    using fits by (subst unat_ALIGN_UP) (simp_all add: PAGE_SIZE_def)
  also have "\<dots> = unat x"
    using round_up_multiple [OF m] by simp
  finally show ?thesis
    by (simp add: word_unat_eq_iff)
qed


section \<open>Byte-addressed kernel memory\<close>

text \<open>
  The kernel runs in one flat address space; \<open>mem\<close> gives the byte at each virtual address.
  Address arithmetic wraps at 64 bits, as pointer arithmetic in the compiled code does.
  A \<open>uint64_t\<close> occupies eight bytes, the least significant first.
\<close>

type_synonym mem = "u64 \<Rightarrow> u8"

definition load64 :: "mem \<Rightarrow> u64 \<Rightarrow> u64" where
  "load64 m a =
     (let b = (\<lambda>i. ucast (m (a + i)) :: u64) in
      b 0 OR push_bit 8 (b 1) OR push_bit 16 (b 2) OR push_bit 24 (b 3) OR
      push_bit 32 (b 4) OR push_bit 40 (b 5) OR push_bit 48 (b 6) OR push_bit 56 (b 7))"

definition store64 :: "mem \<Rightarrow> u64 \<Rightarrow> u64 \<Rightarrow> mem" where
  "store64 m a v = (\<lambda>b. if b - a < 8 then ucast (drop_bit (8 * unat (b - a)) v) else m b)"

lemma nat_lt_8_cases:
  assumes "q < (8::nat)"
  shows "q = 0 \<or> q = 1 \<or> q = 2 \<or> q = 3 \<or> q = 4 \<or> q = 5 \<or> q = 6 \<or> q = 7"
  using assms by linarith

lemma bit_load64:
  assumes q: "q < 8" and r: "r < 8"
  shows "bit (load64 m a) (8 * q + r) \<longleftrightarrow> bit (m (a + of_nat q)) r"
proof -
  have out: "\<not> bit (w :: u8) n" if "8 \<le> n" for w n
    using that bit_imp_le_length [of w n] by auto
  from nat_lt_8_cases [OF q] r show ?thesis
    by (elim disjE)
      (simp_all add: load64_def Let_def bit_or_iff bit_push_bit_iff bit_ucast_iff out)
qed

lemma load64_cong:
  assumes "\<And>q. q < 8 \<Longrightarrow> m (a + of_nat q) = m' (a' + of_nat q)"
  shows "load64 m a = load64 m' a'"
proof (rule bit_word_eqI)
  fix n :: nat assume "n < LENGTH(64)"
  then have "n div 8 < 8" "n mod 8 < 8" "n = 8 * (n div 8) + n mod 8"
    by simp_all
  then show "bit (load64 m a) n \<longleftrightarrow> bit (load64 m' a') n"
    by (metis assms bit_load64)
qed

lemma store64_at:
  assumes "q < 8"
  shows "store64 m a v (a + of_nat q) = ucast (drop_bit (8 * q) v)"
proof -
  have "unat (of_nat q :: u64) = q"
    using assms by (simp add: unat_of_nat)
  moreover from this have "(of_nat q :: u64) < 8"
    using assms by (simp add: word_less_nat_alt)
  ultimately show ?thesis by (simp add: store64_def)
qed

lemma load_store64_same [mem_simps, simp]: "load64 (store64 m a v) a = v"
proof (rule bit_word_eqI)
  fix n :: nat assume n: "n < LENGTH(64)"
  define q r where "q = n div 8" and "r = n mod 8"
  with n have qr: "q < 8" "r < 8" "n = 8 * q + r" by simp_all
  have "bit (load64 (store64 m a v) a) n \<longleftrightarrow> bit (store64 m a v (a + of_nat q)) r"
    using qr by (simp add: bit_load64)
  also have "\<dots> \<longleftrightarrow> bit v n"
    using qr by (simp add: store64_at bit_ucast_iff bit_drop_bit_eq add.commute)
  finally show "bit (load64 (store64 m a v) a) n \<longleftrightarrow> bit v n" .
qed

text \<open>
  \<open>region a n\<close> is the set of the \<open>n\<close> addresses from \<open>a\<close> on. Disjointness of regions is
  what the frame conditions of the components are stated with.
\<close>

definition region :: "u64 \<Rightarrow> nat \<Rightarrow> u64 set" where
  "region a n = {x. unat (x - a) < n}"

lemma in_region_offset:
  assumes "i < n" and "n \<le> 2 ^ 64"
  shows "a + of_nat i \<in> region a n"
proof -
  have "unat (of_nat i :: u64) = i"
    using assms by (simp add: unat_of_nat)
  then show ?thesis using assms by (simp add: region_def)
qed

lemma region_offset_cases:
  assumes "x \<in> region a n"
  obtains i where "i < n" "x = a + of_nat i"
proof
  show "unat (x - a) < n" using assms by (simp add: region_def)
  show "x = a + of_nat (unat (x - a))" by simp
qed

lemma region_mono: "n \<le> k \<Longrightarrow> region a n \<subseteq> region a k"
  by (auto simp: region_def)

lemma region_sub:
  assumes "i + n \<le> k" and "k \<le> 2 ^ 64"
  shows "region (a + of_nat i) n \<subseteq> region a k"
proof
  fix x assume "x \<in> region (a + of_nat i) n"
  then obtain j where j: "j < n" "x = a + of_nat i + of_nat j"
    by (rule region_offset_cases)
  then have "x = a + of_nat (i + j)" by (simp add: add.assoc)
  then show "x \<in> region a k"
    using in_region_offset [of "i + j" k a] j(1) assms by simp
qed

lemma region_slots_disjoint:
  assumes "i \<noteq> j" and "i < 2 ^ 61" and "j < 2 ^ 61"
  shows "region (a + of_nat (8 * i)) 8 \<inter> region (a + of_nat (8 * j)) 8 = {}"
proof (rule ccontr)
  assume "\<not> ?thesis"
  then obtain x where x: "x \<in> region (a + of_nat (8 * i)) 8" "x \<in> region (a + of_nat (8 * j)) 8"
    by blast
  from x(1) obtain p where p: "p < 8" "x = a + of_nat (8 * i) + of_nat p"
    by (rule region_offset_cases)
  from x(2) obtain q where q: "q < 8" "x = a + of_nat (8 * j) + of_nat q"
    by (rule region_offset_cases)
  have "(of_nat (8 * i + p) :: u64) = of_nat (8 * j + q)"
    using p(2) q(2) by (simp add: add.assoc)
  then have "8 * i + p = 8 * j + q"
    using p(1) q(1) assms by (simp add: word_unat_eq_iff unat_of_nat del: of_nat_add)
  with p(1) q(1) assms(1) show False by linarith
qed

lemma load64_region:
  assumes "\<And>x. x \<in> region a 8 \<Longrightarrow> m x = m' x"
  shows "load64 m a = load64 m' a"
  by (rule load64_cong) (use assms in_region_offset [of _ 8 a] in simp)

lemma store64_outside: "x \<notin> region a 8 \<Longrightarrow> store64 m a v x = m x"
  by (simp add: store64_def region_def word_less_nat_alt)

lemma load_store64_disjoint [mem_simps]:
  assumes "region a 8 \<inter> region b 8 = {}"
  shows "load64 (store64 m a v) b = load64 m b"
  by (rule load64_region) (use assms store64_outside in blast)

lemma int_unat_sint:
  fixes w :: "'a::len word"
  assumes "0 \<le> sint w"
  shows "int (unat w) = sint w"
proof -
  have "sint w < 2 ^ LENGTH('a)"
    using sint_lt [of w] power_increasing [of "LENGTH('a) - 1" "LENGTH('a)" "2::int"]
    by (meson diff_le_self less_le_trans one_le_numeral)
  with assms show ?thesis
    by (simp add: uint_sint take_bit_int_eq_self)
qed

lemma sint_less_int:
  fixes w :: "'a::len word"
  assumes "0 \<le> sint w"
  shows "sint w < int n \<longleftrightarrow> unat w < n"
  unfolding int_unat_sint [OF assms, symmetric] by (rule of_nat_less_iff)

end
