(* ===== verification/Mem_Lib.thy ===== *)
theory Mem_Lib
  imports Kernel_Prelude
begin

text \<open>
  The memory and string routines of \<open>kernel/src/lib/memory.c\<close>, on the byte memory of
  \<^theory_text>\<open>Kernel_Prelude\<close>. A pointer is an address, a routine that writes returns the new
  memory (the C functions return their \<open>dest\<close> argument besides, which is not repeated).

  Loops that count a \<open>size_t\<close> down are structural on that count. Loops that look for a
  terminator run until they meet a zero byte; they are \<^theory_text>\<open>partial_function (option)\<close>
  and return \<open>None\<close> when there is none. \<open>cstr m p cs\<close> says that the bytes \<open>cs\<close>
  and a terminator are stored at \<open>p\<close>; under it the routines are shown to return.
\<close>

section \<open>Memory routines\<close>

primrec memcpy_loop :: "nat \<Rightarrow> mem \<Rightarrow> u64 \<Rightarrow> u64 \<Rightarrow> mem" where
  "memcpy_loop 0 m d s = m"
| "memcpy_loop (Suc n) m d s = memcpy_loop n (m(d := m s)) (d + 1) (s + 1)"

definition memcpy :: "mem \<Rightarrow> u64 \<Rightarrow> u64 \<Rightarrow> u64 \<Rightarrow> mem" where
  "memcpy m dest src n = memcpy_loop (unat n) m dest src"

primrec memset_loop :: "nat \<Rightarrow> mem \<Rightarrow> u64 \<Rightarrow> u8 \<Rightarrow> mem" where
  "memset_loop 0 m p c = m"
| "memset_loop (Suc n) m p c = memset_loop n (m(p := c)) (p + 1) c"

definition memset :: "mem \<Rightarrow> u64 \<Rightarrow> u32 \<Rightarrow> u64 \<Rightarrow> mem" where
  "memset m s c n = memset_loop (unat n) m s (ucast c)"

primrec memmove_down :: "nat \<Rightarrow> mem \<Rightarrow> u64 \<Rightarrow> u64 \<Rightarrow> mem" where
  "memmove_down 0 m d s = m"
| "memmove_down (Suc n) m d s = memmove_down n (m(d - 1 := m (s - 1))) (d - 1) (s - 1)"

definition memmove :: "mem \<Rightarrow> u64 \<Rightarrow> u64 \<Rightarrow> u64 \<Rightarrow> mem" where
  "memmove m dest src n =
     (if dest < src then memcpy_loop (unat n) m dest src
      else memmove_down (unat n) m (dest + n) (src + n))"

primrec memcmp_loop :: "nat \<Rightarrow> mem \<Rightarrow> u64 \<Rightarrow> u64 \<Rightarrow> int" where
  "memcmp_loop 0 m p1 p2 = 0"
| "memcmp_loop (Suc n) m p1 p2 =
     (if m p1 \<noteq> m p2 then (if m p1 < m p2 then -1 else 1)
      else memcmp_loop n m (p1 + 1) (p2 + 1))"

definition memcmp :: "mem \<Rightarrow> u64 \<Rightarrow> u64 \<Rightarrow> u64 \<Rightarrow> int" where
  "memcmp m s1 s2 n = memcmp_loop (unat n) m s1 s2"


section \<open>String routines\<close>

partial_function (option) strlen_loop :: "mem \<Rightarrow> u64 \<Rightarrow> u64 option" where
  "strlen_loop m p = (if m p = 0 then Some p else strlen_loop m (p + 1))"

definition strlen :: "mem \<Rightarrow> u64 \<Rightarrow> u64 option" where
  "strlen m s = map_option (\<lambda>p. p - s) (strlen_loop m s)"

partial_function (option) strcpy :: "mem \<Rightarrow> u64 \<Rightarrow> u64 \<Rightarrow> mem option" where
  "strcpy m d s =
     (let c = m s; m' = m(d := c) in
      if c = 0 then Some m' else strcpy m' (d + 1) (s + 1))"

text \<open>
  \<open>strncpy_copy\<close> is the first loop of \<open>strncpy\<close>: it stops with the count still
  holding the byte of a copied terminator, and the second loop clears that many bytes.
\<close>

primrec strncpy_copy :: "nat \<Rightarrow> mem \<Rightarrow> u64 \<Rightarrow> u64 \<Rightarrow> mem \<times> u64 \<times> nat" where
  "strncpy_copy 0 m d s = (m, d, 0)"
| "strncpy_copy (Suc n) m d s =
     (let c = m s; m' = m(d := c) in
      if c \<noteq> 0 then strncpy_copy n m' (d + 1) (s + 1) else (m', d + 1, Suc n))"

definition strncpy :: "mem \<Rightarrow> u64 \<Rightarrow> u64 \<Rightarrow> u64 \<Rightarrow> mem" where
  "strncpy m dest src n =
     (case strncpy_copy (unat n) m dest src of (m', d, k) \<Rightarrow> memset_loop k m' d 0)"

definition strcat :: "mem \<Rightarrow> u64 \<Rightarrow> u64 \<Rightarrow> mem option" where
  "strcat m dest src = do { d \<leftarrow> strlen_loop m dest; strcpy m d src }"

primrec strncat_copy :: "nat \<Rightarrow> mem \<Rightarrow> u64 \<Rightarrow> u64 \<Rightarrow> mem \<times> u64" where
  "strncat_copy 0 m d s = (m, d)"
| "strncat_copy (Suc n) m d s =
     (let c = m s; m' = m(d := c) in
      if c \<noteq> 0 then strncat_copy n m' (d + 1) (s + 1) else (m', d + 1))"

definition strncat :: "mem \<Rightarrow> u64 \<Rightarrow> u64 \<Rightarrow> u64 \<Rightarrow> mem option" where
  "strncat m dest src n =
     do { d \<leftarrow> strlen_loop m dest;
          let (m', d') = strncat_copy (unat n) m d src;
          Some (m'(d' := 0)) }"

partial_function (option) strcmp :: "mem \<Rightarrow> u64 \<Rightarrow> u64 \<Rightarrow> int option" where
  "strcmp m s1 s2 =
     (if m s1 \<noteq> 0 \<and> m s1 = m s2 then strcmp m (s1 + 1) (s2 + 1)
      else Some (uint (m s1) - uint (m s2)))"

primrec strncmp_loop :: "nat \<Rightarrow> mem \<Rightarrow> u64 \<Rightarrow> u64 \<Rightarrow> int" where
  "strncmp_loop 0 m s1 s2 = 0"
| "strncmp_loop (Suc n) m s1 s2 =
     (if m s1 \<noteq> 0 \<and> m s1 = m s2 then strncmp_loop n m (s1 + 1) (s2 + 1)
      else uint (m s1) - uint (m s2))"

definition strncmp :: "mem \<Rightarrow> u64 \<Rightarrow> u64 \<Rightarrow> u64 \<Rightarrow> int" where
  "strncmp m s1 s2 n = strncmp_loop (unat n) m s1 s2"

partial_function (option) strchr :: "mem \<Rightarrow> u64 \<Rightarrow> u8 \<Rightarrow> u64 option" where
  "strchr m s c =
     (if m s = 0 then Some NULL
      else if m s = c then Some s
      else strchr m (s + 1) c)"

partial_function (option) strrchr_loop :: "mem \<Rightarrow> u64 \<Rightarrow> u8 \<Rightarrow> u64 \<Rightarrow> u64 option" where
  "strrchr_loop m s c lst =
     (if m s = 0 then Some lst
      else strrchr_loop m (s + 1) c (if m s = c then s else lst))"

definition strrchr :: "mem \<Rightarrow> u64 \<Rightarrow> u8 \<Rightarrow> u64 option" where
  "strrchr m s c = strrchr_loop m s c NULL"

text \<open>The inner loops of \<open>strcspn\<close>, \<open>strspn\<close> and \<open>strpbrk\<close>: is \<open>c\<close> in the string at \<open>p\<close>?\<close>

partial_function (option) str_has :: "mem \<Rightarrow> u8 \<Rightarrow> u64 \<Rightarrow> bool option" where
  "str_has m c p =
     (if m p = 0 then Some False else if c = m p then Some True else str_has m c (p + 1))"

partial_function (option) strcspn_loop :: "mem \<Rightarrow> u64 \<Rightarrow> u64 \<Rightarrow> u64 \<Rightarrow> u64 option" where
  "strcspn_loop m s reject count =
     (if m s = 0 then Some count
      else do { b \<leftarrow> str_has m (m s) reject;
                if b then Some count else strcspn_loop m (s + 1) reject (count + 1) })"

definition strcspn :: "mem \<Rightarrow> u64 \<Rightarrow> u64 \<Rightarrow> u64 option" where
  "strcspn m s reject = strcspn_loop m s reject 0"

partial_function (option) strspn_loop :: "mem \<Rightarrow> u64 \<Rightarrow> u64 \<Rightarrow> u64 \<Rightarrow> u64 option" where
  "strspn_loop m s accept count =
     (if m s = 0 then Some count
      else do { b \<leftarrow> str_has m (m s) accept;
                if b then strspn_loop m (s + 1) accept (count + 1) else Some count })"

definition strspn :: "mem \<Rightarrow> u64 \<Rightarrow> u64 \<Rightarrow> u64 option" where
  "strspn m s accept = strspn_loop m s accept 0"

partial_function (option) strpbrk :: "mem \<Rightarrow> u64 \<Rightarrow> u64 \<Rightarrow> u64 option" where
  "strpbrk m s accept =
     (if m s = 0 then Some NULL
      else do { b \<leftarrow> str_has m (m s) accept;
                if b then Some s else strpbrk m (s + 1) accept })"

text \<open>The inner loop of \<open>strstr\<close>: does the string at \<open>n\<close> match at \<open>h\<close>?\<close>

partial_function (option) strstr_match :: "mem \<Rightarrow> u64 \<Rightarrow> u64 \<Rightarrow> bool option" where
  "strstr_match m h n =
     (if m h \<noteq> 0 \<and> m n \<noteq> 0 \<and> m h = m n then strstr_match m (h + 1) (n + 1)
      else Some (m n = 0))"

partial_function (option) strstr_loop :: "mem \<Rightarrow> u64 \<Rightarrow> u64 \<Rightarrow> u64 option" where
  "strstr_loop m haystack needle =
     (if m haystack = 0 then Some NULL
      else do { b \<leftarrow> strstr_match m haystack needle;
                if b then Some haystack else strstr_loop m (haystack + 1) needle })"

definition strstr :: "mem \<Rightarrow> u64 \<Rightarrow> u64 \<Rightarrow> u64 option" where
  "strstr m haystack needle =
     (if m needle = 0 then Some haystack else strstr_loop m haystack needle)"

text \<open>
  \<open>strtok\<close> keeps the rest of the string in its static variable \<open>last\<close>, which the model
  takes and returns. A call that finds no token leaves \<open>last\<close> as it was.
\<close>

definition strtok :: "mem \<Rightarrow> u64 \<Rightarrow> u64 \<Rightarrow> u64 \<Rightarrow> (mem \<times> u64 \<times> u64) option" where
  "strtok m lst str delim =
     (let s0 = (if str = NULL then lst else str) in
      if s0 = NULL then Some (m, lst, NULL)
      else do {
        skip \<leftarrow> strspn m s0 delim;
        let s1 = s0 + skip;
        if m s1 = 0 then Some (m, lst, NULL)
        else do {
          len \<leftarrow> strcspn m s1 delim;
          let e = s1 + len;
          (if m e \<noteq> 0 then Some (m(e := 0), e + 1, s1) else Some (m, e, s1)) } })"

definition strtok_r :: "mem \<Rightarrow> u64 \<Rightarrow> u64 \<Rightarrow> u64 \<Rightarrow> (mem \<times> u64 \<times> u64) option" where
  "strtok_r m save str delim =
     (let s0 = (if str = NULL then save else str) in
      if s0 = NULL then Some (m, save, NULL)
      else do {
        skip \<leftarrow> strspn m s0 delim;
        let s1 = s0 + skip;
        if m s1 = 0 then Some (m, s1, NULL)
        else do {
          e \<leftarrow> strpbrk m s1 delim;
          (if e = NULL then do { len \<leftarrow> strlen m s1; Some (m, s1 + len, s1) }
           else Some (m(e := 0), e + 1, s1)) } })"

text \<open>\<open>strdup\<close> and \<open>strndup\<close> take the allocator as an argument: \<open>kmalloc n h\<close> gives the
  pointer (\<open>NULL\<close> when there is no memory) and the allocator's next state.\<close>

definition strdup ::
  "(u64 \<Rightarrow> 'h \<Rightarrow> u64 \<times> 'h) \<Rightarrow> 'h \<Rightarrow> mem \<Rightarrow> u64 \<Rightarrow> (mem \<times> 'h \<times> u64) option" where
  "strdup kmalloc h m s =
     do { len \<leftarrow> strlen m s;
          let (copy, h') = kmalloc (len + 1) h;
          if copy \<noteq> NULL then do { m' \<leftarrow> strcpy m copy s; Some (m', h', copy) }
          else Some (m, h', NULL) }"

definition strndup ::
  "(u64 \<Rightarrow> 'h \<Rightarrow> u64 \<times> 'h) \<Rightarrow> 'h \<Rightarrow> mem \<Rightarrow> u64 \<Rightarrow> u64 \<Rightarrow> (mem \<times> 'h \<times> u64) option" where
  "strndup kmalloc h m s n =
     do { len0 \<leftarrow> strlen m s;
          let len = (if n < len0 then n else len0);
          let (copy, h') = kmalloc (len + 1) h;
          if copy \<noteq> NULL
          then Some ((strncpy m copy s len)(copy + len := 0), h', copy)
          else Some (m, h', NULL) }"


section \<open>strtol\<close>

text \<open>
  \<open>result\<close> is a \<open>long\<close>; it is an \<open>int\<close> here, and the cutoff test keeps it in the range
  of \<open>long\<close>. \<open>endptr\<close> is returned beside the value.
\<close>

definition LONG_MAX :: int where
  "LONG_MAX = 2 ^ 63 - 1"

definition LONG_MIN :: int where
  "LONG_MIN = - (2 ^ 63)"

definition is_space :: "u8 \<Rightarrow> bool" where
  "is_space c \<longleftrightarrow> c = 32 \<or> c = 9 \<or> c = 10 \<or> c = 13 \<or> c = 12 \<or> c = 11"

partial_function (option) strtol_skip :: "mem \<Rightarrow> u64 \<Rightarrow> u64 option" where
  "strtol_skip m s = (if is_space (m s) then strtol_skip m (s + 1) else Some s)"

definition strtol_digit :: "u8 \<Rightarrow> int option" where
  "strtol_digit c =
     (if 48 \<le> c \<and> c \<le> 57 then Some (uint c - 48)
      else if 97 \<le> c \<and> c \<le> 122 then Some (uint c - 97 + 10)
      else if 65 \<le> c \<and> c \<le> 90 then Some (uint c - 65 + 10)
      else None)"

partial_function (option) strtol_loop ::
  "mem \<Rightarrow> u64 \<Rightarrow> int \<Rightarrow> int \<Rightarrow> int \<Rightarrow> (int \<times> u64) option" where
  "strtol_loop m s base sign result =
     (if m s = 0 then Some (result * sign, s)
      else case strtol_digit (m s) of
        None \<Rightarrow> Some (result * sign, s)
      | Some digit \<Rightarrow>
          if digit \<ge> base then Some (result * sign, s)
          else if result > LONG_MAX div base \<or>
                  (result = LONG_MAX div base \<and> digit > LONG_MAX mod base)
          then Some (if sign = 1 then LONG_MAX else LONG_MIN, s)
          else strtol_loop m (s + 1) base sign (result * base + digit))"

definition strtol :: "mem \<Rightarrow> u64 \<Rightarrow> int \<Rightarrow> (int \<times> u64) option" where
  "strtol m str base0 =
     do { s0 \<leftarrow> strtol_skip m str;
          let (sign, s1) = (if m s0 = 45 then (-1, s0 + 1)
                            else if m s0 = 43 then (1, s0 + 1) else (1 :: int, s0));
          let (base, s2) =
            (if base0 = 0 then
               (if m s1 = 48 then
                  (if m (s1 + 1) = 120 \<or> m (s1 + 1) = 88 then (16, s1 + 2) else (8, s1 + 1))
                else (10, s1))
             else if base0 = 16 \<and> m s1 = 48 \<and> (m (s1 + 1) = 120 \<or> m (s1 + 1) = 88)
             then (16, s1 + 2)
             else (base0, s1));
          strtol_loop m s2 base sign 0 }"

section \<open>Block copies\<close>

definition block_copy :: "mem \<Rightarrow> u64 \<Rightarrow> u64 \<Rightarrow> nat \<Rightarrow> mem" where
  "block_copy m dest src n = (\<lambda>a. if unat (a - dest) < n then m (src + (a - dest)) else m a)"

definition block_fill :: "mem \<Rightarrow> u64 \<Rightarrow> u8 \<Rightarrow> nat \<Rightarrow> mem" where
  "block_fill m p c n = (\<lambda>a. if unat (a - p) < n then c else m a)"

lemma unat_pred: "k \<noteq> 0 \<Longrightarrow> unat (k - 1 :: u64) = unat k - 1"
  by (simp add: unat_minus_one)

lemma unat_minus_1_64 [simp]: "unat (- 1 :: u64) = 18446744073709551615"
  using unat_sub_if' [of "0 :: u64" 1] by simp

lemma memset_loop_fill:
  "n \<le> 2 ^ 64 \<Longrightarrow> memset_loop n m p c = block_fill m p c n"
proof (induction n arbitrary: m p)
  case 0
  then show ?case by (simp add: block_fill_def)
next
  case (Suc n)
  have "block_fill (m(p := c)) (p + 1) c n a = block_fill m p c (Suc n) a" for a
  proof (cases "a = p")
    case True
    with Suc.prems show ?thesis by (simp add: block_fill_def)
  next
    case False
    then have "unat (a - (p + 1)) = unat (a - p) - 1" and "unat (a - p) \<noteq> 0"
      using unat_pred [of "a - p"] by (simp_all add: algebra_simps unat_eq_0)
    with False show ?thesis by (auto simp: block_fill_def)
  qed
  with Suc show ?case by (simp add: fun_eq_iff)
qed

lemma memcpy_loop_copy:
  "n \<le> 2 ^ 64 \<Longrightarrow> d = s \<or> n \<le> unat (d - s) \<Longrightarrow> memcpy_loop n m d s = block_copy m d s n"
proof (induction n arbitrary: m d s)
  case 0
  then show ?case by (simp add: block_copy_def)
next
  case (Suc n)
  have "block_copy (m(d := m s)) (d + 1) (s + 1) n a = block_copy m d s (Suc n) a" for a
  proof (cases "a = d")
    case True
    with Suc.prems show ?thesis by (simp add: block_copy_def)
  next
    case False
    define k where "k = a - d"
    have k: "k \<noteq> 0" "unat k \<noteq> 0" "a = d + k"
      using False by (simp_all add: k_def unat_eq_0)
    have "unat (a - (d + 1)) = unat k - 1"
      using unat_pred [OF k(1)] by (simp add: k_def algebra_simps)
    moreover have "s + k \<noteq> d" if "unat k < Suc n"
      using Suc.prems(2) k that by auto
    ultimately show ?thesis
      using k False by (auto simp: block_copy_def algebra_simps)
  qed
  moreover have "memcpy_loop n (m(d := m s)) (d + 1) (s + 1) =
    block_copy (m(d := m s)) (d + 1) (s + 1) n"
    by (rule Suc.IH) (use Suc.prems in auto)
  ultimately show ?case by (simp add: fun_eq_iff)
qed

lemma memmove_down_copy:
  "n \<le> 2 ^ 64 \<Longrightarrow> d = s \<or> n \<le> unat (s - d) \<Longrightarrow>
   memmove_down n m d s a = (if unat (d - 1 - a) < n then m (s - 1 - (d - 1 - a)) else m a)"
proof (induction n arbitrary: m d s)
  case 0
  then show ?case by simp
next
  case (Suc n)
  define m1 where "m1 = m(d - 1 := m (s - 1))"
  have "memmove_down (Suc n) m d s a =
    (if unat (d - 1 - 1 - a) < n then m1 (s - 1 - 1 - (d - 1 - 1 - a)) else m1 a)"
    unfolding memmove_down.simps m1_def by (rule Suc.IH) (use Suc.prems in auto)
  also have "\<dots> = (if unat (d - 1 - a) < Suc n then m (s - 1 - (d - 1 - a)) else m a)"
  proof (cases "a = d - 1")
    case True
    with Suc.prems show ?thesis by (simp add: m1_def)
  next
    case False
    define k where "k = d - 1 - a"
    have k: "k \<noteq> 0" "unat k \<noteq> 0" "a = d - 1 - k"
      using False by (simp_all add: k_def unat_eq_0)
    have "unat (d - 1 - 1 - a) = unat k - 1"
      using unat_pred [OF k(1)] by (simp add: k_def algebra_simps)
    moreover have "s - 1 - k \<noteq> d - 1" if "unat k < Suc n"
    proof
      assume "s - 1 - k = d - 1"
      then have "s - d = k" by (simp add: algebra_simps)
      with Suc.prems(2) k that show False by auto
    qed
    ultimately show ?thesis
      using k False by (auto simp: m1_def algebra_simps)
  qed
  finally show ?case .
qed


lemma memmove_eq:
  assumes "unat src + unat n \<le> 2 ^ 64" and "unat dest + unat n \<le> 2 ^ 64"
  shows "memmove m dest src n = block_copy m dest src (unat n)"
proof (cases "dest < src")
  case True
  have "unat (dest - src) = unat dest + 2 ^ 64 - unat src"
    using True unat_sub_if' [of dest src] by (simp add: word_less_nat_alt)
  with assms have "unat n \<le> unat (dest - src)" by simp
  with True show ?thesis
    by (simp add: memmove_def memcpy_loop_copy less_imp_le [OF unat_lt_64])
next
  case False
  have bwd: "dest = src \<or> unat n \<le> unat (src - dest)"
  proof (cases "dest = src")
    case False
    with \<open>\<not> dest < src\<close> have "unat (src - dest) = unat src + 2 ^ 64 - unat dest"
      using unat_sub_if' [of src dest] by (auto simp: word_less_nat_alt word_unat_eq_iff)
    with assms have "unat n \<le> unat (src - dest)" by simp
    then show ?thesis ..
  qed simp
  have "memmove_down (unat n) m (dest + n) (src + n) a = block_copy m dest src (unat n) a" for a
  proof -
    define k where "k = a - dest"
    have e: "dest + n - 1 - a = n - 1 - k" "src + n - 1 - (n - 1 - k) = src + k"
      by (simp_all add: k_def)
    have lt: "unat (n - 1 - k) < unat n \<longleftrightarrow> unat k < unat n"
    proof (cases "n = 0")
      case False
      then have "unat (n - 1) = unat n - 1" and "0 < unat n"
        by (simp_all add: unat_pred unat_gt_0)
      moreover from this have "unat (n - 1 - k) = (if unat k \<le> unat n - 1 then unat n - 1 - unat k
          else unat n - 1 + 2 ^ 64 - unat k)"
        using unat_sub_if' [of "n - 1" k] by simp
      ultimately show ?thesis
        using unat_lt_64 [of k] by auto
    qed simp
    have "memmove_down (unat n) m (dest + n) (src + n) a =
      (if unat (dest + n - 1 - a) < unat n then m (src + n - 1 - (dest + n - 1 - a)) else m a)"
      by (rule memmove_down_copy) (use bwd unat_lt_64 [of n] in auto)
    then show ?thesis
      by (simp only: e lt block_copy_def k_def [symmetric])
  qed
  with False show ?thesis
    by (simp add: memmove_def fun_eq_iff)
qed

lemma memcmp_loop_eq_0: "memcmp_loop n m p1 p2 = 0 \<longleftrightarrow> (\<forall>i < n. m (p1 + of_nat i) = m (p2 + of_nat i))"
proof (induction n arbitrary: p1 p2)
  case (Suc n)
  show ?case
    by (simp add: Suc.IH All_less_Suc2 add.assoc)
qed simp

lemma memcmp_loop_first_diff:
  assumes "i < n" and "\<forall>j < i. m (p1 + of_nat j) = m (p2 + of_nat j)"
    and "m (p1 + of_nat i) \<noteq> m (p2 + of_nat i)"
  shows "memcmp_loop n m p1 p2 = (if m (p1 + of_nat i) < m (p2 + of_nat i) then -1 else 1)"
  using assms
proof (induction n arbitrary: p1 p2 i)
  case (Suc n)
  show ?case
  proof (cases i)
    case 0
    with Suc.prems show ?thesis by simp
  next
    case (Suc j)
    with Suc.prems(2) have "m p1 = m p2"
      and diff: "\<forall>ja<j. m (p1 + 1 + word_of_nat ja) = m (p2 + 1 + word_of_nat ja)"
      by (simp_all add: All_less_Suc2 add.assoc)
    moreover have "memcmp_loop n m (p1 + 1) (p2 + 1) =
      (if m (p1 + 1 + of_nat j) < m (p2 + 1 + of_nat j) then -1 else 1)"
      by (rule Suc.IH [OF _ diff]) (use Suc Suc.prems in \<open>simp_all add: algebra_simps\<close>)
    ultimately show ?thesis
      using Suc by (simp add: algebra_simps)
  qed
qed simp

section \<open>Strings in memory\<close>

primrec cstr :: "mem \<Rightarrow> u64 \<Rightarrow> u8 list \<Rightarrow> bool" where
  "cstr m p [] \<longleftrightarrow> m p = 0"
| "cstr m p (c # cs) \<longleftrightarrow> c \<noteq> 0 \<and> m p = c \<and> cstr m (p + 1) cs"

lemma strlen_loop_cstr: "cstr m p cs \<Longrightarrow> strlen_loop m p = Some (p + of_nat (length cs))"
  by (induction cs arbitrary: p) (simp_all add: strlen_loop.simps algebra_simps)

lemma strlen_cstr: "cstr m p cs \<Longrightarrow> strlen m p = Some (of_nat (length cs))"
  by (simp add: strlen_def strlen_loop_cstr)

lemma cstr_unique: "cstr m p cs \<Longrightarrow> cstr m p ds \<Longrightarrow> cs = ds"
proof (induction cs arbitrary: p ds)
  case Nil
  then show ?case by (cases ds) simp_all
next
  case (Cons c cs)
  then show ?case by (cases ds) auto
qed


lemma cstr_iff:
  "cstr m p cs \<longleftrightarrow>
     (\<forall>i < length cs. m (p + of_nat i) = cs ! i \<and> cs ! i \<noteq> 0) \<and> m (p + of_nat (length cs)) = 0"
  by (induction cs arbitrary: p) (auto simp: All_less_Suc2 add.assoc)

lemma cstr_length:
  assumes "cstr m p cs"
  shows "length cs < 2 ^ 64"
proof (rule ccontr)
  assume "\<not> ?thesis"
  then obtain i where i: "length cs = 2 ^ 64 + i"
    by (metis le_add_diff_inverse not_less)
  have "unat (of_nat (length cs) :: u64) = unat (of_nat i :: u64)"
    unfolding unat_of_nat i by simp
  then have "(of_nat (length cs) :: u64) = of_nat i"
    by (simp only: word_unat_eq_iff)
  moreover from assms i have "m (p + of_nat i) \<noteq> 0" and "m (p + of_nat (length cs)) = 0"
    by (simp_all add: cstr_iff)
  ultimately show False by simp
qed

lemma cstr_upd:
  assumes "length cs < unat (a - p)"
  shows "cstr (m(a := v)) p cs \<longleftrightarrow> cstr m p cs"
proof -
  have "p + of_nat i \<noteq> a" if "i \<le> length cs" for i
  proof
    assume "p + of_nat i = a"
    then have "unat (a - p) = i mod 2 ^ 64" by (auto simp: unat_of_nat)
    with assms that show False by (metis leD le_trans mod_less_eq_dividend)
  qed
  then show ?thesis by (simp add: cstr_iff)
qed

lemma cstr_shift:
  assumes "cstr m s (c # cs)" and "d = s \<or> length (c # cs) < unat (d - s)"
  shows "cstr (m(d := c)) (s + 1) cs"
proof (cases "d = s")
  case True
  then show ?thesis using assms(1) by auto
next
  case False
  with assms have "length cs < unat (d - (s + 1))"
    using unat_pred [of "d - s"] by (simp add: algebra_simps)
  then show ?thesis using assms(1) by (simp add: cstr_upd)
qed

lemma strcpy_cstr:
  "cstr m s cs \<Longrightarrow> d = s \<or> length cs < unat (d - s) \<Longrightarrow>
   strcpy m d s = Some (memcpy_loop (Suc (length cs)) m d s)"
proof (induction cs arbitrary: m d s)
  case Nil
  then show ?case by (simp add: strcpy.simps Let_def fun_eq_iff)
next
  case (Cons c cs)
  have step: "strcpy m d s = strcpy (m(d := c)) (d + 1) (s + 1)"
    using Cons.prems by (subst strcpy.simps) (simp add: Let_def)
  have "cstr (m(d := c)) (s + 1) cs"
    using Cons.prems by (rule cstr_shift)
  then have "strcpy (m(d := c)) (d + 1) (s + 1) =
    Some (memcpy_loop (Suc (length cs)) (m(d := c)) (d + 1) (s + 1))"
    by (rule Cons.IH) (use Cons.prems in auto)
  with step Cons.prems show ?case by simp
qed

lemma cstr_block_copy:
  assumes "cstr m src cs"
  shows "cstr (block_copy m dest src (Suc (length cs))) dest cs"
proof -
  have "block_copy m dest src (Suc (length cs)) (dest + of_nat i) = m (src + of_nat i)"
    if "i \<le> length cs" for i
  proof -
    have "unat (of_nat i :: u64) = i"
      using that cstr_length [OF assms] by (simp add: unat_of_nat)
    then show ?thesis using that by (simp add: block_copy_def)
  qed
  with assms show ?thesis by (simp add: cstr_iff)
qed

primrec lex_less :: "u8 list \<Rightarrow> u8 list \<Rightarrow> bool" where
  "lex_less xs [] \<longleftrightarrow> False"
| "lex_less xs (d # ds) \<longleftrightarrow>
     (case xs of [] \<Rightarrow> True | c # cs \<Rightarrow> c < d \<or> c = d \<and> lex_less cs ds)"

lemma strcmp_cstr:
  assumes "cstr m s1 cs" and "cstr m s2 ds"
  shows "\<exists>r. strcmp m s1 s2 = Some r \<and> (r = 0 \<longleftrightarrow> cs = ds) \<and> (r < 0 \<longleftrightarrow> lex_less cs ds)"
  using assms
proof (induction cs arbitrary: s1 s2 ds)
  case Nil
  then show ?case
    by (cases ds) (auto simp: strcmp.simps order_less_le word_uint_eq_iff)
next
  case (Cons c cs)
  show ?case
  proof (cases ds)
    case Nil
    with Cons.prems show ?thesis
      by (auto simp: strcmp.simps word_uint_eq_iff)
  next
    case (Cons d ds')
    with Cons.prems Cons.IH [of "s1 + 1" "s2 + 1" ds'] show ?thesis
      by (cases "c = d") (simp_all add: strcmp.simps [of m s1 s2] word_less_def word_uint_eq_iff)
  qed
qed


lemma strncpy_copy_short:
  "cstr m s cs \<Longrightarrow> length cs < n \<Longrightarrow> d = s \<or> length cs < unat (d - s) \<Longrightarrow>
   strncpy_copy n m d s =
     (memcpy_loop (Suc (length cs)) m d s, d + of_nat (Suc (length cs)), n - length cs)"
proof (induction cs arbitrary: m d s n)
  case Nil
  then show ?case by (cases n) (simp_all add: Let_def fun_eq_iff)
next
  case (Cons c cs)
  then obtain n' where n: "n = Suc n'" "length cs < n'" by (cases n) auto
  have "cstr (m(d := c)) (s + 1) cs"
    using Cons.prems(1,3) by (rule cstr_shift)
  then have "strncpy_copy n' (m(d := c)) (d + 1) (s + 1) =
    (memcpy_loop (Suc (length cs)) (m(d := c)) (d + 1) (s + 1),
     d + 1 + of_nat (Suc (length cs)), n' - length cs)"
    using n(2) by (rule Cons.IH) (use Cons.prems in auto)
  with n Cons.prems show ?case by (simp add: Let_def add.assoc)
qed

lemma strncpy_copy_long:
  "cstr m s cs \<Longrightarrow> n \<le> length cs \<Longrightarrow> d = s \<or> length cs < unat (d - s) \<Longrightarrow>
   strncpy_copy n m d s = (memcpy_loop n m d s, d + of_nat n, 0)"
proof (induction n arbitrary: m d s cs)
  case 0
  then show ?case by simp
next
  case (Suc n)
  then obtain c ds where cs: "cs = c # ds" "n \<le> length ds" by (cases cs) auto
  have "cstr (m(d := c)) (s + 1) ds"
    using Suc.prems(1,3) unfolding cs by (rule cstr_shift)
  then have "strncpy_copy n (m(d := c)) (d + 1) (s + 1) =
    (memcpy_loop n (m(d := c)) (d + 1) (s + 1), d + 1 + of_nat n, 0)"
    using cs(2) by (rule Suc.IH) (use Suc.prems cs in auto)
  with cs Suc.prems show ?case by (simp add: Let_def add.assoc)
qed

lemma strncpy_long:
  assumes "cstr m src cs" and "unat n \<le> length cs" and "dest = src \<or> length cs < unat (dest - src)"
  shows "strncpy m dest src n = block_copy m dest src (unat n)"
proof -
  have "memcpy_loop (unat n) m dest src = block_copy m dest src (unat n)"
    by (rule memcpy_loop_copy) (use assms less_imp_le [OF unat_lt_64] in auto)
  then show ?thesis
    by (simp add: strncpy_def strncpy_copy_long [OF assms])
qed

lemma strncpy_short:
  assumes "cstr m src cs" and "length cs < unat n" and "dest = src \<or> length cs < unat (dest - src)"
  shows "strncpy m dest src n a =
    (if unat (a - dest) \<le> length cs then m (src + (a - dest))
     else if unat (a - dest) \<le> unat n then 0 else m a)"
proof -
  define l where "l = length cs"
  define k where "k = a - dest"
  have l: "l < unat n" "unat (of_nat (Suc l) :: u64) = Suc l"
    using assms(2) unat_lt_64 [of n] by (simp_all add: l_def unat_of_nat del: of_nat_Suc)
  have copy: "memcpy_loop (Suc l) m dest src = block_copy m dest src (Suc l)"
    by (rule memcpy_loop_copy) (use assms l unat_lt_64 [of n] in \<open>auto simp: l_def\<close>)
  have e: "a - (dest + of_nat (Suc l)) = k - of_nat (Suc l)"
    by (simp add: k_def)
  have lt: "unat (k - of_nat (Suc l)) < unat n - l \<longleftrightarrow> l < unat k \<and> unat k \<le> unat n"
    using unat_sub_if' [of k "of_nat (Suc l)"] l unat_lt_64 [of n] unat_lt_64 [of k]
    by (auto simp del: of_nat_Suc split: if_splits)
  have "strncpy m dest src n =
    block_fill (block_copy m dest src (Suc l)) (dest + of_nat (Suc l)) 0 (unat n - l)"
    unfolding strncpy_def strncpy_copy_short [OF assms] using unat_lt_64 [of n]
    by (simp only: l_def [symmetric] prod.case copy) (simp add: memset_loop_fill)
  then show ?thesis
    by (simp only: block_fill_def block_copy_def e lt k_def [symmetric] l_def [symmetric]) auto
qed


section \<open>Tokens\<close>

lemma str_has_cstr: "cstr m p ds \<Longrightarrow> c \<noteq> 0 \<Longrightarrow> str_has m c p = Some (c \<in> set ds)"
  by (induction ds arbitrary: p) (auto simp: str_has.simps)

lemma strspn_loop_cstr:
  "cstr m delim ds \<Longrightarrow> cstr m s cs \<Longrightarrow>
   strspn_loop m s delim k = Some (k + of_nat (length (takeWhile (\<lambda>c. c \<in> set ds) cs)))"
  by (induction cs arbitrary: s k) (simp_all add: strspn_loop.simps str_has_cstr)

lemma strcspn_loop_cstr:
  "cstr m delim ds \<Longrightarrow> cstr m s cs \<Longrightarrow>
   strcspn_loop m s delim k = Some (k + of_nat (length (takeWhile (\<lambda>c. c \<notin> set ds) cs)))"
  by (induction cs arbitrary: s k) (simp_all add: strcspn_loop.simps str_has_cstr)

lemma cstr_append: "cstr m p (cs @ ds) \<longleftrightarrow>
    (\<forall>i < length cs. m (p + of_nat i) = cs ! i \<and> cs ! i \<noteq> 0) \<and> cstr m (p + of_nat (length cs)) ds"
  by (induction cs arbitrary: p) (auto simp: All_less_Suc2 add.assoc)

lemma cstr_prefix:
  assumes "cstr m p (tok @ rest)"
  shows "cstr (m(p + of_nat (length tok) := 0)) p tok"
proof -
  have "length tok < 2 ^ 64" using cstr_length [OF assms] by simp
  then have "(of_nat i :: u64) \<noteq> of_nat (length tok)" if "i < length tok" for i
    using that by (simp add: word_unat_eq_iff unat_of_nat)
  moreover from assms have "\<forall>i < length tok. m (p + of_nat i) = tok ! i \<and> tok ! i \<noteq> 0"
    by (simp add: cstr_append)
  ultimately show ?thesis by (simp add: cstr_iff)
qed

lemma cstr_suffix:
  assumes "cstr m p (tok @ d # rest)"
  shows "cstr (m(p + of_nat (length tok) := 0)) (p + of_nat (length tok) + 1) rest"
proof -
  define e where "e = p + of_nat (length tok)"
  have c: "cstr m (e + 1) rest"
    using assms by (simp add: cstr_append e_def)
  have "length rest < 2 ^ 64 - 1"
    using cstr_length [OF assms] by simp
  then have "length rest < unat (e - (e + 1))" by simp
  with c show ?thesis by (simp add: cstr_upd e_def [symmetric])
qed

lemma strtok_found:
  assumes "cstr m delim ds" and "cstr m str (skip @ tok @ rest)" and "str \<noteq> NULL"
    and "set skip \<subseteq> set ds" and "tok \<noteq> []" and "set tok \<inter> set ds = {}"
    and "rest = [] \<or> hd rest \<in> set ds"
  shows "\<exists>m' lst' p. strtok m lst str delim = Some (m', lst', p) \<and> p = str + of_nat (length skip)
           \<and> cstr m' p tok \<and> cstr m' lst' (tl rest)"
proof -
  have tw: "takeWhile (\<lambda>c. c \<in> set ds) (skip @ tok @ rest) = skip"
    using assms(4-6) by (cases tok) (auto simp: takeWhile_append2 subset_iff)
  have tw': "takeWhile (\<lambda>c. c \<notin> set ds) (tok @ rest) = tok"
    using assms(6,7) by (cases rest) (auto simp: takeWhile_append2 disjoint_iff)
  define p where "p = str + of_nat (length skip)"
  have p: "cstr m p (tok @ rest)"
    using assms(2) by (simp add: cstr_append p_def)
  then have mp: "m p \<noteq> 0"
    using assms(5) by (cases tok) auto
  define e where "e = p + of_nat (length tok)"
  have sp: "strspn m str delim = Some (of_nat (length skip))"
    using strspn_loop_cstr [OF assms(1,2), of 0] by (simp add: strspn_def tw)
  have csp: "strcspn m p delim = Some (of_nat (length tok))"
    using strcspn_loop_cstr [OF assms(1) p, of 0] by (simp add: strcspn_def tw')
  have st: "strtok m lst str delim = Some (if m e \<noteq> 0 then (m(e := 0), e + 1, p) else (m, e, p))"
    using assms(3) mp by (simp add: strtok_def sp csp p_def [symmetric] e_def [symmetric] Let_def)
  show ?thesis
  proof (cases rest)
    case Nil
    with p have "cstr m p tok" and "cstr m e []"
      by (simp_all add: e_def cstr_iff)
    with Nil st show ?thesis by (simp add: p_def)
  next
    case (Cons c rest')
    with p have "cstr (m(e := 0)) p tok" and "cstr (m(e := 0)) (e + 1) rest'"
      using cstr_prefix [OF p] cstr_suffix [of m p tok c rest'] by (simp_all add: e_def)
    moreover have "m e \<noteq> 0"
      using p Cons by (simp add: cstr_append e_def)
    ultimately show ?thesis using Cons st by (simp add: p_def)
  qed
qed

section \<open>Numbers\<close>

definition digits_of :: "int \<Rightarrow> u8 list \<Rightarrow> int list option" where
  "digits_of base cs =
     (if \<forall>c \<in> set cs. \<exists>d. strtol_digit c = Some d \<and> d < base
      then Some (map (\<lambda>c. the (strtol_digit c)) cs) else None)"

primrec digits_value :: "int \<Rightarrow> int \<Rightarrow> int list \<Rightarrow> int" where
  "digits_value base acc [] = acc"
| "digits_value base acc (d # ds) = digits_value base (acc * base + d) ds"

lemma strtol_digit_nonneg: "strtol_digit c = Some d \<Longrightarrow> 0 \<le> d"
  by (auto simp: strtol_digit_def word_le_def split: if_splits)

lemma digits_of_Cons:
  assumes "digits_of base (c # cs) = Some ds"
  shows "\<exists>d ds'. strtol_digit c = Some d \<and> d < base \<and> 0 \<le> d \<and> ds = d # ds' \<and>
    digits_of base cs = Some ds' \<and> (\<forall>x \<in> set ds'. 0 \<le> x)"
proof -
  from assms have ex: "\<forall>x \<in> set (c # cs). \<exists>d. strtol_digit x = Some d \<and> d < base"
    and ds: "ds = map (\<lambda>c. the (strtol_digit c)) (c # cs)"
    by (auto simp: digits_of_def split: if_splits)
  from ex obtain d where "strtol_digit c = Some d" "d < base" by auto
  moreover have "\<forall>x \<in> set (map (\<lambda>c. the (strtol_digit c)) cs). 0 \<le> x"
    using ex strtol_digit_nonneg by fastforce
  ultimately show ?thesis
    using ex ds strtol_digit_nonneg by (simp add: digits_of_def)
qed

lemma digits_value_ge:
  assumes "0 \<le> acc" and "1 \<le> base" and "\<forall>d \<in> set ds. 0 \<le> d"
  shows "acc \<le> digits_value base acc ds"
  using assms
proof (induction ds arbitrary: acc)
  case (Cons d ds)
  have "acc \<le> acc * base + d"
    using Cons.prems mult_left_mono [of 1 base acc] by simp
  also have "\<dots> \<le> digits_value base (acc * base + d) ds"
    by (rule Cons.IH) (use Cons.prems in auto)
  finally show ?case by simp
qed simp

lemma cutoff_iff:
  assumes "1 \<le> base" and "0 \<le> d" and "d < base"
  shows "(result > LONG_MAX div base \<or> result = LONG_MAX div base \<and> d > LONG_MAX mod base) \<longleftrightarrow>
     result * base + d > LONG_MAX"
proof -
  define q r where "q = LONG_MAX div base" and "r = LONG_MAX mod base"
  have L: "LONG_MAX = q * base + r" "0 \<le> r" "r < base"
    using assms(1) by (simp_all add: q_def r_def)
  consider "result < q" | "result = q" | "q < result" by linarith
  then show ?thesis
  proof cases
    case 1
    then have "(result + 1) * base \<le> q * base"
      using assms(1) by (intro mult_right_mono) auto
    with 1 L assms show ?thesis
      unfolding q_def [symmetric] r_def [symmetric] by (simp add: algebra_simps)
  next
    case 2
    with L show ?thesis
      unfolding q_def [symmetric] r_def [symmetric] by auto
  next
    case 3
    then have "(q + 1) * base \<le> result * base"
      using assms(1) by (intro mult_right_mono) auto
    with 3 L assms show ?thesis
      unfolding q_def [symmetric] r_def [symmetric] by (simp add: algebra_simps)
  qed
qed

lemma strtol_loop_digits:
  assumes "cstr m s (cs @ rest)" and "digits_of base cs = Some ds" and "1 \<le> base"
    and "rest = [] \<or> digits_of base [hd rest] = None"
    and "0 \<le> result" and "result \<le> LONG_MAX"
  shows "\<exists>e. strtol_loop m s base 1 result = Some (min (digits_value base result ds) LONG_MAX, e)
    \<and> (digits_value base result ds \<le> LONG_MAX \<longrightarrow> e = s + of_nat (length cs))"
  using assms
proof (induction cs arbitrary: s ds result)
  case Nil
  then show ?case
    by (subst strtol_loop.simps, cases rest)
      (auto simp: digits_of_def split: option.splits if_splits)
next
  case (Cons c cs)
  obtain d ds' where d: "strtol_digit c = Some d" "d < base" "0 \<le> d"
    and ds: "ds = d # ds'" "digits_of base cs = Some ds'" "\<forall>x \<in> set ds'. 0 \<le> x"
    using digits_of_Cons [OF Cons.prems(2)] by blast
  have c: "m s = c" "c \<noteq> 0" using Cons.prems(1) by simp_all
  show ?case
  proof (cases "result * base + d > LONG_MAX")
    case True
    have "0 \<le> result * base + d" using Cons.prems(3,5) d by simp
    then have "result * base + d \<le> digits_value base (result * base + d) ds'"
      by (rule digits_value_ge) (use Cons.prems ds in auto)
    with True c d ds Cons.prems(3) show ?thesis
      by (subst strtol_loop.simps) (simp add: cutoff_iff)
  next
    case False
    have "strtol_loop m s base 1 result = strtol_loop m (s + 1) base 1 (result * base + d)"
      using False c d Cons.prems(3) by (subst strtol_loop.simps) (simp add: cutoff_iff)
    moreover have "\<exists>e. strtol_loop m (s + 1) base 1 (result * base + d) =
        Some (min (digits_value base (result * base + d) ds') LONG_MAX, e)
      \<and> (digits_value base (result * base + d) ds' \<le> LONG_MAX \<longrightarrow> e = s + 1 + of_nat (length cs))"
      by (rule Cons.IH) (use Cons.prems d ds False in auto)
    ultimately show ?thesis using ds by (simp add: add.assoc)
  qed
qed


lemma cstr_drop: "cstr m p (cs @ ds) \<Longrightarrow> cstr m (p + of_nat (length cs)) ds"
  by (simp add: cstr_append)

lemma strtol_skip_cstr:
  "cstr m s cs \<Longrightarrow> strtol_skip m s = Some (s + of_nat (length (takeWhile is_space cs)))"
proof (induction cs arbitrary: s)
  case Nil
  then show ?case by (subst strtol_skip.simps) (simp add: is_space_def)
next
  case (Cons c cs)
  then show ?case by (subst strtol_skip.simps) (simp add: add.assoc)
qed

lemma strtol_loop_range:
  assumes "cstr m s cs" and "1 \<le> base" and "sign = 1 \<or> sign = -1"
    and "0 \<le> result" and "result \<le> LONG_MAX"
  shows "\<exists>v e. strtol_loop m s base sign result = Some (v, e) \<and> LONG_MIN \<le> v \<and> v \<le> LONG_MAX"
  using assms
proof (induction cs arbitrary: s result)
  case Nil
  then show ?case
    by (subst strtol_loop.simps) (auto simp: LONG_MIN_def LONG_MAX_def)
next
  case (Cons c cs)
  have out: "LONG_MIN \<le> result * sign \<and> result * sign \<le> LONG_MAX"
    using Cons.prems by (auto simp: LONG_MIN_def LONG_MAX_def)
  have lim: "LONG_MIN \<le> LONG_MAX" by (simp add: LONG_MIN_def LONG_MAX_def)
  show ?case
  proof (cases "\<exists>d. strtol_digit c = Some d \<and> d < base \<and> result * base + d \<le> LONG_MAX")
    case True
    then obtain d where d: "strtol_digit c = Some d" "d < base" "result * base + d \<le> LONG_MAX" by blast
    have d0: "0 \<le> d" using d strtol_digit_nonneg by blast
    have "strtol_loop m s base sign result = strtol_loop m (s + 1) base sign (result * base + d)"
      using Cons.prems d d0 by (subst strtol_loop.simps) (simp add: cutoff_iff)
    moreover have "\<exists>v e. strtol_loop m (s + 1) base sign (result * base + d) = Some (v, e) \<and>
        LONG_MIN \<le> v \<and> v \<le> LONG_MAX"
      by (rule Cons.IH) (use Cons.prems d d0 in auto)
    ultimately show ?thesis by simp
  next
    case False
    have "strtol_loop m s base sign result \<in>
      {Some (result * sign, s), Some (if sign = 1 then LONG_MAX else LONG_MIN, s)}"
      using False Cons.prems strtol_digit_nonneg [of c]
      by (subst strtol_loop.simps) (auto simp: cutoff_iff not_le split: option.splits)
    with out lim show ?thesis by auto
  qed
qed


text \<open>C25: \<open>memmove\<close> copies the block as it was before the call, for every pair of blocks that
  do not run past the end of the address space, overlapping ones included; no other byte changes.\<close>

theorem memmove_correct:
  assumes "unat src + unat n \<le> 2 ^ 64" and "unat dest + unat n \<le> 2 ^ 64"
  shows "memmove m dest src n a = (if unat (a - dest) < unat n then m (src + (a - dest)) else m a)"
  using memmove_eq [OF assms] by (simp add: block_copy_def)

theorem memmove_correct_witness:
  "memmove (\<lambda>a. ucast a) 1 0 2 2 = (1 :: u8) \<and> memmove (\<lambda>a. ucast a) 1 0 2 3 = (3 :: u8)"
  using memmove_correct [of 0 2 1 "\<lambda>a. ucast a" 2] memmove_correct [of 0 2 1 "\<lambda>a. ucast a" 3]
  by simp

text \<open>on two terminated strings \<open>strcmp\<close> returns; its result is zero exactly when the
  strings are equal and negative exactly when the first precedes the second in dictionary order
  of unsigned bytes.\<close>

theorem strcmp_correct:
  assumes "cstr m s1 cs" and "cstr m s2 ds"
  shows "\<exists>r. strcmp m s1 s2 = Some r \<and> (r = 0 \<longleftrightarrow> cs = ds) \<and> (r < 0 \<longleftrightarrow> lex_less cs ds)"
  using assms by (rule strcmp_cstr)

theorem strcmp_correct_witness:
  "\<exists>r. strcmp ((\<lambda>_. 0)(100 := 97, 200 := 97, 201 := 98)) 100 200 = Some r \<and> r < 0"
  using strcmp_correct [of "(\<lambda>_. 0)(100 := 97, 200 := 97, 201 := 98)" 100 "[97]" 200 "[97, 98]"]
  by auto

text \<open>\<open>strcpy\<close> of a terminated string returns when the destination does not lie inside the
  source string; afterwards the same string is stored at the destination and every byte outside
  the copied string with its terminator is unchanged.\<close>

theorem strcpy_correct:
  assumes "cstr m src cs" and "length cs < unat (dest - src)"
  shows "\<exists>m'. strcpy m dest src = Some m' \<and> cstr m' dest cs \<and>
    (\<forall>a. length cs < unat (a - dest) \<longrightarrow> m' a = m a)"
proof -
  have "strcpy m dest src = Some (memcpy_loop (Suc (length cs)) m dest src)"
    using assms by (simp add: strcpy_cstr)
  also have "memcpy_loop (Suc (length cs)) m dest src = block_copy m dest src (Suc (length cs))"
    by (rule memcpy_loop_copy) (use assms cstr_length [OF assms(1)] in auto)
  finally show ?thesis
    using cstr_block_copy [OF assms(1)] by (auto simp: block_copy_def)
qed

theorem strcpy_correct_witness:
  "\<exists>m'. strcpy ((\<lambda>_. 0)(100 := 97, 101 := 98)) 200 100 = Some m' \<and> cstr m' 200 [97, 98]"
  using strcpy_correct [of "(\<lambda>_. 0)(100 := 97, 101 := 98)" 100 "[97, 98]" 200] by auto

text \<open>what \<open>strncpy\<close> writes. A source at least as long as the bound fills exactly the
  \<open>n\<close> bytes; a shorter source is copied with its terminator and then zeros follow up to and
  including the byte \<open>dest + n\<close>, one byte beyond the \<open>n\<close> the caller offered.\<close>

theorem strncpy_writes:
  assumes "cstr m src cs" and "length cs < unat (dest - src)"
  shows "strncpy m dest src n a =
    (if length cs < unat n
     then if unat (a - dest) \<le> length cs then m (src + (a - dest))
          else if unat (a - dest) \<le> unat n then 0 else m a
     else if unat (a - dest) < unat n then m (src + (a - dest)) else m a)"
  using strncpy_short [OF assms(1), of n dest a] strncpy_long [OF assms(1), of n dest] assms(2)
  by (simp add: block_copy_def)

theorem strncpy_writes_witness:
  "strncpy ((\<lambda>_. 7)(100 := 97, 101 := 0)) 200 100 4 204 = (0 :: u8)"
  using strncpy_writes [of "(\<lambda>_. 7)(100 := 97, 101 := 0)" 100 "[97]" 200 4 204] by simp

text \<open>\<open>strtok\<close> on a terminated string of the form delimiters, token, rest returns the address
  of the token, leaves exactly the token stored there as a terminated string, and keeps in its
  static variable the address of what follows the delimiter that ended it.\<close>

theorem strtok_first_token:
  assumes "cstr m delim ds" and "cstr m str (skip @ tok @ rest)" and "str \<noteq> NULL"
    and "set skip \<subseteq> set ds" and "tok \<noteq> []" and "set tok \<inter> set ds = {}"
    and "rest = [] \<or> hd rest \<in> set ds"
  shows "\<exists>m' lst' p. strtok m lst str delim = Some (m', lst', p) \<and> p = str + of_nat (length skip)
           \<and> cstr m' p tok \<and> cstr m' lst' (tl rest)"
  using assms by (rule strtok_found)

theorem strtok_first_token_witness:
  "\<exists>m' lst' p. strtok ((\<lambda>_. 0)(10 := 47, 100 := 47, 101 := 97, 102 := 47, 103 := 98)) 0 100 10
     = Some (m', lst', p) \<and> p = 101 \<and> cstr m' p [97] \<and> cstr m' lst' [98]"
  using strtok_first_token [of "(\<lambda>_. 0)(10 := 47, 100 := 47, 101 := 97, 102 := 47, 103 := 98)" 10 "[47]"
      100 "[47]" "[97]" "[47, 98]" 0]
  by auto



text \<open>for every terminated string and every base that is 0 or at least 2, \<open>strtol\<close> returns and
  its result is in the range of \<open>long\<close>: the cutoff test prevents signed overflow.\<close>

theorem strtol_in_range:
  assumes "cstr m p cs" and "base = 0 \<or> 2 \<le> base"
  shows "\<exists>v e. strtol m p base = Some (v, e) \<and> LONG_MIN \<le> v \<and> v \<le> LONG_MAX"
proof -
  define s0 where "s0 = p + of_nat (length (takeWhile is_space cs))"
  have sk: "strtol_skip m p = Some s0"
    using strtol_skip_cstr [OF assms(1)] by (simp add: s0_def)
  have c0: "cstr m s0 (dropWhile is_space cs)"
    unfolding s0_def by (rule cstr_drop) (simp add: assms(1))
  define s1 where "s1 = (if m s0 = 45 \<or> m s0 = 43 then s0 + 1 else s0)"
  define sign :: int where "sign = (if m s0 = 45 then -1 else 1)"
  have tail: "\<exists>ds. cstr m (q + 1) ds" if "cstr m q ds" "m q \<noteq> 0" for q ds
    using that by (cases ds) auto
  have c1: "\<exists>ds. cstr m s1 ds"
    using c0 tail by (auto simp: s1_def)
  have lp: "\<exists>v e. strtol_loop m q b sign 0 = Some (v, e) \<and> LONG_MIN \<le> v \<and> v \<le> LONG_MAX"
    if "\<exists>ds. cstr m q ds" "1 \<le> b" for q b
    using that strtol_loop_range [of m q _ b sign 0] by (auto simp: sign_def LONG_MAX_def)
  have c2: "\<exists>ds. cstr m (s1 + 1) ds" if "m s1 \<noteq> 0"
    using c1 tail that by blast
  have c3: "\<exists>ds. cstr m (s1 + 2) ds" if "m s1 \<noteq> 0" "m (s1 + 1) \<noteq> 0"
    using c2 [OF that(1)] tail [of "s1 + 1"] that(2) by (auto simp: add.assoc)
  define bs where "bs = (if base = 0 then
         (if m s1 = 48 then
            (if m (s1 + 1) = 120 \<or> m (s1 + 1) = 88 then (16, s1 + 2) else (8, s1 + 1))
          else (10, s1))
       else if base = 16 \<and> m s1 = 48 \<and> (m (s1 + 1) = 120 \<or> m (s1 + 1) = 88)
       then (16, s1 + 2) else (base, s1))"
  have "strtol m p base = strtol_loop m (snd bs) (fst bs) sign 0"
    by (simp add: strtol_def sk s1_def sign_def bs_def)
  moreover have "1 \<le> fst bs"
    using assms(2) by (auto simp: bs_def)
  moreover have "\<exists>ds. cstr m (snd bs) ds"
    using c1 c2 c3 by (auto simp: bs_def)
  ultimately show ?thesis using lp by simp
qed

theorem strtol_in_range_witness:
  "\<exists>v e. strtol ((\<lambda>_. 0)(50 := 45, 51 := 57)) 50 10 = Some (v, e) \<and> LONG_MIN \<le> v \<and> v \<le> LONG_MAX"
  using strtol_in_range [of "(\<lambda>_. 0)(50 := 45, 51 := 57)" 50 "[45, 57]" 10] by simp

end
