(* ===== verification/Pmm.thy ===== *)
theory Pmm
  imports Mem_Lib
begin

text \<open>
  The physical page allocator, \<open>kernel/src/mm/pmm.c\<close> and \<open>pmm.h\<close>: a stack of free page
  addresses that lives in memory carved out of the boot loader's memory map, a hashed cache of
  pages known to be valid, and the operations \<open>pmm_init\<close>, \<open>pmm_vmm_cleanup\<close>,
  \<open>pmm_request_page\<close>, \<open>pmm_release_page\<close>, \<open>pmm_get_free_memory\<close> and
  \<open>pmm_get_total_memory\<close>.

  The record \<open>pmm\<close> holds the file's globals and the kernel memory. The memory map is the list
  of the entries the boot loader passes (\<open>limine.h\<close> is not part of the repository: an entry
  has the three fields the code reads and a type of which the code tells two values apart).
  \<open>secondary_cache\<close> is indexed by \<open>hash_page\<close>, which ranges over 128 values, while the
  array has 64 entries: the indices from 64 on stand for what follows the array in memory.
\<close>

section \<open>Data\<close>

datatype memmap_type =
  LIMINE_MEMMAP_USABLE | LIMINE_MEMMAP_BOOTLOADER_RECLAIMABLE | LIMINE_MEMMAP_OTHER u64

record memmap_entry =
  me_base :: u64
  me_length :: u64
  me_type :: memmap_type

record page_cache_entry =
  page_addr :: u64
  is_valid :: bool
  access_count :: u64

record pmm =
  mem :: mem
  hhdm_offset :: u64
  stack_pages :: u64
  stack_idx :: u64
  stack_max :: u64
  memmap :: "memmap_entry list"
  valid_page_cache :: "nat \<Rightarrow> page_cache_entry"
  cache_head :: u64
  secondary_cache :: "nat \<Rightarrow> page_cache_entry"
  reclaimed :: bool

definition CACHE_SIZE :: nat where
  "CACHE_SIZE = 128"

definition SECONDARY_CACHE_SIZE :: nat where
  "SECONDARY_CACHE_SIZE = 64"

definition HIGHER_HALF :: "pmm \<Rightarrow> u64 \<Rightarrow> u64" where
  "HIGHER_HALF s p = p + hhdm_offset s"

definition PHYSICAL :: "pmm \<Rightarrow> u64 \<Rightarrow> u64" where
  "PHYSICAL s p = p - hhdm_offset s"

definition BYTES_TO_KB :: "u64 \<Rightarrow> u64" where
  "BYTES_TO_KB bytes = bytes div 1024 + (if bytes mod 1024 \<ge> 512 then 1 else 0)"

definition BYTES_TO_MB :: "u64 \<Rightarrow> u64" where
  "BYTES_TO_MB bytes = BYTES_TO_KB bytes div 1024 + (if BYTES_TO_KB bytes mod 1024 \<ge> 512 then 1 else 0)"


section \<open>The cache of valid pages\<close>

definition hash_page :: "u64 \<Rightarrow> u64" where
  "hash_page addr =
     (let h0 = addr;
          h1 = (h0 XOR drop_bit 30 h0) * 0x9e3779b97f4a7c15;
          h2 = (h1 XOR drop_bit 27 h1) * 0x7f4a7c159e3779b9;
          h3 = h2 XOR drop_bit 31 h2
      in h3 mod of_nat CACHE_SIZE)"

definition is_in_secondary_cache :: "pmm \<Rightarrow> u64 \<Rightarrow> bool" where
  "is_in_secondary_cache s p =
     (let e = secondary_cache s (unat (hash_page p)) in is_valid e \<and> page_addr e = p)"

definition in_primary_cache :: "pmm \<Rightarrow> u64 \<Rightarrow> bool" where
  "in_primary_cache s p =
     (let e = valid_page_cache s (unat (hash_page p)) in is_valid e \<and> page_addr e = p)"

definition update_cache_access :: "pmm \<Rightarrow> u64 \<Rightarrow> pmm" where
  "update_cache_access s p =
     (let k = unat (hash_page p); e = valid_page_cache s k in
      if in_primary_cache s p
      then s\<lparr>valid_page_cache := (valid_page_cache s)(k := e\<lparr>access_count := access_count e + 1\<rparr>)\<rparr>
      else if is_in_secondary_cache s p
      then (case List.find (\<lambda>i. page_addr (secondary_cache s i) = p) [0..<SECONDARY_CACHE_SIZE] of
              None \<Rightarrow> s
            | Some i \<Rightarrow>
                s\<lparr>valid_page_cache :=
                     (valid_page_cache s)(k := (secondary_cache s i)\<lparr>access_count := 1\<rparr>),
                   secondary_cache :=
                     (secondary_cache s)(i := (secondary_cache s i)\<lparr>is_valid := False\<rparr>)\<rparr>)
      else s)"

definition entry_covers :: "bool \<Rightarrow> memmap_entry \<Rightarrow> u64 \<Rightarrow> bool" where
  "entry_covers recl e p \<longleftrightarrow>
     (me_type e = LIMINE_MEMMAP_USABLE \<or>
      me_type e = LIMINE_MEMMAP_BOOTLOADER_RECLAIMABLE \<and> recl) \<and>
     me_base e \<le> p \<and> p < me_base e + me_length e"

definition is_page_valid :: "pmm \<Rightarrow> u64 \<Rightarrow> bool \<times> pmm" where
  "is_page_valid s p =
     (if in_primary_cache s p then (True, update_cache_access s p)
      else if list_ex (\<lambda>e. entry_covers (reclaimed s) e p) (memmap s)
      then (True, update_cache_access s p)
      else (False, s))"


section \<open>Requesting and releasing a page\<close>

definition stack_slot :: "pmm \<Rightarrow> u64 \<Rightarrow> u64" where
  "stack_slot s i = stack_pages s + 8 * i"

definition pmm_request_page :: "pmm \<Rightarrow> u64 \<times> pmm" where
  "pmm_request_page s =
     (if stack_idx s = 0 then (NULL, s)
      else if stack_idx s - 1 = -1 then (NULL, s)
      else
        let i = stack_idx s - 1;
            p = load64 (mem s) (stack_slot s i);
            (ok, s2) = is_page_valid (s\<lparr>stack_idx := i\<rparr>) p;
            hh = HIGHER_HALF s2 p
        in if \<not> ok then (NULL, s2)
           else if hh = NULL then (NULL, s2)
           else (ALIGN_UP p PAGE_SIZE, s2\<lparr>mem := memset (mem s2) hh 0 PAGE_SIZE\<rparr>))"

definition pmm_release_page :: "pmm \<Rightarrow> u64 \<Rightarrow> pmm" where
  "pmm_release_page s page =
     (if page = NULL then s
      else
        let (ok, s1) = is_page_valid s page in
        if \<not> ok then s1
        else if stack_idx s1 \<ge> stack_max s1 then s1
        else
          let k = unat (hash_page page) in
          s1\<lparr>valid_page_cache :=
               (valid_page_cache s1)(k := \<lparr>page_addr = page, is_valid = True, access_count = 0\<rparr>),
             cache_head := (cache_head s1 + 1) mod of_nat CACHE_SIZE,
             mem := store64 (mem s1) (stack_slot s1 (stack_idx s1)) page,
             stack_idx := stack_idx s1 + 1\<rparr>)"

definition pmm_get_free_memory :: "pmm \<Rightarrow> u64" where
  "pmm_get_free_memory s = stack_idx s * PAGE_SIZE"

definition pmm_get_total_memory :: "pmm \<Rightarrow> u64" where
  "pmm_get_total_memory s = stack_max s * PAGE_SIZE"


section \<open>Initialisation\<close>

text \<open>
  The loop \<open>for (j = 0; j < entry->length; j += PAGE_SIZE)\<close> that pushes an entry's pages. It
  writes through \<open>stack.pages\<close>, so it does not return when that is still \<open>NULL\<close>, and it
  does not end when \<open>j\<close> wraps around before it reaches the length.
\<close>

definition push_page :: "pmm \<Rightarrow> u64 \<Rightarrow> pmm" where
  "push_page s p =
     s\<lparr>mem := store64 (mem s) (stack_slot s (stack_idx s)) p, stack_idx := stack_idx s + 1\<rparr>"

partial_function (option) push_entry :: "pmm \<Rightarrow> u64 \<Rightarrow> u64 \<Rightarrow> u64 \<Rightarrow> pmm option" where
  "push_entry s base len j =
     (if j < len
      then if stack_pages s = NULL then None
           else push_entry (push_page s (base + j)) base len (j + PAGE_SIZE)
      else Some s)"

fun push_usable :: "pmm \<Rightarrow> memmap_entry list \<Rightarrow> pmm option" where
  "push_usable s [] = Some s"
| "push_usable s (e # es) =
     (if me_type e = LIMINE_MEMMAP_USABLE
      then do { s' \<leftarrow> push_entry s (me_base e) (me_length e) 0; push_usable s' es }
      else push_usable s es)"

fun count_free_pages :: "memmap_entry list \<Rightarrow> u64 \<Rightarrow> u64" where
  "count_free_pages [] n = n"
| "count_free_pages (e # es) n =
     count_free_pages es
       (if me_type e = LIMINE_MEMMAP_USABLE then n + DIV_ROUND_UP (me_length e) PAGE_SIZE else n)"

text \<open>The loop that marks the first pages of the chosen entry valid; \<open>c\<close> is \<open>cached_count\<close>.\<close>

fun fill_cache :: "u64 \<Rightarrow> u64 \<Rightarrow> nat list \<Rightarrow> u64 \<Rightarrow> (nat \<Rightarrow> page_cache_entry) \<Rightarrow> (nat \<Rightarrow> page_cache_entry)" where
  "fill_cache base free [] c cache = cache"
| "fill_cache base free (j # js) c cache =
     (if c < free
      then fill_cache base free js (c + 1)
             (cache(j := \<lparr>page_addr = base + of_nat j * PAGE_SIZE, is_valid = True, access_count = 0\<rparr>))
      else cache)"

text \<open>The loop that takes the stack's array from the first usable entry that is large enough.\<close>

fun carve :: "pmm \<Rightarrow> u64 \<Rightarrow> u64 \<Rightarrow> memmap_entry list \<Rightarrow> memmap_entry list \<Rightarrow> pmm" where
  "carve s free array_size prev [] = s"
| "carve s free array_size prev (e # es) =
     (if me_length e \<ge> array_size \<and> me_type e = LIMINE_MEMMAP_USABLE
      then let e' = e\<lparr>me_length := me_length e - array_size, me_base := me_base e + array_size\<rparr> in
           s\<lparr>stack_pages := HIGHER_HALF s (me_base e),
             memmap := prev @ e' # es,
             valid_page_cache := fill_cache (me_base e') free [0..<CACHE_SIZE] 0 (valid_page_cache s)\<rparr>
      else carve s free array_size (prev @ [e]) es)"

text \<open>The loop that counts the reclaimable pages, whose count only the trace output uses.\<close>

partial_function (option) count_entry :: "u64 \<Rightarrow> u64 \<Rightarrow> u64 \<Rightarrow> u64 option" where
  "count_entry len j n = (if j < len then count_entry len (j + PAGE_SIZE) (n + 1) else Some n)"

fun count_reusable :: "memmap_entry list \<Rightarrow> u64 \<Rightarrow> u64 option" where
  "count_reusable [] n = Some n"
| "count_reusable (e # es) n =
     (if me_type e = LIMINE_MEMMAP_BOOTLOADER_RECLAIMABLE
      then do { n' \<leftarrow> count_entry (me_length e) 0 n; count_reusable es n' }
      else count_reusable es n)"

definition pmm_init :: "pmm \<Rightarrow> memmap_entry list option \<Rightarrow> pmm option" where
  "pmm_init s response =
     (case response of
        None \<Rightarrow> None
      | Some mm \<Rightarrow>
          let free = count_free_pages mm 0;
              array_size = ALIGN_UP (free * 8) PAGE_SIZE;
              s1 = carve (s\<lparr>memmap := mm\<rparr>) free array_size [] mm
          in do { s2 \<leftarrow> push_usable s1 (memmap s1);
                  _ \<leftarrow> count_reusable (memmap s1) 0;
                  Some (s2\<lparr>stack_max := stack_idx s2, reclaimed := False\<rparr>) })"

partial_function (option) cleanup_entry :: "pmm \<Rightarrow> u64 \<Rightarrow> u64 \<Rightarrow> u64 \<Rightarrow> pmm option" where
  "cleanup_entry s base len j =
     (if j < len
      then if stack_pages s = NULL then None
           else cleanup_entry (pmm_release_page (push_page s (base + j)) (base + j)) base len (j + PAGE_SIZE)
      else Some s)"

fun cleanup_entries :: "pmm \<Rightarrow> memmap_entry list \<Rightarrow> pmm option" where
  "cleanup_entries s [] = Some s"
| "cleanup_entries s (e # es) =
     (if me_type e = LIMINE_MEMMAP_BOOTLOADER_RECLAIMABLE
      then do { s' \<leftarrow> cleanup_entry s (me_base e) (me_length e) 0; cleanup_entries s' es }
      else cleanup_entries s es)"

definition pmm_vmm_cleanup :: "pmm \<Rightarrow> memmap_entry list \<Rightarrow> pmm option" where
  "pmm_vmm_cleanup s mm =
     do { s' \<leftarrow> cleanup_entries (s\<lparr>reclaimed := True\<rparr>) mm;
          Some (s'\<lparr>stack_max := stack_idx s'\<rparr>) }"


section \<open>Abstract state and invariant\<close>

text \<open>
  The stack as a list of free pages, bottom first; the bytes of a page's frame, seen through the
  direct map; the bytes of the stack's array; and the pages the memory map says may be handed out.
\<close>

definition stack_list :: "pmm \<Rightarrow> u64 list" where
  "stack_list s = map (\<lambda>i. load64 (mem s) (stack_slot s (of_nat i))) [0..<unat (stack_idx s)]"

definition page_frame :: "pmm \<Rightarrow> u64 \<Rightarrow> u64 set" where
  "page_frame s p = region (HIGHER_HALF s p) 4096"

definition stack_region :: "pmm \<Rightarrow> u64 set" where
  "stack_region s = region (stack_pages s) (8 * unat (stack_max s))"

definition usable_page :: "pmm \<Rightarrow> u64 \<Rightarrow> bool" where
  "usable_page s p \<longleftrightarrow> list_ex (\<lambda>e. entry_covers (reclaimed s) e p) (memmap s)"

definition cache_sound :: "pmm \<Rightarrow> bool" where
  "cache_sound s \<longleftrightarrow>
     (\<forall>k. is_valid (valid_page_cache s k) \<longrightarrow> usable_page s (page_addr (valid_page_cache s k)))"

text \<open>A page the allocator may own: its frame is direct-mapped and is not part of the stack.\<close>

definition frame_ok :: "pmm \<Rightarrow> u64 \<Rightarrow> bool" where
  "frame_ok s p \<longleftrightarrow> p \<noteq> 0 \<and> page_aligned p \<and> p < 2 ^ 52 \<and> usable_page s p \<and> HIGHER_HALF s p \<noteq> 0 \<and>
     page_frame s p \<inter> stack_region s = {}"

definition pmm_inv :: "pmm \<Rightarrow> bool" where
  "pmm_inv s \<longleftrightarrow> stack_idx s \<le> stack_max s \<and> unat (stack_max s) \<le> 2 ^ 60 \<and>
     distinct (stack_list s) \<and> (\<forall>p \<in> set (stack_list s). frame_ok s p) \<and> cache_sound s"

lemmas pmm_abs_defs = stack_list_def page_frame_def stack_region_def usable_page_def
  HIGHER_HALF_def stack_slot_def

text \<open>The part of the state that neither request nor release ever changes.\<close>

definition same_setup :: "pmm \<Rightarrow> pmm \<Rightarrow> bool" where
  "same_setup s s' \<longleftrightarrow> hhdm_offset s' = hhdm_offset s \<and> stack_pages s' = stack_pages s \<and>
     stack_max s' = stack_max s \<and> memmap s' = memmap s \<and> reclaimed s' = reclaimed s"

lemma same_setup_refl [simp]: "same_setup s s"
  by (simp add: same_setup_def)

lemma same_setup_trans [trans]: "same_setup s t \<Longrightarrow> same_setup t u \<Longrightarrow> same_setup s u"
  by (simp add: same_setup_def)

lemma same_setup_simps:
  assumes "same_setup s s'"
  shows "page_frame s' = page_frame s" "stack_region s' = stack_region s"
    "usable_page s' = usable_page s" "HIGHER_HALF s' = HIGHER_HALF s"
    "frame_ok s' = frame_ok s" "stack_slot s' = stack_slot s"
  using assms by (auto simp: same_setup_def pmm_abs_defs frame_ok_def fun_eq_iff)

lemma hash_page_less: "unat (hash_page p) < 128"
  by (simp add: hash_page_def CACHE_SIZE_def Let_def unat_mod)

lemma same_setup_update_cache_access [simp]:
  "same_setup s (update_cache_access s p)" "mem (update_cache_access s p) = mem s"
  "stack_idx (update_cache_access s p) = stack_idx s"
  by (auto simp: update_cache_access_def same_setup_def Let_def split: option.split)

lemma update_cache_access_sound:
  assumes "cache_sound s" and "usable_page s p"
  shows "cache_sound (update_cache_access s p)"
proof -
  have u: "usable_page (update_cache_access s p) = usable_page s"
    by (rule same_setup_simps(3)) simp
  show ?thesis
    using assms unfolding cache_sound_def u
    by (auto simp: update_cache_access_def in_primary_cache_def Let_def find_Some_iff
        split: option.split)
qed

lemma is_page_valid_iff: "cache_sound s \<Longrightarrow> fst (is_page_valid s p) \<longleftrightarrow> usable_page s p"
  by (auto simp: is_page_valid_def in_primary_cache_def cache_sound_def usable_page_def Let_def)

lemma is_page_valid_state [simp]:
  "same_setup s (snd (is_page_valid s p))" "mem (snd (is_page_valid s p)) = mem s"
  "stack_idx (snd (is_page_valid s p)) = stack_idx s"
  by (simp_all add: is_page_valid_def)

lemma is_page_valid_sound: "cache_sound s \<Longrightarrow> cache_sound (snd (is_page_valid s p))"
  using update_cache_access_sound [of s p]
  by (auto simp: is_page_valid_def in_primary_cache_def cache_sound_def usable_page_def Let_def)


section \<open>The stack as a list\<close>

lemma length_stack_list [simp]: "length (stack_list s) = unat (stack_idx s)"
  by (simp add: stack_list_def)

lemma stack_slot_of_nat: "stack_slot s (of_nat i) = stack_pages s + of_nat (8 * i)"
  by (simp add: stack_slot_def)

lemma stack_slot_region:
  assumes "i < unat (stack_max s)" and "unat (stack_max s) \<le> 2 ^ 60"
  shows "region (stack_slot s (of_nat i)) 8 \<subseteq> stack_region s"
  unfolding stack_slot_of_nat stack_region_def by (rule region_sub) (use assms in simp_all)

lemma stack_list_cong:
  assumes "stack_idx s' = stack_idx s" and "stack_pages s' = stack_pages s"
    and "stack_idx s \<le> stack_max s" and "unat (stack_max s) \<le> 2 ^ 60"
    and "\<And>x. x \<in> stack_region s \<Longrightarrow> mem s' x = mem s x"
  shows "stack_list s' = stack_list s"
proof -
  have "load64 (mem s') (stack_slot s (of_nat i)) = load64 (mem s) (stack_slot s (of_nat i))"
    if "i < unat (stack_idx s)" for i
  proof (rule load64_region)
    have "i < unat (stack_max s)"
      using that assms(3) by (simp add: word_le_nat_alt)
    then show "mem s' x = mem s x" if "x \<in> region (stack_slot s (of_nat i)) 8" for x
      using that stack_slot_region [of i s] assms(4,5) by blast
  qed
  then show ?thesis
    using assms(1,2) by (simp add: stack_list_def stack_slot_def)
qed

lemma stack_list_pop:
  assumes "stack_list s = ps @ [p]"
  shows "stack_idx s \<noteq> 0" "load64 (mem s) (stack_slot s (stack_idx s - 1)) = p"
    "stack_list (s\<lparr>stack_idx := stack_idx s - 1\<rparr>) = ps"
proof -
  have n: "unat (stack_idx s) = Suc (length ps)"
    using length_stack_list [of s] assms by simp
  then show nz: "stack_idx s \<noteq> 0"
    by (metis unat_0 nat.distinct(1))
  from n nz have n1: "unat (stack_idx s - 1) = length ps"
    by (simp add: unat_pred)
  then have i1: "of_nat (length ps) = stack_idx s - 1"
    unfolding n1 [symmetric] by simp
  have "stack_list s = map (\<lambda>i. load64 (mem s) (stack_slot s (of_nat i))) [0..<length ps] @
      [load64 (mem s) (stack_slot s (of_nat (length ps)))]"
    by (simp add: stack_list_def n)
  with assms have "map (\<lambda>i. load64 (mem s) (stack_slot s (of_nat i))) [0..<length ps] = ps"
    and "load64 (mem s) (stack_slot s (of_nat (length ps))) = p"
    by simp_all
  then show "load64 (mem s) (stack_slot s (stack_idx s - 1)) = p"
    and "stack_list (s\<lparr>stack_idx := stack_idx s - 1\<rparr>) = ps"
    by (simp_all add: i1 stack_list_def n1 stack_slot_def)
qed

lemma stack_list_push:
  assumes "unat (stack_idx s) < 2 ^ 60"
  shows "stack_list (push_page s p) = stack_list s @ [p]"
proof -
  define n where "n = unat (stack_idx s)"
  have n: "n < 2 ^ 60" "stack_idx s = of_nat n"
    using assms by (simp_all add: n_def)
  have n1: "unat (stack_idx s + 1) = Suc n"
    using assms by (subst unat_plus_no_wrap) (simp_all add: n_def)
  have keep: "load64 (mem (push_page s p)) (stack_slot s (of_nat i)) =
      load64 (mem s) (stack_slot s (of_nat i))" if "i < n" for i
    unfolding push_page_def n(2) stack_slot_of_nat using that n(1)
    by (simp add: load_store64_disjoint region_slots_disjoint del: of_nat_mult)
  have slot: "stack_slot (push_page s p) = stack_slot s"
    by (simp add: push_page_def stack_slot_def fun_eq_iff)
  have last_slot: "load64 (mem (push_page s p)) (stack_slot s (of_nat n)) = p"
    by (simp add: push_page_def n(2))
  have idx: "unat (stack_idx (push_page s p)) = Suc n"
    using n1 by (simp add: push_page_def)
  show ?thesis
    unfolding stack_list_def [of "push_page s p"] idx slot
    using keep last_slot by (simp add: stack_list_def n_def)
qed

lemma memset_page: "memset m a 0 PAGE_SIZE = block_fill m a 0 4096"
  by (simp add: memset_def memset_loop_fill)

lemma pmm_inv_frame:
  assumes "pmm_inv s" and "same_setup s s'" and "stack_idx s' = stack_idx s"
    and "cache_sound s'" and "\<And>x. x \<in> stack_region s \<Longrightarrow> mem s' x = mem s x"
  shows "pmm_inv s'" "stack_list s' = stack_list s"
proof -
  show l: "stack_list s' = stack_list s"
    by (rule stack_list_cong) (use assms in \<open>simp_all add: pmm_inv_def same_setup_def\<close>)
  show "pmm_inv s'"
    using assms(1-4) l same_setup_simps [OF assms(2)] by (simp add: pmm_inv_def same_setup_def)
qed

lemma page_frame_disjoint:
  assumes "page_aligned p" and "page_aligned q" and "p \<noteq> q"
  shows "page_frame s p \<inter> page_frame s q = {}"
proof (rule ccontr)
  assume "\<not> ?thesis"
  then obtain x where x: "x \<in> page_frame s p" "x \<in> page_frame s q" by blast
  define y where "y = x - hhdm_offset s"
  have r: "unat (y - p) < 4096" "unat (y - q) < 4096"
    using x by (simp_all add: y_def page_frame_def region_def HIGHER_HALF_def algebra_simps)
  have "unat y div 4096 * 4096 = unat z" if "page_aligned z" "unat (y - z) < 4096" for z
  proof -
    define k where "k = unat (y - z)"
    have y: "y = z + of_nat k" by (simp add: k_def)
    have m: "unat z mod 4096 = 0" using that(1) by (simp add: page_aligned_unat)
    have k: "k < 4096" using that(2) by (simp add: k_def)
    have "unat z + 4096 \<le> 2 ^ 64"
      by (rule multiple_below) (use m unat_lt_64 [of z] in simp_all)
    then have "unat y = unat z + k"
      unfolding y using k by (subst unat_plus_no_wrap) (simp_all add: unat_of_nat)
    moreover from m obtain a where "unat z = 4096 * a"
      by (auto simp: mod_eq_0_iff_dvd)
    ultimately show ?thesis using k by simp
  qed
  with r assms have "unat p = unat q" by metis
  with assms(3) show False by (simp add: word_unat_eq_iff)
qed


section \<open>What request and release do\<close>

lemma request_empty: "stack_list s = [] \<Longrightarrow> pmm_request_page s = (NULL, s)"
  using length_stack_list [of s] by (simp add: pmm_request_page_def unat_eq_zero)

lemma request_top:
  assumes inv: "pmm_inv s" and top: "stack_list s = ps @ [p]"
  obtains s' where "pmm_request_page s = (p, s')" "pmm_inv s'" "stack_list s' = ps"
    "same_setup s s'" "mem s' = block_fill (mem s) (HIGHER_HALF s p) 0 4096"
proof -
  define s1 where "s1 = s\<lparr>stack_idx := stack_idx s - 1\<rparr>"
  define s2 where "s2 = snd (is_page_valid s1 p)"
  define s' where "s' = s2\<lparr>mem := memset (mem s2) (HIGHER_HALF s2 p) 0 PAGE_SIZE\<rparr>"
  note pop = stack_list_pop [OF top]
  have ok: "frame_ok s p" and sound: "cache_sound s"
    using inv top by (auto simp: pmm_inv_def)
  have setup1: "same_setup s s1"
    by (simp add: s1_def same_setup_def)
  have sound1: "cache_sound s1"
    using sound by (simp add: s1_def cache_sound_def usable_page_def)
  have valid: "fst (is_page_valid s1 p)"
    using ok is_page_valid_iff [OF sound1] same_setup_simps [OF setup1] by (simp add: frame_ok_def)
  have setup2: "same_setup s s2"
    using setup1 is_page_valid_state(1) [of s1 p] unfolding s2_def by (rule same_setup_trans)
  have setup': "same_setup s s'"
    using setup2 by (simp add: s'_def same_setup_def)
  have mem': "mem s' = block_fill (mem s) (HIGHER_HALF s p) 0 4096"
    using same_setup_simps(4) [OF setup2] by (simp add: s'_def s2_def s1_def memset_page)
  have pair: "is_page_valid s1 p = (True, s2)"
    using valid by (simp add: s2_def prod_eq_iff)
  have "pmm_request_page s = (ALIGN_UP p PAGE_SIZE, s')"
    using pop(1,2) pair ok same_setup_simps(4) [OF setup2] unat_minus_one [OF pop(1)]
    by (simp add: pmm_request_page_def Let_def s1_def [symmetric] s'_def frame_ok_def)
  then have req: "pmm_request_page s = (p, s')"
    using ok by (simp add: ALIGN_UP_aligned frame_ok_def)
  have inv1: "pmm_inv s1"
    using inv pop(1,3) top same_setup_simps [OF setup1] sound1
    by (auto simp: pmm_inv_def s1_def word_le_nat_alt unat_minus_one)
  have sound': "cache_sound s'"
    using is_page_valid_sound [OF sound1, of p]
    by (simp add: s'_def s2_def [symmetric] cache_sound_def usable_page_def)
  have "mem s' x = mem s1 x" if "x \<in> stack_region s1" for x
    using that ok same_setup_simps(2) [OF setup1]
    by (auto simp: mem' block_fill_def s1_def frame_ok_def page_frame_def region_def)
  moreover have "same_setup s1 s'" "stack_idx s' = stack_idx s1"
    using setup' by (simp_all add: s1_def s'_def s2_def same_setup_def)
  ultimately have "pmm_inv s'" "stack_list s' = stack_list s1"
    using pmm_inv_frame [OF inv1 _ _ sound'] by blast+
  with req setup' mem' pop(3) show ?thesis
    by (intro that) (simp_all add: s1_def)
qed

lemma release_push:
  assumes inv: "pmm_inv s" and ok: "frame_ok s p" and new: "p \<notin> set (stack_list s)"
    and room: "stack_idx s < stack_max s"
  shows "pmm_inv (pmm_release_page s p)" "stack_list (pmm_release_page s p) = stack_list s @ [p]"
    "same_setup s (pmm_release_page s p)"
    "\<And>x. x \<notin> stack_region s \<Longrightarrow> mem (pmm_release_page s p) x = mem s x"
proof -
  define s1 where "s1 = snd (is_page_valid s p)"
  define s2 where "s2 = push_page s1 p"
  define s' where "s' = pmm_release_page s p"
  have sound: "cache_sound s" and max: "unat (stack_max s) \<le> 2 ^ 60"
    using inv by (auto simp: pmm_inv_def)
  have pair: "is_page_valid s p = (True, s1)"
    using ok is_page_valid_iff [OF sound] by (simp add: s1_def prod_eq_iff frame_ok_def)
  have st1: "same_setup s s1" "mem s1 = mem s" "stack_idx s1 = stack_idx s"
    by (simp_all add: s1_def)
  have s': "s' = s2\<lparr>valid_page_cache := (valid_page_cache s1)(unat (hash_page p) :=
               \<lparr>page_addr = p, is_valid = True, access_count = 0\<rparr>),
             cache_head := (cache_head s1 + 1) mod of_nat CACHE_SIZE\<rparr>"
    using ok room pair st1
    by (simp add: s'_def pmm_release_page_def frame_ok_def s2_def push_page_def same_setup_def
        not_le [symmetric])
  have su: "same_setup s s'"
    using st1 by (simp add: s' s2_def push_page_def same_setup_def)
  have idx: "unat (stack_idx s) < 2 ^ 60"
    using room max by (simp add: word_less_nat_alt)
  have idx': "stack_idx s' = stack_idx s + 1"
    using st1 by (simp add: s' s2_def push_page_def)
  have "stack_list s' = stack_list s2" "stack_list s1 = stack_list s"
    using st1 by (simp_all add: s' stack_list_def stack_slot_def same_setup_def)
  then have l: "stack_list s' = stack_list s @ [p]"
    using stack_list_push [of s1 p] idx st1 by (simp add: s2_def)
  have frame: "mem s' x = mem s x" if "x \<notin> stack_region s" for x
  proof -
    have "x \<notin> region (stack_slot s (stack_idx s)) 8"
      using that stack_slot_region [of "unat (stack_idx s)" s] room max
      by (auto simp: word_less_nat_alt)
    then show ?thesis
      using st1 by (simp add: s' s2_def push_page_def store64_outside stack_slot_def same_setup_def)
  qed
  have "cache_sound s1" "usable_page s' = usable_page s" "usable_page s1 = usable_page s"
    using is_page_valid_sound [OF sound] same_setup_simps(3) [OF su] same_setup_simps(3) [OF st1(1)]
    by (simp_all add: s1_def)
  then have "cache_sound s'"
    using ok by (simp add: cache_sound_def s' frame_ok_def s2_def push_page_def)
  moreover have "stack_idx s' \<le> stack_max s'"
    using room su by (simp add: idx' same_setup_def inc_le)
  ultimately have "pmm_inv s'"
    using inv l ok new same_setup_simps [OF su] su by (auto simp: pmm_inv_def same_setup_def)
  with l su frame show "pmm_inv (pmm_release_page s p)"
    "stack_list (pmm_release_page s p) = stack_list s @ [p]" "same_setup s (pmm_release_page s p)"
    "\<And>x. x \<notin> stack_region s \<Longrightarrow> mem (pmm_release_page s p) x = mem s x"
    by (simp_all add: s'_def)
qed


section \<open>What initialisation does\<close>

text \<open>
  The pages of an entry, and of all usable entries of a memory map, in the order in which
  initialisation pushes them. \<open>laid_out b mm\<close> is what the boot protocol promises of the usable and
  the reclaimable entries: page-aligned, in ascending order from \<open>b\<close> on, and non-overlapping;
  they end below the 64 TiB that the direct map covers.
\<close>

definition entry_pages :: "memmap_entry \<Rightarrow> u64 list" where
  "entry_pages e = map (\<lambda>i. me_base e + of_nat (4096 * i)) [0..<unat (me_length e) div 4096]"

definition usable_entry :: "memmap_entry \<Rightarrow> bool" where
  "usable_entry e \<longleftrightarrow> me_type e = LIMINE_MEMMAP_USABLE"

definition usable_pages :: "memmap_entry list \<Rightarrow> u64 list" where
  "usable_pages mm = concat (map entry_pages (filter usable_entry mm))"

definition managed :: "memmap_entry \<Rightarrow> bool" where
  "managed e \<longleftrightarrow> usable_entry e \<or> me_type e = LIMINE_MEMMAP_BOOTLOADER_RECLAIMABLE"

fun laid_out :: "nat \<Rightarrow> memmap_entry list \<Rightarrow> bool" where
  "laid_out b [] \<longleftrightarrow> b \<le> 2 ^ 46"
| "laid_out b (e # es) \<longleftrightarrow>
     (if managed e
      then b \<le> unat (me_base e) \<and> page_aligned (me_base e) \<and> page_aligned (me_length e) \<and>
           laid_out (unat (me_base e) + unat (me_length e)) es
      else laid_out b es)"

lemma laid_out_bound: "laid_out b es \<Longrightarrow> b \<le> 2 ^ 46"
proof (induction es arbitrary: b)
  case (Cons e es)
  then show ?case by (fastforce split: if_splits)
qed simp

lemma laid_out_mono: "laid_out b es \<Longrightarrow> a \<le> b \<Longrightarrow> laid_out a es"
  by (induction es arbitrary: b) (auto split: if_splits)

lemma entry_page_iff:
  assumes "page_aligned (me_base e)" and "page_aligned (me_length e)"
    and "unat (me_base e) + unat (me_length e) \<le> 2 ^ 46"
  shows "p \<in> set (entry_pages e) \<longleftrightarrow>
    page_aligned p \<and> unat (me_base e) \<le> unat p \<and> unat p + 4096 \<le> unat (me_base e) + unat (me_length e)"
proof -
  obtain a n where b: "unat (me_base e) = 4096 * a" and l: "unat (me_length e) = 4096 * n"
    using assms(1,2) unfolding page_aligned_unat mod_eq_0_iff_dvd by (elim dvdE)
  have u: "unat (me_base e + of_nat (4096 * i)) = 4096 * (a + i)" if "i < n" for i
    using that assms(3) b l
    by (subst unat_plus_no_wrap) (simp_all add: unat_of_nat del: of_nat_mult)
  show ?thesis
  proof
    assume "p \<in> set (entry_pages e)"
    then obtain i where i: "i < n" "p = me_base e + of_nat (4096 * i)"
      by (auto simp: entry_pages_def l)
    then show "page_aligned p \<and> unat (me_base e) \<le> unat p \<and>
        unat p + 4096 \<le> unat (me_base e) + unat (me_length e)"
      using u [OF i(1)] by (simp add: page_aligned_unat b l del: of_nat_mult)
  next
    assume r: "page_aligned p \<and> unat (me_base e) \<le> unat p \<and>
        unat p + 4096 \<le> unat (me_base e) + unat (me_length e)"
    then obtain k where k: "unat p = 4096 * k"
      by (auto simp: page_aligned_unat mod_eq_0_iff_dvd)
    with r have "4096 * a \<le> 4096 * k" "4096 * k + 4096 \<le> 4096 * a + 4096 * n" by (simp_all add: b l)
    then have "a \<le> k" "k - a < n" by linarith+
    moreover from this have "p = me_base e + of_nat (4096 * (k - a))"
      using u [of "k - a"] k by (simp add: word_unat_eq_iff del: of_nat_mult)
    ultimately show "p \<in> set (entry_pages e)"
      by (auto simp: entry_pages_def l simp del: of_nat_mult)
  qed
qed

lemma distinct_entry_pages:
  assumes "unat (me_length e) \<le> 2 ^ 46"
  shows "distinct (entry_pages e)"
proof -
  have "i = j" if "i < unat (me_length e) div 4096" "j < unat (me_length e) div 4096"
    "(of_nat (4096 * i) :: u64) = of_nat (4096 * j)" for i j
    using that assms by (simp add: word_unat_eq_iff unat_of_nat del: of_nat_mult)
  then show ?thesis
    by (auto simp: entry_pages_def distinct_map inj_on_def simp del: of_nat_mult)
qed

lemma usable_pages_Cons:
  "usable_pages (e # es) = (if usable_entry e then entry_pages e @ usable_pages es else usable_pages es)"
  by (simp add: usable_pages_def)

lemma usable_pages_append: "usable_pages (xs @ ys) = usable_pages xs @ usable_pages ys"
  by (simp add: usable_pages_def)

lemma laid_out_entry:
  assumes "laid_out b (e # es)" and "managed e"
  shows "page_aligned (me_base e)" "page_aligned (me_length e)"
    "unat (me_base e) + unat (me_length e) \<le> 2 ^ 46" "b \<le> unat (me_base e)"
    "laid_out (unat (me_base e) + unat (me_length e)) es"
  using assms laid_out_bound by auto

lemma laid_out_pages:
  assumes "laid_out b es" and "p \<in> set (usable_pages es)"
  shows "page_aligned p \<and> b \<le> unat p \<and> unat p + 4096 \<le> 2 ^ 46 \<and>
    (\<exists>e \<in> set es. usable_entry e \<and> unat (me_base e) \<le> unat p \<and>
       unat p + 4096 \<le> unat (me_base e) + unat (me_length e) \<and>
       unat (me_base e) + unat (me_length e) \<le> 2 ^ 46)"
  using assms
proof (induction es arbitrary: b)
  case Nil
  then show ?case by (simp add: usable_pages_def)
next
  case (Cons e es)
  show ?case
  proof (cases "usable_entry e \<and> p \<in> set (entry_pages e)")
    case True
    then have "managed e" by (simp add: managed_def)
    from laid_out_entry [OF Cons.prems(1) this] True show ?thesis
      using entry_page_iff [of e p] by auto
  next
    case False
    then have p: "p \<in> set (usable_pages es)"
      using Cons.prems(2) by (auto simp: usable_pages_Cons split: if_splits)
    moreover have "laid_out b es"
      using Cons.prems(1) laid_out_mono by (fastforce split: if_splits)
    ultimately show ?thesis using Cons.IH by fastforce
  qed
qed

lemma laid_out_distinct: "laid_out b es \<Longrightarrow> distinct (usable_pages es)"
proof (induction es arbitrary: b)
  case (Cons e es)
  show ?case
  proof (cases "usable_entry e")
    case True
    then have m: "managed e" by (simp add: managed_def)
    note le = laid_out_entry [OF Cons.prems m]
    have "set (entry_pages e) \<inter> set (usable_pages es) = {}"
      using entry_page_iff [OF le(1-3)] laid_out_pages [OF le(5)] by fastforce
    with True Cons.IH [OF le(5)] distinct_entry_pages [of e] le(3) show ?thesis
      by (simp add: usable_pages_Cons)
  next
    case False
    then show ?thesis
      using Cons by (auto simp: usable_pages_Cons split: if_splits)
  qed
qed (simp add: usable_pages_def)

lemma laid_out_length: "laid_out b es \<Longrightarrow> b + 4096 * length (usable_pages es) \<le> 2 ^ 46"
proof (induction es arbitrary: b)
  case (Cons e es)
  show ?case
  proof (cases "managed e")
    case True
    note le = laid_out_entry [OF Cons.prems True]
    have "4096 * length (entry_pages e) \<le> unat (me_length e)"
      by (simp add: entry_pages_def)
    with Cons.IH [OF le(5)] le(4) show ?thesis by (simp add: usable_pages_Cons)
  next
    case False
    then show ?thesis
      using Cons by (auto simp: usable_pages_Cons managed_def)
  qed
qed (simp add: usable_pages_def)


lemma page_aligned_pages: "page_aligned x \<Longrightarrow> unat x = 4096 * (unat x div 4096)"
  by (auto simp: page_aligned_unat)

lemma next_page: "of_nat (4096 * k) + PAGE_SIZE = (of_nat (4096 * Suc k) :: u64)"
  by (simp add: PAGE_SIZE_def)

lemma push_entry_pages:
  assumes "stack_pages s \<noteq> NULL" and "unat len = 4096 * n" and "k \<le> n"
  shows "push_entry s base len (of_nat (4096 * k)) =
    Some (fold (\<lambda>p s. push_page s p) (map (\<lambda>i. base + of_nat (4096 * i)) [k..<n]) s)"
  using assms
proof (induction "n - k" arbitrary: s k)
  case 0
  have "\<not> (of_nat (4096 * k) :: u64) < len"
    using 0 unat_lt_64 [of len] by (simp add: word_less_nat_alt unat_of_nat del: of_nat_mult)
  with 0 show ?case
    by (subst push_entry.simps) (simp del: of_nat_mult)
next
  case (Suc d)
  have "(of_nat (4096 * k) :: u64) < len"
    using Suc unat_lt_64 [of len] by (simp add: word_less_nat_alt unat_of_nat del: of_nat_mult)
  moreover have "[k..<n] = k # [Suc k..<n]"
    using Suc by (simp add: upt_conv_Cons)
  moreover have "stack_pages (push_page s q) = stack_pages s" for q
    by (simp add: push_page_def)
  moreover have "d = n - Suc k" "Suc k \<le> n"
    using Suc by simp_all
  ultimately show ?case
    using Suc.prems Suc.hyps(1) [of "Suc k" "push_page s (base + of_nat (4096 * k))"]
    by (subst push_entry.simps) (simp add: next_page del: of_nat_mult mult_Suc_right)
qed

lemma push_entry_eq:
  assumes "stack_pages s \<noteq> NULL" and "page_aligned (me_length e)"
  shows "push_entry s (me_base e) (me_length e) 0 = Some (fold (\<lambda>p s. push_page s p) (entry_pages e) s)"
  using push_entry_pages [OF assms(1) page_aligned_pages [OF assms(2)], of 0 "me_base e"]
  by (simp add: entry_pages_def del: of_nat_mult)

lemma count_entry_ends:
  assumes "unat len = 4096 * n" and "k \<le> n"
  shows "count_entry len (of_nat (4096 * k)) c \<noteq> None"
  using assms
proof (induction "n - k" arbitrary: k c)
  case 0
  have "\<not> (of_nat (4096 * k) :: u64) < len"
    using 0 unat_lt_64 [of len] by (simp add: word_less_nat_alt unat_of_nat del: of_nat_mult)
  then show ?case by (subst count_entry.simps) (simp del: of_nat_mult)
next
  case (Suc d)
  have "d = n - Suc k" "Suc k \<le> n"
    using Suc by simp_all
  with Suc.hyps(1) Suc.prems(1) have "count_entry len (of_nat (4096 * Suc k)) (c + 1) \<noteq> None"
    by blast
  then show ?case
    by (subst count_entry.simps) (simp add: next_page del: of_nat_mult mult_Suc_right)
qed

lemma count_reusable_ends: "laid_out b es \<Longrightarrow> \<exists>m. count_reusable es c = Some m"
proof (induction es arbitrary: b c)
  case (Cons e es)
  have "count_entry (me_length e) 0 c \<noteq> None" if "managed e"
    using count_entry_ends [OF page_aligned_pages, of "me_length e" 0 c]
      laid_out_entry [OF Cons.prems that] by simp
  with Cons show ?case
    by (fastforce simp: managed_def split: if_splits)
qed simp

lemma fold_push_page:
  assumes "unat (stack_idx s) + length ps \<le> 2 ^ 60"
  defines "s' \<equiv> fold (\<lambda>p s. push_page s p) ps s"
  shows "stack_list s' = stack_list s @ ps" "unat (stack_idx s') = unat (stack_idx s) + length ps"
    "\<exists>m i. s' = s\<lparr>mem := m, stack_idx := i\<rparr>"
    "\<And>x. x \<notin> region (stack_pages s) (8 * (unat (stack_idx s) + length ps)) \<Longrightarrow> mem s' x = mem s x"
proof -
  let ?s' = "\<lambda>ps. fold (\<lambda>p s. push_page s p) ps s"
  have "stack_list (?s' ps) = stack_list s @ ps \<and> unat (stack_idx (?s' ps)) = unat (stack_idx s) + length ps \<and>
    (\<exists>m i. ?s' ps = s\<lparr>mem := m, stack_idx := i\<rparr>) \<and>
    (\<forall>x. x \<notin> region (stack_pages s) (8 * (unat (stack_idx s) + length ps)) \<longrightarrow> mem (?s' ps) x = mem s x)"
    using assms(1)
  proof (induction ps rule: rev_induct)
    case Nil
    have "\<exists>m i. s = s\<lparr>mem := m, stack_idx := i\<rparr>"
      by (rule exI [of _ "mem s"], rule exI [of _ "stack_idx s"]) simp
    then show ?case by simp
  next
    case (snoc p ps)
    define t where "t = ?s' ps"
    define n where "n = unat (stack_idx s) + length ps"
    have IH: "stack_list t = stack_list s @ ps" "unat (stack_idx t) = n"
      "\<exists>m i. t = s\<lparr>mem := m, stack_idx := i\<rparr>"
      "\<And>x. x \<notin> region (stack_pages s) (8 * n) \<Longrightarrow> mem t x = mem s x"
      using snoc by (auto simp: t_def n_def)
    have pages: "stack_pages t = stack_pages s" and n: "n < 2 ^ 60" "stack_idx t = of_nat n"
      using IH(2,3) snoc.prems by (auto simp: n_def [symmetric])
    have sub: "region (stack_slot t (stack_idx t)) 8 \<subseteq> region (stack_pages s) (8 * (n + 1))"
      "region (stack_pages s) (8 * n) \<subseteq> region (stack_pages s) (8 * (n + 1))"
      using n pages by (simp_all add: stack_slot_of_nat region_sub region_mono del: of_nat_mult)
    have "mem (push_page t p) x = mem s x" if "x \<notin> region (stack_pages s) (8 * (n + 1))" for x
    proof -
      have "x \<notin> region (stack_slot t (stack_idx t)) 8" "x \<notin> region (stack_pages s) (8 * n)"
        using that sub by blast+
      with IH(4) [of x] show ?thesis by (simp add: push_page_def store64_outside)
    qed
    moreover have "unat (stack_idx (push_page t p)) = n + 1"
      using n IH(2) by (simp add: push_page_def) (subst unat_plus_no_wrap, simp_all)
    moreover have "stack_list (push_page t p) = stack_list s @ ps @ [p]"
      using stack_list_push [of t p] IH(1,2) n(1) by simp
    moreover have "\<exists>m i. push_page t p = s\<lparr>mem := m, stack_idx := i\<rparr>"
    proof -
      obtain m i where "t = s\<lparr>mem := m, stack_idx := i\<rparr>"
        using IH(3) by blast
      then have "push_page t p = s\<lparr>mem := store64 m (stack_slot t i) p, stack_idx := i + 1\<rparr>"
        by (simp add: push_page_def)
      then show ?thesis by blast
    qed
    ultimately show ?case by (simp add: t_def [symmetric] n_def add.assoc)
  qed
  then show "stack_list s' = stack_list s @ ps" "unat (stack_idx s') = unat (stack_idx s) + length ps"
    "\<exists>m i. s' = s\<lparr>mem := m, stack_idx := i\<rparr>"
    "\<And>x. x \<notin> region (stack_pages s) (8 * (unat (stack_idx s) + length ps)) \<Longrightarrow> mem s' x = mem s x"
    by (simp_all add: s'_def)
qed

lemma push_usable_eq:
  assumes "laid_out b es" and "stack_pages s \<noteq> NULL"
  shows "push_usable s es = Some (fold (\<lambda>p s. push_page s p) (usable_pages es) s)"
  using assms
proof (induction es arbitrary: b s)
  case (Cons e es)
  have keep: "stack_pages (fold (\<lambda>p s. push_page s p) ps t) = stack_pages t" for ps t
    by (induction ps arbitrary: t) (simp_all add: push_page_def)
  show ?case
  proof (cases "usable_entry e")
    case True
    then have "managed e" by (simp add: managed_def)
    note le = laid_out_entry [OF Cons.prems(1) this]
    show ?thesis
      using True Cons.IH [OF le(5)] Cons.prems(2) push_entry_eq [OF _ le(2)] keep
      by (simp add: usable_pages_Cons) (simp add: usable_entry_def)
  next
    case False
    with Cons show ?thesis
      by (auto simp: usable_pages_Cons split: if_splits) (auto simp: usable_entry_def)
  qed
qed (simp add: usable_pages_def)


lemma count_free_pages_eq:
  "laid_out b es \<Longrightarrow> count_free_pages es n = n + of_nat (length (usable_pages es))"
proof (induction es arbitrary: b n)
  case (Cons e es)
  show ?case
  proof (cases "managed e")
    case True
    note le = laid_out_entry [OF Cons.prems True]
    have "(unat (me_length e) + 4095) div 4096 = unat (me_length e) div 4096"
      by (subst (1 2) page_aligned_pages [OF le(2)]) simp
    then have "unat (DIV_ROUND_UP (me_length e) PAGE_SIZE) = length (entry_pages e)"
      using le(3) by (subst unat_DIV_ROUND_UP) (simp_all add: entry_pages_def PAGE_SIZE_def)
    then have "DIV_ROUND_UP (me_length e) PAGE_SIZE = of_nat (length (entry_pages e))"
      by (metis of_nat_unat ucast_id)
    with Cons.IH [OF le(5)] show ?thesis
      by (simp add: usable_pages_Cons usable_entry_def)
  next
    case False
    with Cons show ?thesis
      by (auto simp: usable_pages_Cons managed_def usable_entry_def)
  qed
qed (simp add: usable_pages_def)

definition stack_array_size :: "memmap_entry list \<Rightarrow> u64" where
  "stack_array_size mm = ALIGN_UP (of_nat (length (usable_pages mm)) * 8) PAGE_SIZE"

lemma stack_array_size_bounds:
  assumes "laid_out b mm"
  shows "8 * length (usable_pages mm) \<le> unat (stack_array_size mm)"
    "page_aligned (stack_array_size mm)"
proof -
  define n where "n = length (usable_pages mm)"
  have n: "4096 * n \<le> 2 ^ 46"
    using laid_out_length [OF assms] by (simp add: n_def)
  have u: "unat (of_nat n * 8 :: u64) = 8 * n"
    using n by (subst unat_mult_no_wrap) (simp_all add: unat_of_nat)
  have "unat (stack_array_size mm) = (8 * n + 4095) div 4096 * 4096"
    unfolding stack_array_size_def n_def [symmetric]
    using n by (subst unat_ALIGN_UP) (simp_all add: u PAGE_SIZE_def)
  then show "8 * length (usable_pages mm) \<le> unat (stack_array_size mm)"
    "page_aligned (stack_array_size mm)"
    unfolding n_def [symmetric] page_aligned_unat by simp_all
qed

lemma fill_cache_entries:
  assumes "\<And>k. is_valid (c k) \<Longrightarrow> P (page_addr (c k))"
    and "\<And>j. j \<in> set js \<Longrightarrow> P (base + of_nat j * PAGE_SIZE)"
  shows "is_valid (fill_cache base free js n c k) \<Longrightarrow> P (page_addr (fill_cache base free js n c k))"
  using assms
proof (induction js arbitrary: n c)
  case (Cons j js)
  show ?case
  proof (cases "n < free")
    case True
    define c' where "c' = c(j := \<lparr>page_addr = base + of_nat j * PAGE_SIZE, is_valid = True, access_count = 0\<rparr>)"
    have "P (page_addr (c' i))" if "is_valid (c' i)" for i
      using that Cons.prems(2,3) by (auto simp: c'_def split: if_splits)
    with Cons.IH [of "n + 1" c'] Cons.prems True show ?thesis
      by (simp add: c'_def [symmetric])
  qed (use Cons.prems in simp)
qed simp

lemma find_split:
  "List.find P es = Some e \<Longrightarrow> \<exists>xs ys. es = xs @ e # ys \<and> P e \<and> (\<forall>x \<in> set xs. \<not> P x)"
proof (induction es)
  case (Cons f es)
  show ?case
  proof (cases "P f")
    case True
    with Cons.prems show ?thesis by (intro exI [of _ "[]"] exI [of _ es]) simp
  next
    case False
    with Cons obtain xs ys where "es = xs @ e # ys" "P e" "\<forall>x \<in> set xs. \<not> P x" by auto
    with False show ?thesis by (intro exI [of _ "f # xs"] exI [of _ ys]) simp
  qed
qed simp

lemma carve_append:
  assumes "sz \<le> me_length e" and "usable_entry e"
    and "\<forall>x \<in> set xs. \<not> (sz \<le> me_length x \<and> usable_entry x)"
  shows "carve s free sz prev (xs @ e # ys) =
     s\<lparr>stack_pages := HIGHER_HALF s (me_base e),
       memmap := prev @ xs @ e\<lparr>me_length := me_length e - sz, me_base := me_base e + sz\<rparr> # ys,
       valid_page_cache := fill_cache (me_base e + sz) free [0..<CACHE_SIZE] 0 (valid_page_cache s)\<rparr>"
  using assms by (induction xs arbitrary: prev) (auto simp: usable_entry_def Let_def)

lemma laid_out_append:
  "laid_out b (xs @ ys) \<Longrightarrow> \<exists>c. b \<le> c \<and> laid_out c ys \<and> (\<forall>zs. laid_out c zs \<longrightarrow> laid_out b (xs @ zs)) \<and>
     (\<forall>p \<in> set (usable_pages xs). unat p + 4096 \<le> c)"
proof (induction xs arbitrary: b)
  case Nil
  then show ?case by (auto simp: usable_pages_def)
next
  case (Cons e xs)
  show ?case
  proof (cases "managed e")
    case True
    note le = laid_out_entry [of b e "xs @ ys", OF _ True]
    from Cons.IH [OF le(5)] Cons.prems obtain c where
      c: "unat (me_base e) + unat (me_length e) \<le> c" "laid_out c ys"
        "\<forall>zs. laid_out c zs \<longrightarrow> laid_out (unat (me_base e) + unat (me_length e)) (xs @ zs)"
        "\<forall>p \<in> set (usable_pages xs). unat p + 4096 \<le> c"
      by auto
    have "\<forall>p \<in> set (entry_pages e). unat p + 4096 \<le> c"
      using entry_page_iff [OF le(1-3)] Cons.prems c(1) by auto
    with c True Cons.prems le(4) show ?thesis
      by (intro exI [of _ c]) (auto simp: usable_pages_Cons)
  next
    case False
    with Cons show ?thesis
      by (simp add: usable_pages_Cons managed_def)
  qed
qed


text \<open>The memory map after the array of \<open>sz\<close> bytes has been cut off the front of the entry \<open>e\<close>.\<close>

definition cut_entry :: "u64 \<Rightarrow> memmap_entry \<Rightarrow> memmap_entry" where
  "cut_entry sz e = e\<lparr>me_length := me_length e - sz, me_base := me_base e + sz\<rparr>"

lemma cut_entry_bounds:
  assumes "sz \<le> me_length e" and "page_aligned sz" and "page_aligned (me_base e)"
    and "page_aligned (me_length e)" and "unat (me_base e) + unat (me_length e) \<le> 2 ^ 46"
  shows "unat (me_base (cut_entry sz e)) = unat (me_base e) + unat sz"
    "unat (me_length (cut_entry sz e)) = unat (me_length e) - unat sz"
    "page_aligned (me_base (cut_entry sz e))" "page_aligned (me_length (cut_entry sz e))"
proof -
  have "unat sz \<le> unat (me_length e)"
    using assms(1) by (simp add: word_le_nat_alt)
  then show b: "unat (me_base (cut_entry sz e)) = unat (me_base e) + unat sz"
    using assms(5) by (simp add: cut_entry_def) (subst unat_plus_no_wrap, simp_all)
  show l: "unat (me_length (cut_entry sz e)) = unat (me_length e) - unat sz"
    using assms(1) by (simp add: cut_entry_def unat_minus_no_wrap)
  show "page_aligned (me_base (cut_entry sz e))" "page_aligned (me_length (cut_entry sz e))"
    unfolding page_aligned_unat b l using assms(2-4)
    by (auto simp: page_aligned_unat mod_eq_0_iff_dvd intro: dvd_diff_nat)
qed

lemma usable_pages_cut:
  assumes lo: "laid_out b (xs @ e # ys)" and e: "usable_entry e"
    and sz: "sz \<le> me_length e" "page_aligned sz"
  defines "mm' \<equiv> xs @ cut_entry sz e # ys"
  shows "laid_out b mm'"
    "p \<in> set (usable_pages mm') \<longleftrightarrow> p \<in> set (usable_pages (xs @ e # ys)) \<and>
       \<not> (unat (me_base e) \<le> unat p \<and> unat p < unat (me_base e) + unat sz)"
    "p \<in> set (usable_pages mm') \<Longrightarrow>
       unat p + 4096 \<le> unat (me_base e) \<or> unat (me_base e) + unat sz \<le> unat p"
    "length (usable_pages mm') \<le> length (usable_pages (xs @ e # ys))"
proof -
  obtain c where c: "b \<le> c" "laid_out c (e # ys)" "\<And>zs. laid_out c zs \<Longrightarrow> laid_out b (xs @ zs)"
      "\<And>p. p \<in> set (usable_pages xs) \<Longrightarrow> unat p + 4096 \<le> c"
    using laid_out_append [OF lo] by auto
  have m: "managed e" "managed (cut_entry sz e)" "usable_entry (cut_entry sz e)"
    using e by (simp_all add: managed_def usable_entry_def cut_entry_def)
  note le = laid_out_entry [OF c(2) m(1)]
  note cb = cut_entry_bounds [OF sz le(1-3)]
  have szn: "unat sz \<le> unat (me_length e)"
    using sz(1) by (simp add: word_le_nat_alt)
  have "laid_out c (cut_entry sz e # ys)"
    using le m(2) cb szn by simp
  then show "laid_out b mm'"
    unfolding mm'_def by (rule c(3))
  have pe: "q \<in> set (entry_pages (cut_entry sz e)) \<longleftrightarrow>
      q \<in> set (entry_pages e) \<and> unat (me_base e) + unat sz \<le> unat q" for q
    using entry_page_iff [OF le(1-3), of q] entry_page_iff [OF cb(3,4), of q] cb(1,2) szn le(3) by auto
  have px: "unat q + 4096 \<le> unat (me_base e)" if "q \<in> set (usable_pages xs)" for q
    using c(4) [OF that] le(4) by simp
  have py: "unat (me_base e) + unat sz \<le> unat q" if "q \<in> set (usable_pages ys)" for q
    using laid_out_pages [OF le(5) that] szn by simp
  have pe': "unat (me_base e) \<le> unat q" if "q \<in> set (entry_pages e)" for q
    using that entry_page_iff [OF le(1-3)] by simp
  have split: "usable_pages (xs @ f # ys) = usable_pages xs @ entry_pages f @ usable_pages ys"
    if "usable_entry f" for f
    using that by (simp add: usable_pages_append usable_pages_Cons)
  show "p \<in> set (usable_pages mm') \<longleftrightarrow> p \<in> set (usable_pages (xs @ e # ys)) \<and>
       \<not> (unat (me_base e) \<le> unat p \<and> unat p < unat (me_base e) + unat sz)"
    unfolding mm'_def split [OF m(3)] split [OF e]
    using pe [of p] pe' [of p] px [of p] py [of p] by auto
  show "unat p + 4096 \<le> unat (me_base e) \<or> unat (me_base e) + unat sz \<le> unat p"
    if "p \<in> set (usable_pages mm')"
    using that px [of p] py [of p] pe [of p] unfolding mm'_def split [OF m(3)] by auto
  have "length (entry_pages (cut_entry sz e)) \<le> length (entry_pages e)"
    by (simp add: entry_pages_def cb(2) div_le_mono)
  then show "length (usable_pages mm') \<le> length (usable_pages (xs @ e # ys))"
    unfolding mm'_def split [OF m(3)] split [OF e] by simp
qed

lemma region_disjoint:
  assumes "unat p + k \<le> unat b \<or> unat b + n \<le> unat p" and "unat p + k \<le> 2 ^ 64" and "unat b + n \<le> 2 ^ 64"
  shows "region (p + h) k \<inter> region (b + h) n = {}"
proof (rule ccontr)
  assume "\<not> ?thesis"
  then obtain x where x: "unat (x - (p + h)) < k" "unat (x - (b + h)) < n"
    by (auto simp: region_def)
  define i j where "i = unat (x - (p + h))" and "j = unat (x - (b + h))"
  have "unat (p + (x - (p + h))) = unat p + i"
    unfolding i_def by (rule unat_plus_no_wrap) (use x assms(2) in simp)
  moreover have "unat (b + (x - (b + h))) = unat b + j"
    unfolding j_def by (rule unat_plus_no_wrap) (use x assms(3) in simp)
  moreover have "p + (x - (p + h)) = b + (x - (b + h))"
    by simp
  ultimately have "unat p + i = unat b + j"
    by metis
  moreover have "i < k" "j < n"
    using x by (simp_all only: i_def j_def)
  ultimately show False
    using assms(1) by linarith
qed


definition pmm_fresh :: "pmm \<Rightarrow> bool" where
  "pmm_fresh s \<longleftrightarrow> stack_idx s = 0 \<and> (\<forall>k. \<not> is_valid (valid_page_cache s k))"

text \<open>The entry that initialisation takes the stack's array from.\<close>

definition stack_home :: "memmap_entry list \<Rightarrow> memmap_entry option" where
  "stack_home mm = List.find (\<lambda>e. stack_array_size mm \<le> me_length e \<and> usable_entry e) mm"

lemma usable_page_of_pages:
  assumes "laid_out b (memmap s)" and "p \<in> set (usable_pages (memmap s))"
  shows "usable_page s p"
proof -
  obtain e where e: "e \<in> set (memmap s)" "usable_entry e" "unat (me_base e) \<le> unat p"
    "unat p + 4096 \<le> unat (me_base e) + unat (me_length e)"
    "unat (me_base e) + unat (me_length e) \<le> 2 ^ 46"
    using laid_out_pages [OF assms] by blast
  have "unat (me_base e + me_length e) = unat (me_base e) + unat (me_length e)"
    by (rule unat_plus_no_wrap) (use e(5) in simp)
  with e have "entry_covers (reclaimed s) e p"
    by (simp add: entry_covers_def usable_entry_def word_le_nat_alt word_less_nat_alt)
  with e(1) show ?thesis
    by (auto simp: usable_page_def list_ex_iff)
qed

lemma HIGHER_HALF_nonzero:
  assumes "unat (hhdm_offset s) + 2 ^ 46 \<le> 2 ^ 64" and "unat p < 2 ^ 46" and "p \<noteq> 0"
  shows "HIGHER_HALF s p \<noteq> 0"
proof -
  have "unat (HIGHER_HALF s p) = unat p + unat (hhdm_offset s)"
    unfolding HIGHER_HALF_def by (rule unat_plus_no_wrap) (use assms in simp)
  then show ?thesis
    using assms(3) by (auto simp: word_unat_eq_iff)
qed

text \<open>The state after the stack's array has been chosen: its memory map, array and cache.\<close>

lemma pmm_init_steps:
  assumes lo: "laid_out 4096 mm" and home: "stack_home mm = Some e"
    and hh: "unat (hhdm_offset s) + 2 ^ 46 \<le> 2 ^ 64" and room: "0 < unat (me_length e)"
  obtains xs ys where
    "mm = xs @ e # ys" "usable_entry e" "stack_array_size mm \<le> me_length e"
    "\<And>s1. s1 = s\<lparr>stack_pages := HIGHER_HALF s (me_base e),
         memmap := xs @ cut_entry (stack_array_size mm) e # ys,
         valid_page_cache := fill_cache (me_base e + stack_array_size mm) (of_nat (length (usable_pages mm)))
           [0..<CACHE_SIZE] 0 (valid_page_cache s)\<rparr> \<Longrightarrow>
      pmm_init s (Some mm) =
        (let s2 = fold (\<lambda>p s. push_page s p) (usable_pages (memmap s1)) s1 in
         Some (s2\<lparr>stack_max := stack_idx s2, reclaimed := False\<rparr>))"
proof -
  let ?sz = "stack_array_size mm"
  from home obtain xs ys where mm: "mm = xs @ e # ys" and e: "?sz \<le> me_length e" "usable_entry e"
    and xs: "\<forall>x \<in> set xs. \<not> (?sz \<le> me_length x \<and> usable_entry x)"
    using find_split [of "\<lambda>e. ?sz \<le> me_length e \<and> usable_entry e" mm e]
    unfolding stack_home_def by auto
  have free: "count_free_pages mm 0 = of_nat (length (usable_pages mm))"
    using count_free_pages_eq [OF lo, of 0] by simp
  have lo': "laid_out 4096 (xs @ cut_entry ?sz e # ys)"
    using usable_pages_cut(1) [OF lo [unfolded mm] e(2,1)] stack_array_size_bounds(2) [OF lo] by (simp add: mm)
  obtain c where c: "4096 \<le> c" "laid_out c (e # ys)"
    using laid_out_append [OF lo [unfolded mm]] by blast
  have "managed e"
    using e(2) by (simp add: managed_def)
  note b = laid_out_entry [OF c(2) this]
  show ?thesis
  proof (rule that [OF mm e(2,1)])
    fix s1 assume s1: "s1 = s\<lparr>stack_pages := HIGHER_HALF s (me_base e),
         memmap := xs @ cut_entry ?sz e # ys,
         valid_page_cache := fill_cache (me_base e + ?sz) (of_nat (length (usable_pages mm)))
           [0..<CACHE_SIZE] 0 (valid_page_cache s)\<rparr>"
    have "HIGHER_HALF s (me_base e) \<noteq> 0"
    proof (rule HIGHER_HALF_nonzero [OF hh])
      show "me_base e \<noteq> 0" using b(4) c(1) by auto
      show "unat (me_base e) < 2 ^ 46" using b(3) room by simp
    qed
    then have push: "push_usable s1 (memmap s1) =
        Some (fold (\<lambda>p s. push_page s p) (usable_pages (memmap s1)) s1)"
      by (intro push_usable_eq [where b = 4096]) (simp_all add: s1 lo')
    have carve: "carve (s\<lparr>memmap := mm\<rparr>) (of_nat (length (usable_pages mm))) ?sz [] mm = s1"
      using carve_append [OF e xs, of "s\<lparr>memmap := mm\<rparr>" "of_nat (length (usable_pages mm))" "[]" ys]
      by (simp add: mm [symmetric] s1 cut_entry_def HIGHER_HALF_def)
    obtain k where "count_reusable (memmap s1) 0 = Some k"
      using count_reusable_ends [of 4096 "memmap s1" 0] lo' by (auto simp: s1)
    with push carve show "pmm_init s (Some mm) =
        (let s2 = fold (\<lambda>p s. push_page s p) (usable_pages (memmap s1)) s1 in
         Some (s2\<lparr>stack_max := stack_idx s2, reclaimed := False\<rparr>))"
      by (simp add: pmm_init_def free stack_array_size_def [symmetric] Let_def)
  qed
qed


lemma cut_frame_ok:
  assumes lo: "laid_out 4096 (xs @ e # ys)" and e: "usable_entry e" "sz \<le> me_length e" "page_aligned sz"
    and mm: "memmap s = xs @ cut_entry sz e # ys" and hh: "unat (hhdm_offset s) + 2 ^ 46 \<le> 2 ^ 64"
    and sub: "stack_region s \<subseteq> region (HIGHER_HALF s (me_base e)) (unat sz)"
    and p: "p \<in> set (usable_pages (memmap s))"
  shows "frame_ok s p"
proof -
  note cut = usable_pages_cut [OF lo e, folded mm]
  obtain c where c: "laid_out c (e # ys)"
    using laid_out_append [OF lo] by blast
  have "managed e" using e(1) by (simp add: managed_def)
  note le = laid_out_entry [OF c this]
  have b: "page_aligned p" "4096 \<le> unat p" "unat p + 4096 \<le> 2 ^ 46"
    using laid_out_pages [OF cut(1) p] by blast+
  have nz: "p \<noteq> 0" using b(2) by auto
  have "usable_page s p"
    using usable_page_of_pages [OF cut(1) p] .
  moreover have "HIGHER_HALF s p \<noteq> 0"
    by (rule HIGHER_HALF_nonzero) (use hh b nz in simp_all)
  moreover have "region (p + hhdm_offset s) 4096 \<inter> region (me_base e + hhdm_offset s) (unat sz) = {}"
    by (rule region_disjoint [OF cut(3) [OF p]]) (use b le(3) e(2) in \<open>simp_all add: word_le_nat_alt\<close>)
  ultimately show ?thesis
    using b nz sub by (auto simp: frame_ok_def page_frame_def HIGHER_HALF_def word_less_nat_alt)
qed

lemma cut_cache_sound:
  assumes lo: "laid_out 4096 (xs @ e # ys)" and e: "usable_entry e" "sz \<le> me_length e" "page_aligned sz"
    and room: "unat sz + 128 * 4096 \<le> unat (me_length e)"
    and mm: "memmap s = xs @ cut_entry sz e # ys"
    and cache: "valid_page_cache s = fill_cache (me_base e + sz) n [0..<CACHE_SIZE] 0 c"
    and old: "\<forall>k. \<not> is_valid (c k)"
  shows "cache_sound s"
proof -
  have lo': "laid_out 4096 (memmap s)"
    unfolding mm by (rule usable_pages_cut(1) [OF lo e])
  have "usable_page s (me_base e + sz + of_nat j * PAGE_SIZE)" if "j < 128" for j
  proof (rule usable_page_of_pages [OF lo'])
    have "j < unat (me_length (cut_entry sz e)) div 4096"
      using that room e(2) by (simp add: cut_entry_def unat_minus_no_wrap)
    then have "me_base e + sz + of_nat j * PAGE_SIZE \<in> set (entry_pages (cut_entry sz e))"
      by (auto simp: entry_pages_def cut_entry_def PAGE_SIZE_def mult.commute)
    then show "me_base e + sz + of_nat j * PAGE_SIZE \<in> set (usable_pages (memmap s))"
      using e(1) by (simp add: mm usable_pages_append usable_pages_Cons usable_entry_def cut_entry_def)
  qed
  then show ?thesis
    unfolding cache_sound_def cache
    using fill_cache_entries [of c "usable_page s" "[0..<CACHE_SIZE]" "me_base e + sz"] old
    by (simp add: CACHE_SIZE_def)
qed

lemma pmm_init_inv:
  assumes lo: "laid_out 4096 mm" and home: "stack_home mm = Some e"
    and room: "unat (stack_array_size mm) + 128 * 4096 \<le> unat (me_length e)"
    and hh: "unat (hhdm_offset s) + 2 ^ 46 \<le> 2 ^ 64" and fresh: "pmm_fresh s"
  obtains s' where "pmm_init s (Some mm) = Some s'" "pmm_inv s'" "stack_max s' = stack_idx s'"
    "stack_list s' = usable_pages (memmap s')"
    "\<And>p. p \<in> set (stack_list s') \<longleftrightarrow> p \<in> set (usable_pages mm) \<and>
       \<not> (unat (me_base e) \<le> unat p \<and> unat p < unat (me_base e) + unat (stack_array_size mm))"
    "stack_region s' \<subseteq> region (HIGHER_HALF s (me_base e)) (unat (stack_array_size mm))"
    "\<And>x. x \<notin> stack_region s' \<Longrightarrow> mem s' x = mem s x"
proof -
  let ?sz = "stack_array_size mm"
  have pos: "0 < unat (me_length e)" using room by simp
  from pmm_init_steps [OF lo home hh pos] obtain xs ys where mm: "mm = xs @ e # ys"
    and e: "usable_entry e" "?sz \<le> me_length e"
    and init: "\<And>s1. s1 = s\<lparr>stack_pages := HIGHER_HALF s (me_base e), memmap := xs @ cut_entry ?sz e # ys,
         valid_page_cache := fill_cache (me_base e + ?sz) (of_nat (length (usable_pages mm)))
           [0..<CACHE_SIZE] 0 (valid_page_cache s)\<rparr> \<Longrightarrow>
      pmm_init s (Some mm) = (let s2 = fold (\<lambda>p s. push_page s p) (usable_pages (memmap s1)) s1 in
         Some (s2\<lparr>stack_max := stack_idx s2, reclaimed := False\<rparr>))"
    by blast
  define cache where "cache = fill_cache (me_base e + ?sz) (of_nat (length (usable_pages mm)))
           [0..<CACHE_SIZE] 0 (valid_page_cache s)"
  define mm' where "mm' = xs @ cut_entry ?sz e # ys"
  define s1 where "s1 = s\<lparr>stack_pages := HIGHER_HALF s (me_base e), memmap := mm', valid_page_cache := cache\<rparr>"
  define s2 where "s2 = fold (\<lambda>p s. push_page s p) (usable_pages mm') s1"
  define s' where "s' = s2\<lparr>stack_max := stack_idx s2, reclaimed := False\<rparr>"
  note bnd = stack_array_size_bounds [OF lo]
  note cut = usable_pages_cut [OF lo [unfolded mm] e bnd(2), folded mm mm'_def]
  have len: "4096 + 4096 * length (usable_pages mm') \<le> 2 ^ 46"
    using laid_out_length [OF cut(1)] .
  have idx1: "unat (stack_idx s1) = 0" and l1: "stack_list s1 = []"
    using fresh by (simp_all add: s1_def pmm_fresh_def stack_list_def)
  have lim: "unat (stack_idx s1) + length (usable_pages mm') \<le> 2 ^ 60"
    using len idx1 by simp
  note fp = fold_push_page [OF lim, folded s2_def]
  obtain m i where s2: "s2 = s1\<lparr>mem := m, stack_idx := i\<rparr>"
    using fp(3) by blast
  have res: "pmm_init s (Some mm) = Some s'"
    using init [OF refl] by (simp add: s'_def s2_def s1_def cache_def mm'_def Let_def)
  have l: "stack_list s' = usable_pages mm'" and max: "unat (stack_max s') = length (usable_pages mm')"
    using fp(1,2) l1 idx1 by (simp_all add: s'_def stack_list_def stack_slot_def)
  have f: "memmap s' = mm'" "stack_pages s' = HIGHER_HALF s (me_base e)" "hhdm_offset s' = hhdm_offset s"
    "valid_page_cache s' = cache" "reclaimed s' = False" "stack_max s' = stack_idx s'"
    by (simp_all add: s'_def s2 s1_def)
  have region: "stack_region s' = region (HIGHER_HALF s (me_base e)) (8 * length (usable_pages mm'))"
    by (simp add: stack_region_def f(2) max)
  have fits: "8 * length (usable_pages mm') \<le> unat ?sz"
    using cut(4) bnd(1) by linarith
  have sub: "stack_region s' \<subseteq> region (HIGHER_HALF s (me_base e)) (unat ?sz)"
    unfolding region by (rule region_mono [OF fits])
  have frame: "mem s' x = mem s x" if "x \<notin> stack_region s'" for x
  proof -
    have "mem s' = mem s2" by (simp add: s'_def)
    with that fp(4) [of x] idx1 show ?thesis unfolding region by (simp add: s1_def)
  qed
  have ok: "\<forall>p \<in> set (usable_pages mm'). frame_ok s' p"
    using cut_frame_ok [OF lo [unfolded mm] e bnd(2), of s'] hh sub f by (simp add: mm'_def HIGHER_HALF_def)
  have "cache_sound s'"
    using cut_cache_sound [OF lo [unfolded mm] e bnd(2) room, of s'] f fresh
    by (simp add: mm'_def cache_def pmm_fresh_def)
  then have "pmm_inv s'"
    using ok len laid_out_distinct [OF cut(1)]
    by (simp add: pmm_inv_def l max) (simp add: f(6))
  with res l f cut(2) sub frame show ?thesis
    by (intro that [of s']) simp_all
qed


section \<open>The page allocator as an interface\<close>

text \<open>
  What the users of the allocator rely on: requests hand out the pages of a free list from its end,
  releases put a page back there, and neither touches the pages that are not on the list.
\<close>

fun requests :: "('s \<Rightarrow> u64 \<times> 's) \<Rightarrow> nat \<Rightarrow> 's \<Rightarrow> u64 list \<times> 's" where
  "requests request 0 s = ([], s)"
| "requests request (Suc n) s =
     (let (p, s1) = request s; (ps, s2) = requests request n s1 in (p # ps, s2))"

locale page_provider =
  fixes request :: "'s \<Rightarrow> u64 \<times> 's" and release :: "'s \<Rightarrow> u64 \<Rightarrow> 's"
    and free :: "'s \<Rightarrow> u64 list" and inv :: "'s \<Rightarrow> bool"
    and ok :: "'s \<Rightarrow> u64 \<Rightarrow> bool" and capacity :: "'s \<Rightarrow> nat"
  assumes request_none: "inv s \<Longrightarrow> free s = [] \<Longrightarrow> request s = (NULL, s)"
    and request_last: "inv s \<Longrightarrow> free s = ps @ [p] \<Longrightarrow>
      fst (request s) = p \<and> inv (snd (request s)) \<and> free (snd (request s)) = ps \<and>
      ok (snd (request s)) = ok s \<and> capacity (snd (request s)) = capacity s"
    and release_last: "inv s \<Longrightarrow> ok s p \<Longrightarrow> p \<notin> set (free s) \<Longrightarrow> length (free s) < capacity s \<Longrightarrow>
      inv (release s p) \<and> free (release s p) = free s @ [p] \<and>
      ok (release s p) = ok s \<and> capacity (release s p) = capacity s"
    and free_ok: "inv s \<Longrightarrow> distinct (free s) \<and> (\<forall>p \<in> set (free s). ok s p \<and> p \<noteq> NULL)"
    and free_capacity: "inv s \<Longrightarrow> length (free s) \<le> capacity s"
begin

lemma requests_pages:
  assumes "inv s" and "free s = ps @ qs"
  shows "fst (requests request (length qs) s) = rev qs \<and> inv (snd (requests request (length qs) s)) \<and>
    free (snd (requests request (length qs) s)) = ps \<and> ok (snd (requests request (length qs) s)) = ok s \<and>
    capacity (snd (requests request (length qs) s)) = capacity s"
  using assms
proof (induction qs arbitrary: s rule: rev_induct)
  case (snoc q qs)
  then have "fst (request s) = q" "inv (snd (request s))" "free (snd (request s)) = ps @ qs"
    "ok (snd (request s)) = ok s" "capacity (snd (request s)) = capacity s"
    using request_last [of s "ps @ qs" q] by simp_all
  with snoc.IH [of "snd (request s)"] show ?case
    by (simp add: case_prod_beta Let_def)
qed simp

lemma releases_pages:
  assumes "inv s" and "\<forall>q \<in> set qs. ok s q" and "distinct (free s @ qs)"
    and "length (free s) + length qs \<le> capacity s"
  shows "inv (fold (\<lambda>p s. release s p) qs s) \<and> free (fold (\<lambda>p s. release s p) qs s) = free s @ qs"
  using assms
proof (induction qs arbitrary: s)
  case (Cons q qs)
  then have "inv (release s q)" "free (release s q) = free s @ [q]"
    "ok (release s q) = ok s" "capacity (release s q) = capacity s"
    using release_last [of s q] by simp_all
  with Cons.prems Cons.IH [of "release s q"] show ?case by simp
qed simp

lemma requests_distinct:
  assumes "inv s" and "n \<le> length (free s)"
  shows "distinct (fst (requests request n s)) \<and> length (fst (requests request n s)) = n \<and>
    NULL \<notin> set (fst (requests request n s)) \<and> set (fst (requests request n s)) \<inter> set (free (snd (requests request n s))) = {}"
proof -
  define ps qs where "ps = take (length (free s) - n) (free s)" and "qs = drop (length (free s) - n) (free s)"
  have l: "free s = ps @ qs" "length qs = n"
    using assms(2) by (simp_all add: ps_def qs_def)
  from requests_pages [OF assms(1) l(1)] l(2) free_ok [OF assms(1)] l(1) show ?thesis
    by auto
qed

lemma requests_then_releases:
  assumes "inv s" and "n \<le> length (free s)" and "requests request n s = (qs, s')"
  shows "inv (fold (\<lambda>p s. release s p) (rev qs) s') \<and> free (fold (\<lambda>p s. release s p) (rev qs) s') = free s"
proof -
  define ps where "ps = take (length (free s) - n) (free s)"
  have l: "free s = ps @ drop (length (free s) - n) (free s)"
    by (simp add: ps_def)
  note r = requests_pages [OF assms(1) l]
  have "qs = rev (drop (length (free s) - n) (free s))" "inv s'" "free s' = ps" "ok s' = ok s"
      "capacity s' = capacity s"
    using r assms(2,3) by simp_all
  moreover define zs where "zs = drop (length (free s) - n) (free s)"
  ultimately have z: "rev qs = zs" "free s = ps @ zs" "inv s'" "free s' = ps" "ok s' = ok s"
      "capacity s' = capacity s"
    using l by simp_all
  have "\<forall>q \<in> set zs. ok s' q" "distinct (free s' @ zs)" "length (free s') + length zs \<le> capacity s'"
    using free_ok [OF assms(1)] free_capacity [OF assms(1)] z by simp_all
  from releases_pages [OF z(3) this] show ?thesis
    by (simp only: z)
qed

end

interpretation pp: page_provider pmm_request_page pmm_release_page stack_list pmm_inv frame_ok
  "\<lambda>s. unat (stack_max s)"
proof
  show "pmm_request_page s = (NULL, s)" if "pmm_inv s" "stack_list s = []" for s
    using that by (simp add: request_empty)
next
  fix s ps p assume "pmm_inv s" "stack_list s = ps @ [p]"
  then obtain s' where "pmm_request_page s = (p, s')" "pmm_inv s'" "stack_list s' = ps" "same_setup s s'"
    by (rule request_top)
  then show "fst (pmm_request_page s) = p \<and> pmm_inv (snd (pmm_request_page s)) \<and>
      stack_list (snd (pmm_request_page s)) = ps \<and> frame_ok (snd (pmm_request_page s)) = frame_ok s \<and>
      unat (stack_max (snd (pmm_request_page s))) = unat (stack_max s)"
    using same_setup_simps(5) [of s s'] by (simp add: same_setup_def)
next
  fix s p assume "pmm_inv s" "frame_ok s p" "p \<notin> set (stack_list s)"
    "length (stack_list s) < unat (stack_max s)"
  then show "pmm_inv (pmm_release_page s p) \<and> stack_list (pmm_release_page s p) = stack_list s @ [p] \<and>
      frame_ok (pmm_release_page s p) = frame_ok s \<and>
      unat (stack_max (pmm_release_page s p)) = unat (stack_max s)"
    using release_push [of s p] same_setup_simps(5) [of s "pmm_release_page s p"]
    by (simp add: word_less_nat_alt same_setup_def)
next
  show "distinct (stack_list s) \<and> (\<forall>p \<in> set (stack_list s). frame_ok s p \<and> p \<noteq> NULL)" if "pmm_inv s" for s
    using that by (auto simp: pmm_inv_def frame_ok_def)
  show "length (stack_list s) \<le> unat (stack_max s)" if "pmm_inv s" for s
    using that by (simp add: pmm_inv_def word_le_nat_alt)
qed


section \<open>Properties\<close>

text \<open>A small state to instantiate the properties with: one free page at \<open>0x2000\<close>.\<close>

definition no_page :: page_cache_entry where
  "no_page = \<lparr>page_addr = 0, is_valid = False, access_count = 0\<rparr>"

definition one_page_pmm :: pmm where
  "one_page_pmm = \<lparr>mem = store64 (\<lambda>_. 0) 0xffff800000100000 0x2000, hhdm_offset = 0xffff800000000000,
     stack_pages = 0xffff800000100000, stack_idx = 1, stack_max = 2,
     memmap = [\<lparr>me_base = 0x1000, me_length = 0x3000, me_type = LIMINE_MEMMAP_USABLE\<rparr>],
     valid_page_cache = \<lambda>_. no_page, cache_head = 0, secondary_cache = \<lambda>_. no_page, reclaimed = False\<rparr>"

lemma one_page_list: "stack_list one_page_pmm = [0x2000]"
  by (simp add: stack_list_def stack_slot_def one_page_pmm_def)

lemma one_page_frame_ok:
  assumes "p = 0x2000 \<or> p = 0x3000"
  shows "frame_ok one_page_pmm p"
proof -
  have "region (p + 0xffff800000000000) 4096 \<inter> region (0x100000 + 0xffff800000000000) 16 = {}"
    by (rule region_disjoint) (use assms in auto)
  with assms show ?thesis
    by (auto simp: frame_ok_def page_frame_def stack_region_def one_page_pmm_def HIGHER_HALF_def
        page_aligned_def PAGE_SIZE_def usable_page_def entry_covers_def)
qed

lemma one_page_inv: "pmm_inv one_page_pmm"
proof -
  have "stack_idx one_page_pmm \<le> stack_max one_page_pmm" "unat (stack_max one_page_pmm) \<le> 2 ^ 60"
    "cache_sound one_page_pmm"
    by (simp_all add: cache_sound_def one_page_pmm_def no_page_def)
  then show ?thesis
    using one_page_frame_ok [of "0x2000"] by (simp add: pmm_inv_def one_page_list)
qed

text \<open>
  C18: Requesting a page from a state that satisfies the allocator's invariant returns \<open>NULL\<close> and
  changes nothing when the free list is empty. Otherwise it returns the last page of the free list,
  removes exactly that page from the list, fills the page with zero bytes, leaves every other byte
  of memory alone and keeps the invariant.
\<close>

theorem pmm_request_page_correct:
  assumes "pmm_inv s" and "pmm_request_page s = (p, s')"
  shows "if stack_list s = [] then p = NULL \<and> s' = s
    else p = last (stack_list s) \<and> p \<noteq> NULL \<and> stack_list s' = butlast (stack_list s) \<and> pmm_inv s' \<and>
      (\<forall>x. mem s' x = (if x \<in> page_frame s p then 0 else mem s x))"
proof (cases "stack_list s" rule: rev_exhaust)
  case Nil
  with assms show ?thesis by (simp add: request_empty)
next
  case (snoc ps q)
  from request_top [OF assms(1) snoc] assms(2) have "p = q" "pmm_inv s'" "stack_list s' = ps"
    "mem s' = block_fill (mem s) (HIGHER_HALF s q) 0 4096" by auto
  moreover have "q \<noteq> NULL"
    using assms(1) snoc by (auto simp: pmm_inv_def frame_ok_def)
  ultimately show ?thesis
    using snoc by (simp add: block_fill_def page_frame_def region_def)
qed

theorem pmm_request_page_correct_witness:
  "\<exists>s'. pmm_request_page one_page_pmm = (0x2000, s') \<and> stack_list s' = [] \<and>
     mem s' 0xffff800000002000 = 0"
proof -
  obtain p s' where r: "pmm_request_page one_page_pmm = (p, s')" by force
  have "p = 0x2000" "stack_list s' = []" "mem s' 0xffff800000002000 = 0"
    using pmm_request_page_correct [OF one_page_inv r]
    by (simp_all add: one_page_list page_frame_def region_def HIGHER_HALF_def)
      (simp add: one_page_pmm_def)
  with r show ?thesis by simp
qed




text \<open>
  C29: The cached validity test decides exactly whether the memory map covers the page, as long as
  the cache only holds pages that the map covers; and it keeps the cache that way and touches
  neither memory nor the stack.
\<close>

theorem is_page_valid_correct:
  assumes "cache_sound s" and "is_page_valid s p = (ok, s')"
  shows "(ok \<longleftrightarrow> usable_page s p) \<and> cache_sound s' \<and> stack_list s' = stack_list s \<and> mem s' = mem s"
proof -
  have s': "s' = snd (is_page_valid s p)" "ok = fst (is_page_valid s p)"
    using assms(2) by simp_all
  have "stack_list s' = stack_list s"
    using is_page_valid_state [of s p] unfolding s' [symmetric]
    by (simp add: stack_list_def stack_slot_def same_setup_def)
  then show ?thesis
    using assms(1) by (simp add: s' is_page_valid_iff is_page_valid_sound)
qed

theorem is_page_valid_correct_witness:
  "fst (is_page_valid one_page_pmm 0x3000) \<and> \<not> fst (is_page_valid one_page_pmm 0x4000)"
proof -
  have "cache_sound one_page_pmm"
    using one_page_inv by (simp add: pmm_inv_def)
  from is_page_valid_correct [OF this surjective_pairing] show ?thesis
    by (simp add: usable_page_def entry_covers_def one_page_pmm_def)
qed



text \<open>
  C3: Initialisation on a memory map as the boot protocol promises it, with an entry that has room
  for the stack's array and for 128 further pages, returns; the stack's array lies inside that entry
  and nothing outside the array is written; the free list holds exactly the usable pages that the
  array does not occupy; the stack is full; and the allocator's invariant holds.
\<close>

theorem pmm_init_correct:
  assumes "laid_out 4096 mm" and "stack_home mm = Some e"
    and "unat (stack_array_size mm) + 128 * 4096 \<le> unat (me_length e)"
    and "unat (hhdm_offset s) + 2 ^ 46 \<le> 2 ^ 64" and "pmm_fresh s"
  shows "\<exists>s'. pmm_init s (Some mm) = Some s' \<and> pmm_inv s' \<and> stack_max s' = stack_idx s' \<and>
    set (stack_list s') = {p \<in> set (usable_pages mm).
       \<not> (unat (me_base e) \<le> unat p \<and> unat p < unat (me_base e) + unat (stack_array_size mm))} \<and>
    stack_region s' \<subseteq> region (HIGHER_HALF s (me_base e)) (unat (stack_array_size mm)) \<and>
    (\<forall>x. x \<notin> stack_region s' \<longrightarrow> mem s' x = mem s x)"
proof -
  obtain s' where s': "pmm_init s (Some mm) = Some s'" "pmm_inv s'" "stack_max s' = stack_idx s'"
    "\<And>p. p \<in> set (stack_list s') \<longleftrightarrow> p \<in> set (usable_pages mm) \<and>
       \<not> (unat (me_base e) \<le> unat p \<and> unat p < unat (me_base e) + unat (stack_array_size mm))"
    "stack_region s' \<subseteq> region (HIGHER_HALF s (me_base e)) (unat (stack_array_size mm))"
    "\<And>x. x \<notin> stack_region s' \<Longrightarrow> mem s' x = mem s x"
    using pmm_init_inv [OF assms] by metis
  then show ?thesis by (intro exI [of _ s']) auto
qed

definition boot_map :: "memmap_entry list" where
  "boot_map =
     [\<lparr>me_base = 0x1000, me_length = 0x8000, me_type = LIMINE_MEMMAP_BOOTLOADER_RECLAIMABLE\<rparr>,
      \<lparr>me_base = 0x10000, me_length = 0x90000, me_type = LIMINE_MEMMAP_USABLE\<rparr>]"

lemma boot_map_laid_out: "laid_out 4096 boot_map"
  by (simp add: boot_map_def managed_def usable_entry_def page_aligned_def PAGE_SIZE_def)

lemma boot_map_home:
  "stack_array_size boot_map = 0x1000" "stack_home boot_map = Some (boot_map ! 1)"
proof -
  have "length (usable_pages boot_map) = 144"
    by (simp add: boot_map_def usable_pages_def usable_entry_def entry_pages_def)
  then show s: "stack_array_size boot_map = 0x1000"
    by (simp add: stack_array_size_def ALIGN_UP_def DIV_ROUND_UP_def PAGE_SIZE_def)
  show "stack_home boot_map = Some (boot_map ! 1)"
    unfolding stack_home_def s by (simp add: boot_map_def usable_entry_def)
qed

theorem pmm_init_correct_witness:
  "\<exists>s'. pmm_init (one_page_pmm\<lparr>stack_idx := 0\<rparr>) (Some boot_map) = Some s' \<and> pmm_inv s' \<and>
     set (stack_list s') = {p \<in> set (usable_pages boot_map). \<not> (0x10000 \<le> unat p \<and> unat p < 0x11000)}"
proof -
  have "unat (stack_array_size boot_map) + 128 * 4096 \<le> unat (me_length (boot_map ! 1))"
    by (simp add: boot_map_home) (simp add: boot_map_def)
  moreover have "unat (hhdm_offset (one_page_pmm\<lparr>stack_idx := 0\<rparr>)) + 2 ^ 46 \<le> 2 ^ 64"
    "pmm_fresh (one_page_pmm\<lparr>stack_idx := 0\<rparr>)"
    by (simp_all add: one_page_pmm_def pmm_fresh_def no_page_def)
  ultimately obtain s' where "pmm_init (one_page_pmm\<lparr>stack_idx := 0\<rparr>) (Some boot_map) = Some s'" "pmm_inv s'"
    "set (stack_list s') = {p \<in> set (usable_pages boot_map). \<not> (unat (me_base (boot_map ! 1)) \<le> unat p \<and>
       unat p < unat (me_base (boot_map ! 1)) + unat (stack_array_size boot_map))}"
    using pmm_init_correct [OF boot_map_laid_out boot_map_home(2)] by blast
  then show ?thesis
    by (intro exI [of _ s']) (simp add: boot_map_home, simp add: boot_map_def)
qed

end
