(* ===== verification/Vmm.thy ===== *)
theory Vmm
  imports Pmm "HOL-Library.Sublist"
begin

text \<open>
  Paging, \<open>kernel/src/mm/vmm.c\<close> and \<open>vmm.h\<close>: four-level page tables that live in pages of the
  physical allocator and are read and written through the direct map. \<open>vmm_map\<close>, \<open>vmm_unmap\<close>
  and \<open>virt_to_phys\<close> work on the allocator's state, which holds the kernel memory; the record
  \<open>vmm\<close> adds the global \<open>kernel_pagemap\<close> and the register \<open>cr3\<close>. There is no translation
  cache in the model: the \<open>invlpg\<close> of \<open>vmm_unmap\<close> has no counterpart.
\<close>

section \<open>Definitions\<close>

definition VMM_PRESENT :: u64 where "VMM_PRESENT = 1"
definition VMM_WRITE :: u64 where "VMM_WRITE = 2"
definition VMM_USER :: u64 where "VMM_USER = 4"
definition VMM_NX :: u64 where "VMM_NX = 0x8000000000000000"

text \<open>The mask \<open>0x000FFFFFFFFFF000\<close> that the code spells out at every level.\<close>

definition ADDR_MASK :: u64 where
  "ADDR_MASK = 0x000FFFFFFFFFF000"

definition pml1_idx :: "u64 \<Rightarrow> u64" where
  "pml1_idx virt = drop_bit 12 (virt AND push_bit 12 0x1ff)"

definition pml2_idx :: "u64 \<Rightarrow> u64" where
  "pml2_idx virt = drop_bit 21 (virt AND push_bit 21 0x1ff)"

definition pml3_idx :: "u64 \<Rightarrow> u64" where
  "pml3_idx virt = drop_bit 30 (virt AND push_bit 30 0x1ff)"

definition pml4_idx :: "u64 \<Rightarrow> u64" where
  "pml4_idx virt = drop_bit 39 (virt AND push_bit 39 0x1ff)"

text \<open>\<open>table[i]\<close> for a table pointer, and the table that an entry points to.\<close>

definition entry_get :: "pmm \<Rightarrow> u64 \<Rightarrow> u64 \<Rightarrow> u64" where
  "entry_get s t i = load64 (mem s) (t + 8 * i)"

definition entry_set :: "pmm \<Rightarrow> u64 \<Rightarrow> u64 \<Rightarrow> u64 \<Rightarrow> pmm" where
  "entry_set s t i e = s\<lparr>mem := store64 (mem s) (t + 8 * i) e\<rparr>"

definition entry_table :: "pmm \<Rightarrow> u64 \<Rightarrow> u64" where
  "entry_table s e = HIGHER_HALF s (e AND ADDR_MASK)"

definition virt_to_phys :: "pmm \<Rightarrow> u64 \<Rightarrow> u64 \<Rightarrow> u64" where
  "virt_to_phys s pagemap virt =
     (let e4 = entry_get s pagemap (pml4_idx virt) in
      if e4 AND 1 = 0 then 0
      else let pml3 = entry_table s e4; e3 = entry_get s pml3 (pml3_idx virt) in
      if e3 AND 1 = 0 then 0
      else let pml2 = entry_table s e3; e2 = entry_get s pml2 (pml2_idx virt) in
      if e2 AND 1 = 0 then 0
      else let pml1 = entry_table s e2 in entry_get s pml1 (pml1_idx virt) AND ADDR_MASK)"

text \<open>
  The step that \<open>vmm_map\<close> repeats at three levels: if the entry is not present, install a fresh
  page there; then go to the table the entry points to.
\<close>

definition next_table :: "pmm \<Rightarrow> u64 \<Rightarrow> u64 \<Rightarrow> u64 \<times> pmm" where
  "next_table s t i =
     (let s' = (if entry_get s t i AND 1 = 0
                then let (p, s1) = pmm_request_page s in entry_set s1 t i (p OR 7)
                else s)
      in (entry_table s' (entry_get s' t i), s'))"

definition vmm_map :: "pmm \<Rightarrow> u64 \<Rightarrow> u64 \<Rightarrow> u64 \<Rightarrow> u64 \<Rightarrow> pmm" where
  "vmm_map s pagemap virt phys flags =
     (let (pml3, s1) = next_table s pagemap (pml4_idx virt);
          (pml2, s2) = next_table s1 pml3 (pml3_idx virt);
          (pml1, s3) = next_table s2 pml2 (pml2_idx virt)
      in entry_set s3 pml1 (pml1_idx virt) (phys OR flags))"

definition vmm_unmap :: "pmm \<Rightarrow> u64 \<Rightarrow> u64 \<Rightarrow> pmm" where
  "vmm_unmap s pagemap virt =
     (let e4 = entry_get s pagemap (pml4_idx virt) in
      if e4 AND 1 = 0 then entry_set s pagemap (pml4_idx virt) 0
      else let pml3 = entry_table s e4; e3 = entry_get s pml3 (pml3_idx virt) in
      if e3 AND 1 = 0 then entry_set s pml3 (pml3_idx virt) 0
      else let pml2 = entry_table s e3; e2 = entry_get s pml2 (pml2_idx virt) in
      if e2 AND 1 = 0 then entry_set s pml2 (pml2_idx virt) 0
      else let pml1 = entry_table s e2 in entry_set s pml1 (pml1_idx virt) 0)"

record vmm =
  frames :: pmm
  kernel_pagemap :: u64
  cr3 :: u64

definition vmm_new_pagemap :: "vmm \<Rightarrow> u64 \<times> vmm" where
  "vmm_new_pagemap v =
     (let (p, s) = pmm_request_page (frames v); pagemap = HIGHER_HALF s p in
      if pagemap = NULL then (NULL, v\<lparr>frames := s\<rparr>)
      else
        let m1 = memset (mem s) pagemap 0 PAGE_SIZE;
            m2 = (if kernel_pagemap v \<noteq> NULL
                  then memcpy m1 (pagemap + 8 * 256) (kernel_pagemap v + 8 * 256) (256 * 8)
                  else m1)
        in (pagemap, v\<lparr>frames := s\<lparr>mem := m2\<rparr>\<rparr>))"

definition vmm_destroy_pagemap :: "vmm \<Rightarrow> u64 \<Rightarrow> vmm" where
  "vmm_destroy_pagemap v pagemap =
     v\<lparr>frames := pmm_release_page (frames v) (PHYSICAL (frames v) pagemap)\<rparr>"

definition vmm_switch_pagemap :: "vmm \<Rightarrow> u64 \<Rightarrow> vmm" where
  "vmm_switch_pagemap v new_pagemap = v\<lparr>cr3 := PHYSICAL (frames v) new_pagemap\<rparr>"

text \<open>
  The loop that \<open>vmm_init\<close> runs for every region: for \<open>j\<close> up to \<open>limit\<close> in steps of a page,
  map the page \<open>virt j\<close> to \<open>phys j\<close>. It does not end if \<open>j\<close> wraps around first.
\<close>

partial_function (option) map_range ::
    "(u64 \<Rightarrow> u64) \<Rightarrow> (u64 \<Rightarrow> u64) \<Rightarrow> u64 \<Rightarrow> u64 \<Rightarrow> u64 \<Rightarrow> u64 \<Rightarrow> pmm \<Rightarrow> pmm option" where
  "map_range virt phys pagemap flags j limit s =
     (if j < limit
      then map_range virt phys pagemap flags (j + PAGE_SIZE) limit (vmm_map s pagemap (virt j) (phys j) flags)
      else Some s)"

text \<open>The symbols that the linker script and the boot code provide.\<close>

record kernel_image =
  limine_requests_start :: u64
  limine_requests_end :: u64
  text_start :: u64
  text_end :: u64
  rodata_start :: u64
  rodata_end :: u64
  data_start :: u64
  data_end :: u64
  printk_buff_start :: u64
  printk_buff_end :: u64
  kernel_phys_base :: u64
  kernel_virt_base :: u64
  kernel_stack_top :: u64

definition map_section :: "kernel_image \<Rightarrow> u64 \<Rightarrow> u64 \<Rightarrow> u64 \<Rightarrow> u64 \<Rightarrow> pmm \<Rightarrow> pmm option" where
  "map_section k pagemap start stop flags =
     map_range (\<lambda>j. j) (\<lambda>j. j - kernel_virt_base k + kernel_phys_base k) pagemap flags
       (ALIGN_DOWN start PAGE_SIZE) (ALIGN_UP stop PAGE_SIZE)"

text \<open>
  \<open>vmm_init\<close> also stores the rounded top of the stack back into \<open>kernel_stack_top\<close>, which only
  \<open>tss_init\<close> reads later; the model keeps it in the local \<open>top\<close>.
\<close>

definition vmm_init :: "kernel_image \<Rightarrow> vmm \<Rightarrow> vmm option" where
  "vmm_init k v =
     (let (p, s) = pmm_request_page (frames v); pagemap = HIGHER_HALF s p in
      if pagemap = NULL then None
      else
        let s0 = s\<lparr>mem := memset (mem s) pagemap 0 PAGE_SIZE\<rparr>;
            top = ALIGN_UP (kernel_stack_top k) PAGE_SIZE
        in do {
          s1 \<leftarrow> map_section k pagemap (limine_requests_start k) (limine_requests_end k)
                  (VMM_PRESENT OR VMM_WRITE) s0;
          s2 \<leftarrow> map_range (\<lambda>j. j) (\<lambda>j. j - hhdm_offset s1) pagemap
                  (VMM_PRESENT OR VMM_WRITE OR VMM_NX) (top - 65535) top s1;
          s3 \<leftarrow> map_section k pagemap (text_start k) (text_end k) VMM_PRESENT s2;
          s4 \<leftarrow> map_section k pagemap (rodata_start k) (rodata_end k) (VMM_PRESENT OR VMM_NX) s3;
          s5 \<leftarrow> map_section k pagemap (data_start k) (data_end k)
                  (VMM_PRESENT OR VMM_WRITE OR VMM_NX) s4;
          s6 \<leftarrow> map_section k pagemap (printk_buff_start k) (printk_buff_end k)
                  (VMM_PRESENT OR VMM_WRITE) s5;
          s7 \<leftarrow> map_range (HIGHER_HALF s6) (\<lambda>j. j) pagemap (VMM_PRESENT OR VMM_WRITE) 0 0x100000000 s6;
          Some (vmm_switch_pagemap (v\<lparr>frames := s7, kernel_pagemap := pagemap\<rparr>) pagemap)
        })"


section \<open>The page-table tree\<close>

text \<open>
  \<open>table_at s root is\<close> is the physical page of the table that the path \<open>is\<close> of indices leads to
  from the page \<open>root\<close>; \<open>leaf s root virt\<close> is the entry of the last level for an address, 0 if a
  table on the way is missing.
\<close>

definition table_step :: "pmm \<Rightarrow> u64 \<Rightarrow> u64 option \<Rightarrow> u64 option" where
  "table_step s i r = do { p \<leftarrow> r; let e = entry_get s (HIGHER_HALF s p) i;
     if e AND 1 = 0 then None else Some (e AND ADDR_MASK) }"

definition table_at :: "pmm \<Rightarrow> u64 \<Rightarrow> u64 list \<Rightarrow> u64 option" where
  "table_at s root is = fold (table_step s) is (Some root)"

definition leaf :: "pmm \<Rightarrow> u64 \<Rightarrow> u64 \<Rightarrow> u64" where
  "leaf s root virt =
     (case table_at s root [pml4_idx virt, pml3_idx virt, pml2_idx virt] of
        None \<Rightarrow> 0
      | Some p \<Rightarrow> entry_get s (HIGHER_HALF s p) (pml1_idx virt))"

text \<open>Two addresses in the same page, as far as the four indices tell.\<close>

definition same_page :: "u64 \<Rightarrow> u64 \<Rightarrow> bool" where
  "same_page v w \<longleftrightarrow> pml4_idx v = pml4_idx w \<and> pml3_idx v = pml3_idx w \<and>
     pml2_idx v = pml2_idx w \<and> pml1_idx v = pml1_idx w"

definition path :: "u64 list \<Rightarrow> bool" where
  "path is \<longleftrightarrow> length is \<le> 3 \<and> (\<forall>i \<in> set is. i < 512)"

text \<open>
  The invariant of an address space: the allocator's invariant holds, no table is reached by two
  paths, and no table is a free page or overlaps the allocator's stack.
\<close>

definition vm_inv :: "pmm \<Rightarrow> u64 \<Rightarrow> bool" where
  "vm_inv s root \<longleftrightarrow> pmm_inv s \<and> page_aligned root \<and>
     (\<forall>is js p. path is \<and> path js \<and> table_at s root is = Some p \<and> table_at s root js = Some p \<longrightarrow> is = js) \<and>
     (\<forall>is p. path is \<and> table_at s root is = Some p \<longrightarrow>
        p \<notin> set (stack_list s) \<and> page_frame s p \<inter> stack_region s = {})"

lemma table_at_Nil [simp]: "table_at s root [] = Some root"
  by (simp add: table_at_def)

lemma table_at_snoc: "table_at s root (is @ [i]) = table_step s i (table_at s root is)"
  by (simp add: table_at_def)

lemma path_snoc: "path (is @ [i]) \<longleftrightarrow> length is < 3 \<and> i < 512 \<and> path is"
  by (auto simp: path_def)

lemma idx_less:
  "pml1_idx v < 512" "pml2_idx v < 512" "pml3_idx v < 512" "pml4_idx v < 512"
proof -
  have "w AND 0x1ff < (512 :: u64)" for w
  proof -
    have "w AND 0x1ff \<le> 0x1ff" by (rule word_and_le1)
    then show ?thesis by (rule le_less_trans) simp
  qed
  then show "pml1_idx v < 512" "pml2_idx v < 512" "pml3_idx v < 512" "pml4_idx v < 512"
    by (simp_all add: pml1_idx_def pml2_idx_def pml3_idx_def pml4_idx_def)
qed

lemma ADDR_MASK_bit: "bit ADDR_MASK n \<longleftrightarrow> 12 \<le> n \<and> n < 52"
proof -
  have m: "ADDR_MASK = push_bit 12 (mask 40)"
    by (simp add: ADDR_MASK_def mask_eq_exp_minus_1 push_bit_eq_mult)
  show ?thesis
    unfolding m by (auto simp: bit_simps)
qed

lemma page_aligned_bit: "page_aligned p \<Longrightarrow> n < 12 \<Longrightarrow> \<not> bit p n"
proof -
  assume "page_aligned p" "n < 12"
  then have "take_bit 12 p = 0"
    by (simp add: page_aligned_def PAGE_SIZE_def take_bit_eq_mod)
  then have "\<not> bit (take_bit 12 p) n" by simp
  with \<open>n < 12\<close> show ?thesis by (simp add: bit_take_bit_iff)
qed

lemma masked_aligned: "page_aligned (e AND ADDR_MASK)"
proof -
  have "take_bit 12 (e AND ADDR_MASK) = 0"
    by (rule bit_word_eqI) (simp add: bit_take_bit_iff bit_and_iff ADDR_MASK_bit)
  then show ?thesis by (simp add: page_aligned_def PAGE_SIZE_def take_bit_eq_mod)
qed

lemma masked_id:
  assumes "page_aligned p" and "p < 2 ^ 52"
  shows "p AND ADDR_MASK = p"
proof (rule bit_word_eqI)
  fix n :: nat assume "n < LENGTH(64)"
  have "take_bit 52 p = p"
    using assms(2) by (simp add: take_bit_eq_mod mod_word_less)
  then have "\<not> bit p n" if "52 \<le> n"
    using that by (metis bit_take_bit_iff not_le)
  then show "bit (p AND ADDR_MASK) n \<longleftrightarrow> bit p n"
    using page_aligned_bit [OF assms(1)] by (metis bit_and_iff ADDR_MASK_bit not_le)
qed

lemma fresh_entry:
  assumes "page_aligned p" and "p < 2 ^ 52"
  shows "(p OR 7) AND ADDR_MASK = p" "(p OR 7) AND 1 \<noteq> 0"
proof -
  have "(p OR 7) AND ADDR_MASK = (p AND ADDR_MASK) OR (7 AND ADDR_MASK)"
    by (rule bit.conj_disj_distrib2)
  then show "(p OR 7) AND ADDR_MASK = p"
    using masked_id [OF assms] by (simp add: ADDR_MASK_def)
  have "(p OR 7) AND 1 = (1 :: u64)"
    by (rule bit_word_eqI) (auto simp: bit_simps bit_1_iff)
  then show "(p OR 7) AND 1 \<noteq> 0" by simp
qed


section \<open>Reads and writes of table entries\<close>

lemma slot_region:
  assumes "i < 512"
  shows "region (t + 8 * i) 8 \<subseteq> region t 4096"
proof -
  have "t + 8 * i = t + of_nat (8 * unat i)" by simp
  moreover have "8 * unat i + 8 \<le> 4096"
    using assms by (simp add: word_less_nat_alt)
  ultimately show ?thesis
    using region_sub [of "8 * unat i" 8 4096 t] by simp
qed

lemma slot_disjoint:
  assumes "i < 512" and "j < 512" and "i \<noteq> j"
  shows "region (t + 8 * i) 8 \<inter> region (t + 8 * j) 8 = {}"
proof -
  have "t + 8 * k = t + of_nat (8 * unat k)" for k :: u64 by simp
  then show ?thesis
    using region_slots_disjoint [of "unat i" "unat j" t] assms
    by (simp add: word_less_nat_alt word_unat_eq_iff)
qed

lemma entry_get_cong:
  assumes "hhdm_offset s' = hhdm_offset s" and "j < 512"
    and "\<And>x. x \<in> page_frame s p \<Longrightarrow> mem s' x = mem s x"
  shows "entry_get s' (HIGHER_HALF s p) j = entry_get s (HIGHER_HALF s p) j"
  unfolding entry_get_def
  by (rule load64_region) (use assms slot_region [of j "HIGHER_HALF s p"] in \<open>auto simp: page_frame_def\<close>)

lemma entry_set_fields [simp]:
  "same_setup s (entry_set s t i e)" "stack_idx (entry_set s t i e) = stack_idx s"
  "hhdm_offset (entry_set s t i e) = hhdm_offset s" "HIGHER_HALF (entry_set s t i e) = HIGHER_HALF s"
  "valid_page_cache (entry_set s t i e) = valid_page_cache s"
  by (simp_all add: entry_set_def same_setup_def HIGHER_HALF_def fun_eq_iff)

lemma entry_set_same [simp]: "entry_get (entry_set s t i e) t i = e"
  by (simp add: entry_get_def entry_set_def)

lemma entry_set_other:
  assumes "page_aligned p" "page_aligned q" "i < 512" "j < 512" "p \<noteq> q \<or> i \<noteq> j"
  shows "entry_get (entry_set s (HIGHER_HALF s p) i e) (HIGHER_HALF s q) j = entry_get s (HIGHER_HALF s q) j"
proof -
  have "region (HIGHER_HALF s p + 8 * i) 8 \<inter> region (HIGHER_HALF s q + 8 * j) 8 = {}"
  proof (cases "p = q")
    case True
    with assms show ?thesis by (simp add: slot_disjoint)
  next
    case False
    then have "region (HIGHER_HALF s p) 4096 \<inter> region (HIGHER_HALF s q) 4096 = {}"
      using page_frame_disjoint [OF assms(1,2)] by (simp add: page_frame_def)
    with slot_region [OF assms(3)] slot_region [OF assms(4)] show ?thesis by blast
  qed
  then show ?thesis
    by (simp add: entry_get_def entry_set_def load_store64_disjoint)
qed

lemma entry_set_frame:
  assumes "i < 512" and "x \<notin> page_frame s p"
  shows "mem (entry_set s (HIGHER_HALF s p) i e) x = mem s x"
proof -
  have "x \<notin> region (HIGHER_HALF s p + 8 * i) 8"
    using assms slot_region [of i "HIGHER_HALF s p"] by (auto simp: page_frame_def)
  then show ?thesis by (simp add: entry_set_def store64_outside)
qed

lemma table_at_aligned:
  assumes "page_aligned root" and "table_at s root is = Some p"
  shows "page_aligned p"
proof (cases "is" rule: rev_exhaust)
  case (snoc js j)
  with assms show ?thesis
    by (auto simp: table_at_snoc table_step_def Let_def masked_aligned split: bind_splits if_splits)
qed (use assms in simp)

lemma table_at_None_append: "table_at s root is = None \<Longrightarrow> table_at s root (is @ js) = None"
  by (induction js rule: rev_induct) (simp_all add: append_assoc [symmetric] table_at_snoc table_step_def
      del: append_assoc)

text \<open>
  If a change of memory leaves every entry alone whose path is not in \<open>K\<close>, where \<open>K\<close> is closed
  under extension, then every table whose path is not in \<open>K\<close> stays where it is.
\<close>

lemma table_at_change:
  assumes hh: "hhdm_offset s' = hhdm_offset s"
    and same: "\<And>js q j. path js \<Longrightarrow> table_at s root js = Some q \<Longrightarrow> j < 512 \<Longrightarrow> \<not> K (js @ [j]) \<Longrightarrow>
      entry_get s' (HIGHER_HALF s q) j = entry_get s (HIGHER_HALF s q) j"
    and closed: "\<And>js j. K js \<Longrightarrow> K (js @ [j])"
  shows "path js \<Longrightarrow> \<not> K js \<Longrightarrow> table_at s' root js = table_at s root js"
proof (induction js rule: rev_induct)
  case (snoc j js)
  then have p: "path js" "j < 512" and nk: "\<not> K js"
    using closed by (auto simp: path_snoc)
  have IH: "table_at s' root js = table_at s root js"
    using snoc.IH p(1) nk by blast
  have H: "HIGHER_HALF s' = HIGHER_HALF s"
    using hh by (simp add: HIGHER_HALF_def fun_eq_iff)
  show ?case
  proof (cases "table_at s root js")
    case None
    with IH show ?thesis by (simp add: table_at_snoc table_step_def)
  next
    case (Some q)
    with same [OF p(1) Some p(2) snoc.prems(2)] IH show ?thesis
      by (simp add: table_at_snoc table_step_def H)
  qed
qed simp


section \<open>Keeping the tree\<close>

text \<open>
  The tables of an address space, the bytes of its tables and of the free pages, and a step that
  writes to these only and takes new tables from the free pages only.
\<close>

definition tables :: "pmm \<Rightarrow> u64 \<Rightarrow> u64 set" where
  "tables s root = {p. \<exists>js. path js \<and> table_at s root js = Some p}"

definition owned :: "pmm \<Rightarrow> u64 \<Rightarrow> u64 set" where
  "owned s root = (\<Union>p \<in> tables s root \<union> set (stack_list s). page_frame s p)"

definition confined :: "u64 \<Rightarrow> pmm \<Rightarrow> pmm \<Rightarrow> bool" where
  "confined root s s' \<longleftrightarrow> (\<forall>x. x \<notin> owned s root \<longrightarrow> mem s' x = mem s x) \<and>
     tables s' root \<union> set (stack_list s') \<subseteq> tables s root \<union> set (stack_list s)"

lemma confined_refl: "confined root s s"
  by (simp add: confined_def)

lemma confined_owned:
  assumes "confined root s t" and "same_setup s t"
  shows "owned t root \<subseteq> owned s root"
  using assms same_setup_simps(1) [OF assms(2)] unfolding owned_def confined_def by auto

lemma confined_trans:
  assumes "confined root s t" and "same_setup s t" and "confined root t u"
  shows "confined root s u"
  using assms confined_owned [OF assms(1,2)] unfolding confined_def by (metis subset_iff)

definition leaf_entry :: "pmm \<Rightarrow> u64 \<Rightarrow> u64 list \<Rightarrow> u64 \<Rightarrow> u64" where
  "leaf_entry s root js j =
     (case table_at s root js of None \<Rightarrow> 0 | Some p \<Rightarrow> entry_get s (HIGHER_HALF s p) j)"

lemma vm_invD:
  assumes "vm_inv s root"
  shows "pmm_inv s" "page_aligned root"
    "\<And>is js p. path is \<Longrightarrow> path js \<Longrightarrow> table_at s root is = Some p \<Longrightarrow> table_at s root js = Some p \<Longrightarrow> is = js"
    "\<And>is p. path is \<Longrightarrow> table_at s root is = Some p \<Longrightarrow> p \<notin> set (stack_list s)"
    "\<And>is p. path is \<Longrightarrow> table_at s root is = Some p \<Longrightarrow> page_frame s p \<inter> stack_region s = {}"
  using assms unfolding vm_inv_def by blast+

lemma vm_invI:
  assumes "pmm_inv s" "page_aligned root"
    "\<And>is js p. path is \<Longrightarrow> path js \<Longrightarrow> table_at s root is = Some p \<Longrightarrow> table_at s root js = Some p \<Longrightarrow> is = js"
    "\<And>is p. path is \<Longrightarrow> table_at s root is = Some p \<Longrightarrow> p \<notin> set (stack_list s)"
    "\<And>is p. path is \<Longrightarrow> table_at s root is = Some p \<Longrightarrow> page_frame s p \<inter> stack_region s = {}"
  shows "vm_inv s root"
  using assms unfolding vm_inv_def by blast

lemma vm_inv_keep:
  assumes "vm_inv s root" "pmm_inv s1" "same_setup s s1" "set (stack_list s1) \<subseteq> set (stack_list s)"
    and tab: "\<And>js. path js \<Longrightarrow> table_at s1 root js = table_at s root js"
  shows "vm_inv s1 root"
proof (rule vm_invI)
  note vi = vm_invD [OF assms(1)]
  show "pmm_inv s1" "page_aligned root" by (rule assms vi)+
  show "is = js" if "path is" "path js" "table_at s1 root is = Some p" "table_at s1 root js = Some p" for "is" js p
    using that tab vi(3) by metis
  show "p \<notin> set (stack_list s1)" if "path is" "table_at s1 root is = Some p" for "is" p
    using that tab vi(4) assms(4) by auto
  show "page_frame s1 p \<inter> stack_region s1 = {}" if "path is" "table_at s1 root is = Some p" for "is" p
    using that tab vi(5) same_setup_simps(1,2) [OF assms(3)] by simp
qed

lemma pmm_inv_entry_set:
  assumes "pmm_inv s" and "page_frame s p \<inter> stack_region s = {}" and "i < 512"
  shows "pmm_inv (entry_set s (HIGHER_HALF s p) i e)"
    "stack_list (entry_set s (HIGHER_HALF s p) i e) = stack_list s"
proof -
  let ?s = "entry_set s (HIGHER_HALF s p) i e"
  have "cache_sound ?s"
    using assms(1) same_setup_simps(3) [of s ?s] by (simp add: pmm_inv_def cache_sound_def)
  moreover have "mem ?s x = mem s x" if "x \<in> stack_region s" for x
    using that assms(2,3) by (intro entry_set_frame) auto
  ultimately show "pmm_inv ?s" "stack_list ?s = stack_list s"
    using pmm_inv_frame [OF assms(1), of ?s] by simp_all
qed

text \<open>A request leaves every table and every entry as it is: the page it clears is not a table.\<close>

lemma request_keeps_tree:
  assumes inv: "vm_inv s root" and free: "stack_list s = ps @ [q]" and req: "pmm_request_page s = (r, s1)"
  shows "r = q" "same_setup s s1" "pmm_inv s1" "stack_list s1 = ps"
    "\<And>js. path js \<Longrightarrow> table_at s1 root js = table_at s root js"
    "\<And>js p j. path js \<Longrightarrow> table_at s root js = Some p \<Longrightarrow> j < 512 \<Longrightarrow>
       entry_get s1 (HIGHER_HALF s p) j = entry_get s (HIGHER_HALF s p) j"
    "\<And>j. j < 512 \<Longrightarrow> entry_get s1 (HIGHER_HALF s q) j = 0"
    "vm_inv s1 root"
proof -
  note vi = vm_invD [OF inv]
  obtain s' where s': "pmm_request_page s = (q, s')" "pmm_inv s'" "stack_list s' = ps" "same_setup s s'"
    "mem s' = block_fill (mem s) (HIGHER_HALF s q) 0 4096"
    using request_top [OF vi(1) free] by metis
  with req show eq: "r = q" and su: "same_setup s s1" and i1: "pmm_inv s1" and l1: "stack_list s1 = ps"
    by auto
  have m1: "mem s1 = block_fill (mem s) (HIGHER_HALF s q) 0 4096" and hh: "hhdm_offset s1 = hhdm_offset s"
    using s' req by (auto simp: same_setup_def)
  have q: "page_aligned q" "q \<in> set (stack_list s)"
    using vi(1) free by (auto simp: pmm_inv_def frame_ok_def)
  have frame: "mem s1 x = mem s x" if "x \<notin> page_frame s q" for x
    using that by (simp add: m1 block_fill_def page_frame_def region_def)
  show keep: "entry_get s1 (HIGHER_HALF s p) j = entry_get s (HIGHER_HALF s p) j"
    if "path js" "table_at s root js = Some p" "j < 512" for js p j
  proof (rule entry_get_cong [OF hh that(3)])
    have "p \<noteq> q" using vi(4) [OF that(1,2)] q(2) by blast
    then have "page_frame s p \<inter> page_frame s q = {}"
      using page_frame_disjoint table_at_aligned [OF vi(2) that(2)] q(1) by blast
    then show "mem s1 x = mem s x" if "x \<in> page_frame s p" for x
      using that frame by blast
  qed
  show tab: "table_at s1 root js = table_at s root js" if "path js" for js
    by (rule table_at_change [where K = "\<lambda>_. False", OF hh]) (use keep that in auto)
  show "entry_get s1 (HIGHER_HALF s q) j = 0" if "j < 512" for j
  proof -
    have "load64 (mem s1) (HIGHER_HALF s q + 8 * j) = load64 (\<lambda>_. 0) (HIGHER_HALF s q + 8 * j)"
      by (rule load64_region)
        (use slot_region [OF that, of "HIGHER_HALF s q"] in \<open>auto simp: m1 block_fill_def region_def\<close>)
    then show ?thesis by (simp add: entry_get_def load64_def)
  qed
  show "vm_inv s1 root"
    by (rule vm_inv_keep [OF inv i1 su _ tab]) (use l1 free in auto)
qed


text \<open>Installing a cleared page that is neither free nor a table as a new table.\<close>

lemma entry_set_new_table:
  assumes inv: "vm_inv s root" and pth: "path (is @ [i])" and p: "table_at s root is = Some p"
    and absent: "entry_get s (HIGHER_HALF s p) i AND 1 = 0"
    and q: "page_aligned q" "q < 2 ^ 52" "q \<notin> set (stack_list s)" "page_frame s q \<inter> stack_region s = {}"
    and new: "\<And>js. path js \<Longrightarrow> table_at s root js \<noteq> Some q"
    and zero: "\<And>j. j < 512 \<Longrightarrow> entry_get s (HIGHER_HALF s q) j = 0"
  defines "s' \<equiv> entry_set s (HIGHER_HALF s p) i (q OR 7)"
  shows "vm_inv s' root" "table_at s' root (is @ [i]) = Some q"
    "\<And>js. path js \<Longrightarrow> \<not> prefix (is @ [i]) js \<Longrightarrow> table_at s' root js = table_at s root js"
    "\<And>js j. path js \<Longrightarrow> length js = 3 \<Longrightarrow> j < 512 \<Longrightarrow> leaf_entry s' root js j = leaf_entry s root js j"
    "tables s' root \<subseteq> insert q (tables s root)"
proof -
  note vi = vm_invD [OF inv]
  have pi: "path is" "i < 512" "length is < 3" using pth by (auto simp: path_snoc)
  have pa: "page_aligned p" by (rule table_at_aligned [OF vi(2) p])
  have pq: "p \<noteq> q" using new [OF pi(1)] p by auto
  have HH: "HIGHER_HALF s' = HIGHER_HALF s" by (simp add: s'_def)
  have other: "entry_get s' (HIGHER_HALF s r) j = entry_get s (HIGHER_HALF s r) j"
    if "page_aligned r" "j < 512" "p \<noteq> r \<or> i \<noteq> j" for r j
    unfolding s'_def by (rule entry_set_other [OF pa that(1) pi(2) that(2,3)])
  show tab: "table_at s' root js = table_at s root js" if "path js" "\<not> prefix (is @ [i]) js" for js
  proof (rule table_at_change [where K = "prefix (is @ [i])"])
    fix ks r j assume k: "path ks" "table_at s root ks = Some r" "j < 512" "\<not> prefix (is @ [i]) (ks @ [j])"
    then have "p \<noteq> r \<or> i \<noteq> j" using vi(3) [OF pi(1) k(1) p] by auto
    then show "entry_get s' (HIGHER_HALF s r) j = entry_get s (HIGHER_HALF s r) j"
      using other table_at_aligned [OF vi(2) k(2)] k(3) by blast
  qed (use that in \<open>auto simp: s'_def\<close>)
  have not_prefix: "\<not> prefix (is @ [i]) is"
    using prefix_length_le by fastforce
  have "table_at s' root is = Some p"
    using tab [OF pi(1) not_prefix] p by simp
  then show tq: "table_at s' root (is @ [i]) = Some q"
    by (simp add: table_at_snoc table_step_def HH) (simp add: s'_def fresh_entry [OF q(1,2)])
  have below: "table_at s' root (is @ [i] @ j # js) = None" if "j < 512" for j js
  proof -
    have "entry_get s' (HIGHER_HALF s q) j = 0"
      using other [OF q(1) that] pq zero [OF that] by simp
    then have "table_at s' root ((is @ [i]) @ [j]) = None"
      using tq by (simp only: table_at_snoc) (simp add: table_step_def HH)
    from table_at_None_append [OF this, of js] show ?thesis by simp
  qed
  have cases: "js = is @ [i] \<and> r = q \<or> \<not> prefix (is @ [i]) js \<and> table_at s root js = Some r"
    if js: "path js" "table_at s' root js = Some r" for js r
  proof (cases "prefix (is @ [i]) js")
    case True
    then obtain zs where zs: "js = is @ [i] @ zs" by (auto simp: prefix_def)
    with js below show ?thesis
      by (cases zs) (auto simp: tq path_def)
  qed (use js tab in auto)
  then show "tables s' root \<subseteq> insert q (tables s root)"
    unfolding tables_def by blast
  have old: "table_at s root (is @ i # zs) = None" for zs
    using table_at_None_append [of s root "is @ [i]" zs] p absent
    by (simp add: table_at_snoc table_step_def)
  show "leaf_entry s' root js j = leaf_entry s root js j" if js: "path js" "length js = 3" "j < 512" for js j
  proof (cases "prefix (is @ [i]) js")
    case True
    then obtain zs where zs: "js = is @ [i] @ zs" by (auto simp: prefix_def)
    have "leaf_entry s' root js j = 0"
    proof (cases "table_at s' root js")
      case (Some r)
      with cases [OF js(1) Some] True have "r = q" by auto
      with Some other [OF q(1) js(3)] pq zero [OF js(3)] show ?thesis
        by (simp add: leaf_entry_def HH)
    qed (simp add: leaf_entry_def)
    then show ?thesis using old zs by (simp add: leaf_entry_def)
  next
    case False
    show ?thesis
    proof (cases "table_at s root js")
      case (Some r)
      then have "p \<noteq> r" using vi(3) [OF pi(1) js(1) p] pi(3) js(2) by auto
      with Some other [of r j] table_at_aligned [OF vi(2) Some] js(3) tab [OF js(1) False] show ?thesis
        by (simp add: leaf_entry_def HH)
    qed (use tab [OF js(1) False] in \<open>simp add: leaf_entry_def\<close>)
  qed
  note ps = pmm_inv_entry_set [OF vi(1) vi(5) [OF pi(1) p] pi(2), of "q OR 7", folded s'_def]
  have su: "page_frame s' = page_frame s" "stack_region s' = stack_region s"
    using same_setup_simps(1,2) [of s s'] by (simp_all add: s'_def)
  show "vm_inv s' root"
  proof (rule vm_invI)
    show "pmm_inv s'" "page_aligned root" by (rule ps vi)+
    show "ks = js" if "path ks" "path js" "table_at s' root ks = Some r" "table_at s' root js = Some r" for ks js r
      using cases [OF that(1,3)] cases [OF that(2,4)] vi(3) [OF that(1,2), of r] new [OF that(1)] new [OF that(2)] by auto
    show "r \<notin> set (stack_list s')" if "path ks" "table_at s' root ks = Some r" for ks r
      using cases [OF that] vi(4) [OF that(1), of r] q(3) ps(2) by auto
    show "page_frame s' r \<inter> stack_region s' = {}" if "path ks" "table_at s' root ks = Some r" for ks r
      using cases [OF that] vi(5) [OF that(1), of r] q(4) su by auto
  qed
qed


section \<open>What mapping and unmapping do\<close>

text \<open>How an operation may change an address space besides the entry it is about.\<close>

definition tree_step :: "u64 \<Rightarrow> nat \<Rightarrow> pmm \<Rightarrow> pmm \<Rightarrow> bool" where
  "tree_step root k s s' \<longleftrightarrow> vm_inv s' root \<and> same_setup s s' \<and> confined root s s' \<and>
     (\<exists>ps. length ps \<le> k \<and> stack_list s = stack_list s' @ ps) \<and>
     (\<forall>js j. path js \<and> length js = 3 \<and> j < 512 \<longrightarrow> leaf_entry s' root js j = leaf_entry s root js j)"

lemma tree_step_refl: "vm_inv s root \<Longrightarrow> tree_step root k s s"
  by (simp add: tree_step_def confined_refl)

lemma tree_step_trans:
  assumes "tree_step root k s t" and "tree_step root l t u"
  shows "tree_step root (k + l) s u"
proof -
  obtain ps qs where "length ps \<le> k" "stack_list s = stack_list t @ ps"
    "length qs \<le> l" "stack_list t = stack_list u @ qs"
    using assms unfolding tree_step_def by blast
  then have "length (qs @ ps) \<le> k + l \<and> stack_list s = stack_list u @ qs @ ps"
    by simp
  moreover have "same_setup s u" "confined root s u"
    using assms same_setup_trans confined_trans unfolding tree_step_def by blast+
  ultimately show ?thesis
    using assms unfolding tree_step_def by (intro conjI exI [of _ "qs @ ps"]) auto
qed

lemma tree_step_more:
  assumes "tree_step root k s s'" and "k < length (stack_list s)"
  shows "stack_list s' \<noteq> []"
  using assms unfolding tree_step_def by (auto simp del: length_stack_list)

lemma next_table_step:
  assumes inv: "vm_inv s root" and pth: "path (is @ [i])" and p: "table_at s root is = Some p"
    and free: "stack_list s \<noteq> []"
  obtains q s' where "next_table s (HIGHER_HALF s p) i = (HIGHER_HALF s q, s')"
    "table_at s' root (is @ [i]) = Some q" "tree_step root 1 s s'"
proof (cases "entry_get s (HIGHER_HALF s p) i AND 1 = 0")
  case False
  then show ?thesis
    using p inv by (intro that [of "entry_get s (HIGHER_HALF s p) i AND ADDR_MASK" s])
      (simp_all add: next_table_def entry_table_def table_at_snoc table_step_def tree_step_refl)
next
  case True
  obtain ps q where l: "stack_list s = ps @ [q]"
    using free by (metis rev_exhaust)
  obtain r s1 where req: "pmm_request_page s = (r, s1)" by force
  note rk = request_keeps_tree [OF inv l req]
  have pi: "path is" "i < 512" using pth by (auto simp: path_snoc)
  have H1: "HIGHER_HALF s1 = HIGHER_HALF s" using same_setup_simps(4) [OF rk(2)] .
  have q: "page_aligned q" "q < 2 ^ 52" "page_frame s1 q \<inter> stack_region s1 = {}" "q \<notin> set ps"
    using vm_invD(1) [OF inv] l same_setup_simps(1,2) [OF rk(2)] by (auto simp: pmm_inv_def frame_ok_def)
  define s' where "s' = entry_set s1 (HIGHER_HALF s p) i (q OR 7)"
  note new = entry_set_new_table [OF rk(8) pth, of p q, unfolded H1, folded s'_def]
  have pre: "table_at s1 root is = Some p" "entry_get s1 (HIGHER_HALF s p) i AND 1 = 0"
    "q \<notin> set (stack_list s1)" "\<And>js. path js \<Longrightarrow> table_at s1 root js \<noteq> Some q"
    "\<And>j. j < 512 \<Longrightarrow> entry_get s1 (HIGHER_HALF s q) j = 0"
    using rk(4-7) p pi True q(4) vm_invD(4) [OF inv, of _ q] l by auto
  note new = new [OF pre(1,2) q(1,2) pre(3) q(3) pre(4,5)]
  have "leaf_entry s1 root js j = leaf_entry s root js j" if "path js" "j < 512" for js j
    using rk(5,6) that by (simp add: leaf_entry_def H1 split: option.split)
  moreover have "stack_list s' = ps"
    using pmm_inv_entry_set(2) [OF rk(3) vm_invD(5) [OF rk(8) pi(1) pre(1)] pi(2), unfolded H1] rk(4)
    by (simp add: s'_def)
  moreover have "same_setup s s'"
    using rk(2) entry_set_fields(1) unfolding s'_def by (rule same_setup_trans)
  moreover have "confined root s s'"
  proof -
    have "tables s1 root = tables s root"
      unfolding tables_def using rk(5) by auto
    moreover have "p \<in> tables s root" using p pi(1) by (auto simp: tables_def)
    moreover have "mem s1 x = mem s x" if "x \<notin> page_frame s q" for x
      using request_top [OF vm_invD(1) [OF inv] l] req that
      by (metis Pair_inject block_fill_def mem_Collect_eq page_frame_def region_def)
    moreover have "mem s' x = mem s1 x" if "x \<notin> page_frame s p" for x
      using entry_set_frame [OF pi(2), of x s1 p] that same_setup_simps(1) [OF rk(2)] H1
      by (simp add: s'_def)
    ultimately show ?thesis
      using new(5) l \<open>stack_list s' = ps\<close> by (auto simp: confined_def owned_def)
  qed
  ultimately have "tree_step root 1 s s'"
    using new(1,4) l unfolding tree_step_def by (intro conjI exI [of _ "[q]"]) simp_all
  moreover have "next_table s (HIGHER_HALF s p) i = (HIGHER_HALF s q, s')"
    using True req rk(1) H1
    by (simp add: next_table_def s'_def entry_table_def fresh_entry [OF q(1,2)])
  ultimately show ?thesis
    using new(2) that by blast
qed

lemma leaf_leaf_entry:
  "leaf s root v = leaf_entry s root [pml4_idx v, pml3_idx v, pml2_idx v] (pml1_idx v)"
  by (simp add: leaf_def leaf_entry_def)

lemma path_3: "path [pml4_idx v, pml3_idx v, pml2_idx v]" "path [pml4_idx v, pml3_idx v]" "path [pml4_idx v]"
  by (simp_all add: path_def idx_less)

text \<open>Writing an entry of the last level.\<close>

lemma entry_set_leaf:
  fixes e :: u64
  assumes inv: "vm_inv s root" and p: "table_at s root is = Some p" and pth: "path is" "length is = 3" and i: "i < 512"
  defines "s' \<equiv> entry_set s (HIGHER_HALF s p) i e"
  shows "vm_inv s' root" "stack_list s' = stack_list s"
    "\<And>js j. path js \<Longrightarrow> length js = 3 \<Longrightarrow> j < 512 \<Longrightarrow>
       leaf_entry s' root js j = (if js = is \<and> j = i then e else leaf_entry s root js j)"
    "confined root s s'"
proof -
  note vi = vm_invD [OF inv]
  have pa: "page_aligned p" by (rule table_at_aligned [OF vi(2) p])
  have HH: "HIGHER_HALF s' = HIGHER_HALF s" by (simp add: s'_def)
  have other: "entry_get s' (HIGHER_HALF s r) j = entry_get s (HIGHER_HALF s r) j"
    if "page_aligned r" "j < 512" "p \<noteq> r \<or> i \<noteq> j" for r j
    unfolding s'_def by (rule entry_set_other [OF pa that(1) i that(2,3)])
  have tab: "table_at s' root js = table_at s root js" if "path js" for js
  proof (rule table_at_change [where K = "\<lambda>js. length js > 3"])
    fix ks r j assume k: "path ks" "table_at s root ks = Some r" "j < 512" "\<not> length (ks @ [j]) > 3"
    then have "p \<noteq> r" using vi(3) [OF pth(1) k(1) p] pth(2) by auto
    then show "entry_get s' (HIGHER_HALF s r) j = entry_get s (HIGHER_HALF s r) j"
      using other table_at_aligned [OF vi(2) k(2)] k(3) by blast
  qed (use that in \<open>auto simp: s'_def path_def\<close>)
  show l: "stack_list s' = stack_list s"
    unfolding s'_def by (rule pmm_inv_entry_set(2) [OF vi(1) vi(5) [OF pth(1) p] i])
  have "tables s' root = tables s root"
    unfolding tables_def using tab by auto
  moreover have "mem s' x = mem s x" if "x \<notin> owned s root" for x
    using that p pth(1) unfolding s'_def
    by (intro entry_set_frame [OF i]) (auto simp: owned_def tables_def)
  ultimately show "confined root s s'"
    using l by (simp add: confined_def)
  show "vm_inv s' root"
    by (rule vm_inv_keep [OF inv _ _ _ tab])
      (use pmm_inv_entry_set(1) [OF vi(1) vi(5) [OF pth(1) p] i] l in \<open>simp_all add: s'_def\<close>)
  show "leaf_entry s' root js j = (if js = is \<and> j = i then e else leaf_entry s root js j)"
    if js: "path js" "length js = 3" "j < 512" for js j
  proof (cases "table_at s root js")
    case None
    then have "js \<noteq> is" using p by auto
    with None tab [OF js(1)] show ?thesis by (simp add: leaf_entry_def)
  next
    case (Some r)
    have "p = r \<longleftrightarrow> js = is"
      using vi(3) [OF pth(1) js(1) p] p Some by auto
    with Some tab [OF js(1)] other [of r j] table_at_aligned [OF vi(2) Some] js(3) show ?thesis
      by (auto simp: leaf_entry_def HH) (simp add: s'_def)
  qed
qed

lemma vmm_map_leaf:
  fixes virt phys flags :: u64
  assumes inv: "vm_inv s root" and free: "3 \<le> length (stack_list s)"
  defines "s' \<equiv> vmm_map s (HIGHER_HALF s root) virt phys flags"
  shows "vm_inv s' root" "same_setup s s'"
    "\<exists>ps. length ps \<le> 3 \<and> stack_list s = stack_list s' @ ps"
    "\<And>v. leaf s' root v = (if same_page v virt then phys OR flags else leaf s root v)"
    "confined root s s'"
proof -
  let ?i4 = "pml4_idx virt" and ?i3 = "pml3_idx virt" and ?i2 = "pml2_idx virt" and ?i1 = "pml1_idx virt"
  have ne: "stack_list s \<noteq> []" using free by (auto simp del: length_stack_list)
  obtain p3 s1 where n1: "next_table s (HIGHER_HALF s root) ?i4 = (HIGHER_HALF s p3, s1)"
    "table_at s1 root [?i4] = Some p3" "tree_step root 1 s s1"
    using next_table_step [OF inv, of "[]" ?i4 root] ne path_3 by auto
  have v1: "vm_inv s1 root" "HIGHER_HALF s1 = HIGHER_HALF s" "stack_list s1 \<noteq> []"
    using n1(3) same_setup_simps(4) [of s s1] tree_step_more [OF n1(3)] free by (auto simp: tree_step_def)
  obtain p2 s2 where n2: "next_table s1 (HIGHER_HALF s1 p3) ?i3 = (HIGHER_HALF s1 p2, s2)"
    "table_at s2 root [?i4, ?i3] = Some p2" "tree_step root 1 s1 s2"
    using next_table_step [OF v1(1) _ n1(2) v1(3), of ?i3] path_3(2) by auto
  note t2 = tree_step_trans [OF n1(3) n2(3)]
  have v2: "vm_inv s2 root" "HIGHER_HALF s2 = HIGHER_HALF s" "stack_list s2 \<noteq> []"
    using t2 same_setup_simps(4) [of s s2] tree_step_more [OF t2] free by (auto simp: tree_step_def)
  obtain p1 s3 where n3: "next_table s2 (HIGHER_HALF s2 p2) ?i2 = (HIGHER_HALF s2 p1, s3)"
    "table_at s3 root [?i4, ?i3, ?i2] = Some p1" "tree_step root 1 s2 s3"
    using next_table_step [OF v2(1) _ n2(2) v2(3), of ?i2] path_3(1) by auto
  note t3 = tree_step_trans [OF t2 n3(3)]
  have v3: "vm_inv s3 root" "HIGHER_HALF s3 = HIGHER_HALF s" "same_setup s s3"
    using t3 same_setup_simps(4) [of s s3] by (auto simp: tree_step_def)
  have s': "s' = entry_set s3 (HIGHER_HALF s3 p1) ?i1 (phys OR flags)"
    using n1(1) n2(1) n3(1) v1(2) v2(2) v3(2) by (simp add: s'_def vmm_map_def)
  note set = entry_set_leaf [where e = "phys OR flags", OF v3(1) n3(2) path_3(1) _ idx_less(1) [of virt], folded s']
  show "vm_inv s' root" using set(1) by simp
  show "confined root s s'"
    using set(4) v3(3) t3 confined_trans [of root s s3 s'] by (simp add: tree_step_def)
  show "same_setup s s'" unfolding s' using v3(3) entry_set_fields(1) by (rule same_setup_trans)
  show "\<exists>ps. length ps \<le> 3 \<and> stack_list s = stack_list s' @ ps"
    using t3 set(2) by (simp add: tree_step_def numeral_3_eq_3)
  show "leaf s' root v = (if same_page v virt then phys OR flags else leaf s root v)" for v
    using set(3) [of "[pml4_idx v, pml3_idx v, pml2_idx v]" "pml1_idx v"] t3 path_3(1) idx_less(1)
    by (simp add: leaf_leaf_entry same_page_def tree_step_def)
qed


lemma virt_to_phys_leaf: "virt_to_phys s (HIGHER_HALF s root) v = leaf s root v AND ADDR_MASK"
  by (simp add: virt_to_phys_def leaf_def table_at_def table_step_def entry_table_def Let_def)

text \<open>Clearing an entry that is not present changes no translation.\<close>

lemma entry_set_absent:
  assumes inv: "vm_inv s root" and pth: "path (is @ [i])" and p: "table_at s root is = Some p"
    and absent: "entry_get s (HIGHER_HALF s p) i AND 1 = 0"
  defines "s' \<equiv> entry_set s (HIGHER_HALF s p) i 0"
  shows "vm_inv s' root" "stack_list s' = stack_list s"
    "\<And>js j. path js \<Longrightarrow> length js = 3 \<Longrightarrow> j < 512 \<Longrightarrow> leaf_entry s' root js j = leaf_entry s root js j"
proof -
  note vi = vm_invD [OF inv]
  have pi: "path is" "i < 512" "length is < 3" using pth by (auto simp: path_snoc)
  have pa: "page_aligned p" by (rule table_at_aligned [OF vi(2) p])
  have HH: "HIGHER_HALF s' = HIGHER_HALF s" by (simp add: s'_def)
  have other: "entry_get s' (HIGHER_HALF s r) j = entry_get s (HIGHER_HALF s r) j"
    if "page_aligned r" "j < 512" "p \<noteq> r \<or> i \<noteq> j" for r j
    unfolding s'_def by (rule entry_set_other [OF pa that(1) pi(2) that(2,3)])
  have outside: "table_at s' root js = table_at s root js" if "path js" "\<not> prefix (is @ [i]) js" for js
  proof (rule table_at_change [where K = "prefix (is @ [i])"])
    fix ks r j assume k: "path ks" "table_at s root ks = Some r" "j < 512" "\<not> prefix (is @ [i]) (ks @ [j])"
    then have "p \<noteq> r \<or> i \<noteq> j" using vi(3) [OF pi(1) k(1) p] by auto
    then show "entry_get s' (HIGHER_HALF s r) j = entry_get s (HIGHER_HALF s r) j"
      using other table_at_aligned [OF vi(2) k(2)] k(3) by blast
  qed (use that in \<open>auto simp: s'_def\<close>)
  have p': "table_at s' root is = Some p"
    using outside [OF pi(1)] p prefix_length_le by fastforce
  have gone: "table_at t root (is @ i # zs) = None"
    if "table_at t root is = Some p" "HIGHER_HALF t = HIGHER_HALF s" "entry_get t (HIGHER_HALF s p) i AND 1 = 0" for t zs
    using table_at_None_append [of t root "is @ [i]" zs] that by (simp add: table_at_snoc table_step_def)
  have tab: "table_at s' root js = table_at s root js" if "path js" for js
  proof (cases "prefix (is @ [i]) js")
    case True
    then obtain zs where "js = is @ i # zs" by (auto simp: prefix_def)
    with gone [OF p' HH, of zs] gone [OF p refl absent, of zs] show ?thesis by (simp add: s'_def)
  qed (use that outside in simp)
  note ps = pmm_inv_entry_set [where e = 0, OF vi(1) vi(5) [OF pi(1) p] pi(2), folded s'_def]
  show "stack_list s' = stack_list s" by (rule ps)
  show "vm_inv s' root"
    by (rule vm_inv_keep [OF inv ps(1) _ _ tab]) (simp_all add: ps(2), simp add: s'_def)
  show "leaf_entry s' root js j = leaf_entry s root js j" if js: "path js" "length js = 3" "j < 512" for js j
  proof (cases "table_at s root js")
    case (Some r)
    then have "p \<noteq> r" using vi(3) [OF pi(1) js(1) p] pi(3) js(2) by auto
    with Some other [of r j] table_at_aligned [OF vi(2) Some] js(3) tab [OF js(1)] show ?thesis
      by (simp add: leaf_entry_def HH)
  qed (use tab [OF js(1)] in \<open>simp add: leaf_entry_def\<close>)
qed

lemma vmm_unmap_leaf:
  fixes virt :: u64
  assumes inv: "vm_inv s root"
  defines "s' \<equiv> vmm_unmap s (HIGHER_HALF s root) virt"
  shows "vm_inv s' root \<and> stack_list s' = stack_list s \<and>
    (\<forall>v. leaf s' root v = (if same_page v virt then 0 else leaf s root v))"
proof -
  let ?i4 = "pml4_idx virt" and ?i3 = "pml3_idx virt" and ?i2 = "pml2_idx virt" and ?i1 = "pml1_idx virt"
  have absent: ?thesis
    if a: "path (is @ [i])" "table_at s root is = Some p" "entry_get s (HIGHER_HALF s p) i AND 1 = 0"
      "s' = entry_set s (HIGHER_HALF s p) i 0" "prefix (is @ [i]) [?i4, ?i3, ?i2]" for "is" i p
  proof -
    note ea = entry_set_absent [OF inv a(1-3), folded a(4)]
    have "table_at s root (is @ [i]) = None"
      using a(2,3) by (simp add: table_at_snoc table_step_def)
    then have "table_at s root [?i4, ?i3, ?i2] = None"
      using a(5) by (metis prefix_def table_at_None_append)
    then have "leaf s root v = 0" if "same_page v virt" for v
      using that by (simp add: leaf_def same_page_def)
    then show ?thesis
      using ea path_3(1) idx_less(1) by (auto simp: leaf_leaf_entry)
  qed
  define e4 where "e4 = entry_get s (HIGHER_HALF s root) ?i4"
  define e3 where "e3 = entry_get s (entry_table s e4) ?i3"
  define e2 where "e2 = entry_get s (entry_table s e3) ?i2"
  have t3: "table_at s root [?i4] = Some (e4 AND ADDR_MASK)" if "e4 AND 1 \<noteq> 0"
    using that by (simp add: table_at_def table_step_def e4_def)
  have t2: "table_at s root [?i4, ?i3] = Some (e3 AND ADDR_MASK)" if "e4 AND 1 \<noteq> 0" "e3 AND 1 \<noteq> 0"
    using that by (simp add: table_at_def table_step_def e4_def e3_def entry_table_def)
  have t1: "table_at s root [?i4, ?i3, ?i2] = Some (e2 AND ADDR_MASK)"
    if "e4 AND 1 \<noteq> 0" "e3 AND 1 \<noteq> 0" "e2 AND 1 \<noteq> 0"
    using that by (simp add: table_at_def table_step_def e4_def e3_def e2_def entry_table_def)
  have s': "s' = (if e4 AND 1 = 0 then entry_set s (HIGHER_HALF s root) ?i4 0
      else if e3 AND 1 = 0 then entry_set s (entry_table s e4) ?i3 0
      else if e2 AND 1 = 0 then entry_set s (entry_table s e3) ?i2 0
      else entry_set s (entry_table s e2) ?i1 0)"
    by (simp add: s'_def vmm_unmap_def Let_def e4_def e3_def e2_def)
  consider "e4 AND 1 = 0" | "e4 AND 1 \<noteq> 0" "e3 AND 1 = 0" | "e4 AND 1 \<noteq> 0" "e3 AND 1 \<noteq> 0" "e2 AND 1 = 0"
    | "e4 AND 1 \<noteq> 0" "e3 AND 1 \<noteq> 0" "e2 AND 1 \<noteq> 0" by blast
  then show ?thesis
  proof cases
    case 1
    then show ?thesis
      using absent [of "[]" ?i4 root] path_3 by (simp add: s' e4_def)
  next
    case 2
    then show ?thesis
      using absent [of "[?i4]" ?i3, OF _ t3] path_3 by (simp add: s' e3_def entry_table_def)
  next
    case 3
    then show ?thesis
      using absent [of "[?i4, ?i3]" ?i2, OF _ t2] path_3 by (simp add: s' e2_def entry_table_def)
  next
    case 4
    note el = entry_set_leaf [where e = 0, OF inv t1 [OF 4] path_3(1) _ idx_less(1) [of virt]]
    with 4 show ?thesis
      using path_3(1) idx_less(1) by (simp add: s' entry_table_def leaf_leaf_entry same_page_def)
  qed
qed


lemma same_page_iff: "same_page v w \<longleftrightarrow> (\<forall>n. 12 \<le> n \<and> n < 48 \<longrightarrow> bit v n = bit w n)"
proof -
  have mask: "(0x1ff :: u64) = mask 9" by (simp add: mask_eq_exp_minus_1)
  have idx: "drop_bit k (v AND push_bit k 0x1ff) = drop_bit k (w AND push_bit k 0x1ff) \<longleftrightarrow>
      (\<forall>n. k \<le> n \<and> n < k + 9 \<longrightarrow> bit v n = bit w n)" if "k \<le> 39" for k
  proof -
    have "drop_bit k (v AND push_bit k 0x1ff) = drop_bit k (w AND push_bit k 0x1ff) \<longleftrightarrow>
        (\<forall>i < 9. bit v (k + i) = bit w (k + i))"
    proof -
      have b: "bit (drop_bit k (x AND push_bit k 0x1ff)) n \<longleftrightarrow> n < 9 \<and> bit x (k + n)" for x :: u64 and n
        unfolding mask using that by (auto simp: bit_simps dest: bit_imp_le_length)
      have eq: "a = c \<longleftrightarrow> (\<forall>n. bit a n = bit c n)" for a c :: u64
        by (auto intro: bit_word_eqI)
      show ?thesis unfolding eq b by auto
    qed
    also have "\<dots> \<longleftrightarrow> (\<forall>n. k \<le> n \<and> n < k + 9 \<longrightarrow> bit v n = bit w n)"
      by (metis add_less_cancel_left le_add1 le_add_diff_inverse)
    finally show ?thesis .
  qed
  have "same_page v w \<longleftrightarrow> (\<forall>n. 39 \<le> n \<and> n < 48 \<longrightarrow> bit v n = bit w n) \<and>
      (\<forall>n. 30 \<le> n \<and> n < 39 \<longrightarrow> bit v n = bit w n) \<and> (\<forall>n. 21 \<le> n \<and> n < 30 \<longrightarrow> bit v n = bit w n) \<and>
      (\<forall>n. 12 \<le> n \<and> n < 21 \<longrightarrow> bit v n = bit w n)"
    unfolding same_page_def pml4_idx_def pml3_idx_def pml2_idx_def pml1_idx_def
    using idx [of 39] idx [of 30] idx [of 21] idx [of 12] by (simp only:) simp
  also have "\<dots> \<longleftrightarrow> (\<forall>n. 12 \<le> n \<and> n < 48 \<longrightarrow> bit v n = bit w n)"
  proof -
    have "12 \<le> n \<and> n < 48 \<longleftrightarrow> (39 \<le> n \<and> n < 48) \<or> (30 \<le> n \<and> n < 39) \<or> (21 \<le> n \<and> n < 30) \<or> (12 \<le> n \<and> n < 21)"
      for n :: nat by linarith
    then show ?thesis by (simp only: imp_disjL all_conj_distrib)
  qed
  finally show ?thesis .
qed

lemma vm_inv_empty:
  assumes "pmm_inv s" "page_aligned root" "root \<notin> set (stack_list s)" "page_frame s root \<inter> stack_region s = {}"
    and zero: "\<And>j. j < 512 \<Longrightarrow> entry_get s (HIGHER_HALF s root) j = 0"
  shows "vm_inv s root" "leaf s root v = 0" "tables s root = {root}"
proof -
  have none: "table_at s root (i # js) = None" if "i < 512" for i js
    using table_at_None_append [of s root "[i]" js] zero [OF that] by (simp add: table_at_def table_step_def)
  have only: "js = [] \<and> p = root" if "path js" "table_at s root js = Some p" for js p
    using that none by (cases js) (auto simp: path_def)
  then show "tables s root = {root}"
    by (force simp: tables_def path_def intro: exI [of _ "[]"])
  show "vm_inv s root"
  proof (rule vm_invI)
    show "pmm_inv s" "page_aligned root" by (rule assms)+
    show "is = js" if "path is" "path js" "table_at s root is = Some p" "table_at s root js = Some p" for "is" js p
      using only [OF that(1,3)] only [OF that(2,4)] by simp
    show "p \<notin> set (stack_list s)" if "path is" "table_at s root is = Some p" for "is" p
      using only [OF that] assms(3) by simp
    show "page_frame s p \<inter> stack_region s = {}" if "path is" "table_at s root is = Some p" for "is" p
      using only [OF that] assms(4) by simp
  qed
  show "leaf s root v = 0"
    using none [OF idx_less(4)] by (simp add: leaf_def)
qed

text \<open>Mapping a run of \<open>n\<close> pages.\<close>

lemma map_range_leaf:
  fixes virt phys :: "u64 \<Rightarrow> u64" and flags :: u64
  assumes "vm_inv s root" and "3 * n \<le> length (stack_list s)"
    and "unat limit \<le> unat j + 4096 * n" "n = 0 \<or> unat j + 4096 * (n - 1) < unat limit" "unat limit + 4096 \<le> 2 ^ 64"
    and "\<And>k l. k < l \<Longrightarrow> l < n \<Longrightarrow> \<not> same_page (virt (j + of_nat (4096 * k))) (virt (j + of_nat (4096 * l)))"
  shows "\<exists>s'. map_range virt phys (HIGHER_HALF s root) flags j limit s = Some s' \<and> vm_inv s' root \<and>
    (\<forall>k < n. leaf s' root (virt (j + of_nat (4096 * k))) = (phys (j + of_nat (4096 * k)) OR flags)) \<and>
    (\<forall>v. (\<forall>k < n. \<not> same_page v (virt (j + of_nat (4096 * k)))) \<longrightarrow> leaf s' root v = leaf s root v)"
  using assms
proof (induction n arbitrary: s j)
  case 0
  then have "\<not> j < limit" by (simp add: word_less_nat_alt)
  then have "map_range virt phys (HIGHER_HALF s root) flags j limit s = Some s"
    by (subst map_range.simps) simp
  with 0(1) show ?case by simp
next
  case (Suc n)
  define s1 where "s1 = vmm_map s (HIGHER_HALF s root) (virt j) (phys j) flags"
  have lt: "j < limit" using Suc.prems(4) by (auto simp: word_less_nat_alt)
  have j1: "unat (j + PAGE_SIZE) = unat j + 4096"
    by (subst unat_plus_no_wrap) (use lt Suc.prems(5) in \<open>simp_all add: word_less_nat_alt\<close>)
  have shift: "j + PAGE_SIZE + of_nat (4096 * k) = j + of_nat (4096 * Suc k)" for k
    by (simp add: PAGE_SIZE_def)
  note vm = vmm_map_leaf [of s root "virt j" "phys j" flags, folded s1_def]
  have pre: "vm_inv s root" "3 \<le> length (stack_list s)" using Suc.prems(1,2) by simp_all
  obtain ps where ps: "length ps \<le> 3" "stack_list s = stack_list s1 @ ps"
    using vm(3) [OF pre] by blast
  have len: "length (stack_list s) = length (stack_list s1) + length ps"
    unfolding ps(2) by simp
  have run: "3 * n \<le> length (stack_list s1)" "unat limit \<le> unat (j + PAGE_SIZE) + 4096 * n"
    "n = 0 \<or> unat (j + PAGE_SIZE) + 4096 * (n - 1) < unat limit"
    using Suc.prems(2-4) ps(1) len j1 by (auto simp: algebra_simps nat_diff_split)
  have sep: "\<not> same_page (virt (j + PAGE_SIZE + of_nat (4096 * k))) (virt (j + PAGE_SIZE + of_nat (4096 * l)))"
    if "k < l" "l < n" for k l
    unfolding shift using Suc.prems(6) [of "Suc k" "Suc l"] that by simp
  obtain s' where s': "map_range virt phys (HIGHER_HALF s1 root) flags (j + PAGE_SIZE) limit s1 = Some s'" "vm_inv s' root"
    "\<And>k. k < n \<Longrightarrow> leaf s' root (virt (j + of_nat (4096 * Suc k))) = (phys (j + of_nat (4096 * Suc k)) OR flags)"
    "\<And>v. (\<And>k. k < n \<Longrightarrow> \<not> same_page v (virt (j + of_nat (4096 * Suc k)))) \<Longrightarrow> leaf s' root v = leaf s1 root v"
    using Suc.IH [OF vm(1) [OF pre] run Suc.prems(5) sep] unfolding shift by blast
  have "map_range virt phys (HIGHER_HALF s root) flags j limit s = Some s'"
    using s'(1) lt same_setup_simps(4) [OF vm(2) [OF pre]] by (subst map_range.simps) (simp add: s1_def)
  moreover have "leaf s' root (virt (j + of_nat (4096 * k))) = (phys (j + of_nat (4096 * k)) OR flags)" if "k < Suc n" for k
  proof (cases k)
    case 0
    have "leaf s' root (virt j) = leaf s1 root (virt j)"
    proof (rule s'(4))
      show "\<not> same_page (virt j) (virt (j + of_nat (4096 * Suc k)))" if "k < n" for k
        using Suc.prems(6) [of 0 "Suc k"] that by (simp del: of_nat_mult mult_Suc_right)
    qed
    with 0 vm(4) [OF pre] show ?thesis by (simp add: same_page_def)
  next
    case (Suc l)
    with s'(3) [of l] that show ?thesis by simp
  qed
  moreover have "leaf s' root v = leaf s root v"
    if "\<And>k. k < Suc n \<Longrightarrow> \<not> same_page v (virt (j + of_nat (4096 * k)))" for v
  proof -
    have "leaf s' root v = leaf s1 root v"
      by (rule s'(4)) (use that in \<open>simp del: of_nat_mult mult_Suc_right\<close>)
    with vm(4) [OF pre] that [of 0] show ?thesis by simp
  qed
  ultimately show ?case
    using s'(2) by blast
qed


text \<open>A new address space: its lower half is empty, its upper half is the kernel's.\<close>

lemma aligned_apart:
  assumes "page_aligned p" "page_aligned q" "p \<noteq> q"
  shows "4096 \<le> unat (p - q)"
proof -
  have "HIGHER_HALF s p \<notin> page_frame s q" for s
  proof -
    have "HIGHER_HALF s p \<in> page_frame s p" by (simp add: page_frame_def region_def)
    then show ?thesis using page_frame_disjoint [OF assms, of s] by blast
  qed
  then show ?thesis
    by (simp add: page_frame_def region_def HIGHER_HALF_def not_less)
qed

lemma upper_half_copy:
  fixes P K :: u64
  assumes m': "\<And>x. m' x = (if unat (x - (P + 2048)) < 2048 then m (K + 2048 + (x - (P + 2048))) else m x)"
    and "n < 4096"
  shows "m' (P + of_nat n) = (if n < 2048 then m (P + of_nat n) else m (K + of_nat n))"
proof (cases "n < 2048")
  case True
  have "unat (of_nat n - 2048 :: u64) = 2 ^ 64 - 2048 + n"
    using True by (subst unat_sub_if') (simp add: unat_of_nat)
  then have "\<not> unat (P + of_nat n - (P + 2048)) < 2048"
    by simp
  with True show ?thesis by (simp only: m') simp
next
  case False
  then have o: "P + of_nat n - (P + 2048) = of_nat (n - 2048)"
    by (simp add: of_nat_diff)
  have "unat (of_nat (n - 2048) :: u64) < 2048"
    using assms(2) False by (simp add: unat_of_nat del: of_nat_diff)
  moreover have "K + 2048 + of_nat (n - 2048) = K + of_nat n"
    using False by (simp add: of_nat_diff)
  ultimately show ?thesis
    using False by (simp only: m' o) simp
qed

lemma slot_offset:
  fixes i :: u64
  assumes "i < 512" and "r < 8"
  obtains n where "n < 4096" "n < 2048 \<longleftrightarrow> i < 256" "\<And>a. a + 8 * i + of_nat r = a + of_nat n"
proof
  have u: "unat i < 512" using assms(1) by (simp add: word_less_nat_alt)
  then show "8 * unat i + r < 4096" using assms(2) by simp
  show "8 * unat i + r < 2048 \<longleftrightarrow> i < 256"
    using assms(2) by (simp add: word_less_nat_alt) linarith
  show "a + 8 * i + of_nat r = a + of_nat (8 * unat i + r)" for a
    by (simp add: add.assoc)
qed

lemma vmm_new_pagemap_mem:
  assumes inv: "vm_inv (frames v) kroot" and free: "stack_list (frames v) = ps @ [q]"
    and k: "kernel_pagemap v = HIGHER_HALF (frames v) kroot" "kernel_pagemap v \<noteq> NULL"
  shows "\<exists>v'. vmm_new_pagemap v = (HIGHER_HALF (frames v) q, v') \<and>
    same_setup (frames v) (frames v') \<and> pmm_inv (frames v') \<and> stack_list (frames v') = ps \<and>
    (\<forall>x. x \<notin> page_frame (frames v) q \<longrightarrow> mem (frames v') x = mem (frames v) x) \<and>
    (\<forall>i < 512. entry_get (frames v') (HIGHER_HALF (frames v) q) i =
       (if i < 256 then 0 else entry_get (frames v) (kernel_pagemap v) i))"
proof -
  let ?s = "frames v" and ?K = "kernel_pagemap v"
  let ?P = "HIGHER_HALF ?s q"
  note vi = vm_invD [OF inv]
  obtain s1 where s1: "pmm_request_page ?s = (q, s1)" "pmm_inv s1" "stack_list s1 = ps" "same_setup ?s s1"
    "mem s1 = block_fill (mem ?s) ?P 0 4096"
    using request_top [OF vi(1) free] by metis
  have ok: "frame_ok ?s q" using vi(1) free by (auto simp: pmm_inv_def)
  have q: "page_aligned q" "?P \<noteq> 0" "page_frame ?s q \<inter> stack_region ?s = {}" "q \<noteq> kroot"
    using ok free vi(4) [of "[]"] by (auto simp: frame_ok_def path_def)
  define m2 where "m2 = memcpy (mem s1) (?P + 2048) (?K + 2048) 2048"
  define v' where "v' = v\<lparr>frames := s1\<lparr>mem := m2\<rparr>\<rparr>"
  have zero: "memset (mem s1) ?P 0 PAGE_SIZE = mem s1"
    by (simp add: memset_page s1(5) block_fill_def fun_eq_iff)
  have res: "vmm_new_pagemap v = (?P, v')"
    using s1(1) q(2) k(2) same_setup_simps(4) [OF s1(4)] zero
    by (simp add: vmm_new_pagemap_def m2_def v'_def Let_def)
  have m2: "m2 x = (if unat (x - (?P + 2048)) < 2048 then mem s1 (?K + 2048 + (x - (?P + 2048))) else mem s1 x)" for x
  proof -
    have "unat (?P + 2048 - (?K + 2048)) = unat (q - kroot)"
      by (simp add: k(1) HIGHER_HALF_def)
    then have "(2048 :: nat) \<le> unat (?P + 2048 - (?K + 2048))"
      using aligned_apart [OF q(1) vi(2) q(4)] by simp
    then show ?thesis
      by (simp add: m2_def memcpy_def memcpy_loop_copy block_copy_def)
  qed
  have sub: "unat (x - ?P) < 4096" if "unat (x - (?P + 2048)) < 2048" for x
  proof -
    have "x - ?P = (x - (?P + 2048)) + 2048" by simp
    then have "unat (x - ?P) = unat (x - (?P + 2048)) + 2048"
      using that by (simp only:) (subst unat_plus_no_wrap, simp_all)
    with that show ?thesis by simp
  qed
  have frame: "m2 x = mem ?s x" if "x \<notin> page_frame ?s q" for x
    using that sub [of x] by (auto simp: m2 s1(5) block_fill_def page_frame_def region_def)
  have "entry_get (frames v') ?P i = (if i < 256 then 0 else entry_get ?s ?K i)" if i: "i < 512" for i
  proof -
    have "load64 m2 (?P + 8 * i) = load64 (if i < 256 then (\<lambda>_. 0) else mem ?s) (?K + 8 * i)"
    proof (rule load64_cong)
      fix r :: nat assume "r < 8"
      with i obtain n where n: "n < 4096" "n < 2048 \<longleftrightarrow> i < 256" "\<And>a. a + 8 * i + of_nat r = a + of_nat n"
        by (rule slot_offset) blast
      have "?P + of_nat n \<in> page_frame ?s q" "?K + of_nat n \<in> page_frame ?s kroot"
        unfolding page_frame_def k(1) using n(1) by (auto intro: in_region_offset)
      then have "mem s1 (?P + of_nat n) = 0" "mem s1 (?K + of_nat n) = mem ?s (?K + of_nat n)"
        using page_frame_disjoint [OF q(1) vi(2) q(4), of ?s]
        by (auto simp: s1(5) block_fill_def page_frame_def region_def)
      then show "m2 (?P + 8 * i + of_nat r) = (if i < 256 then (\<lambda>_. 0) else mem ?s) (?K + 8 * i + of_nat r)"
        unfolding n(3) using upper_half_copy [of m2 ?P "mem s1" ?K, OF m2 n(1)] n(2) by simp
    qed
    then show ?thesis
      by (simp add: entry_get_def v'_def) (simp add: load64_def)
  qed
  moreover have "pmm_inv (frames v')" "stack_list (frames v') = ps"
  proof -
    have "cache_sound (frames v')"
      using s1(2) by (simp add: v'_def pmm_inv_def cache_sound_def usable_page_def)
    moreover have "same_setup s1 (frames v')" "stack_idx (frames v') = stack_idx s1"
      by (simp_all add: v'_def same_setup_def)
    moreover have "mem (frames v') x = mem s1 x" if "x \<in> stack_region s1" for x
      using that q(3) same_setup_simps(2) [OF s1(4)] frame [of x]
      by (auto simp: v'_def s1(5) block_fill_def page_frame_def region_def)
    ultimately show "pmm_inv (frames v')" "stack_list (frames v') = ps"
      using pmm_inv_frame [OF s1(2)] s1(3) by blast+
  qed
  moreover have "same_setup ?s (frames v')"
    using s1(4) by (simp add: v'_def same_setup_def)
  ultimately show ?thesis
    using res frame by (intro exI [of _ v']) (simp add: v'_def)
qed


lemma table_at_Cons: "table_at s root (i # js) = fold (table_step s) js (table_step s i (Some root))"
  by (simp add: table_at_def)

lemma new_space_tables:
  assumes inv: "vm_inv s kroot" and q: "q \<in> set (stack_list s)"
    and hh: "hhdm_offset s' = hhdm_offset s"
    and frame: "\<forall>x. x \<notin> page_frame s q \<longrightarrow> mem s' x = mem s x"
    and ent: "\<forall>i < 512. entry_get s' (HIGHER_HALF s q) i =
       (if i < 256 then 0 else entry_get s (HIGHER_HALF s kroot) i)"
  shows "\<And>js p j. path js \<Longrightarrow> table_at s kroot js = Some p \<Longrightarrow> j < 512 \<Longrightarrow>
      entry_get s' (HIGHER_HALF s p) j = entry_get s (HIGHER_HALF s p) j"
    "\<And>js. path js \<Longrightarrow> table_at s' kroot js = table_at s kroot js"
    "\<And>i js. path (i # js) \<Longrightarrow> table_at s' q (i # js) = (if i < 256 then None else table_at s kroot (i # js))"
proof -
  note vi = vm_invD [OF inv]
  have qa: "page_aligned q" using vi(1) q by (auto simp: pmm_inv_def frame_ok_def)
  show keep: "entry_get s' (HIGHER_HALF s p) j = entry_get s (HIGHER_HALF s p) j"
    if "path js" "table_at s kroot js = Some p" "j < 512" for js p j
  proof (rule entry_get_cong [OF hh that(3)])
    have "p \<noteq> q" using vi(4) [OF that(1,2)] q by blast
    then have "page_frame s p \<inter> page_frame s q = {}"
      using page_frame_disjoint table_at_aligned [OF vi(2) that(2)] qa by blast
    then show "mem s' x = mem s x" if "x \<in> page_frame s p" for x
      using that frame by blast
  qed
  show tab: "table_at s' kroot js = table_at s kroot js" if "path js" for js
    by (rule table_at_change [where K = "\<lambda>_. False", OF hh]) (use keep that in auto)
  have H: "HIGHER_HALF s' = HIGHER_HALF s" using hh by (simp add: HIGHER_HALF_def fun_eq_iff)
  show "table_at s' q (i # js) = (if i < 256 then None else table_at s kroot (i # js))" if "path (i # js)" for i js
  proof -
    have i: "i < 512" using that by (simp add: path_def)
    have "table_step s' i (Some q) = (if i < 256 then None else table_step s' i (Some kroot))"
      using ent i keep [of "[]" kroot i] i by (simp add: table_step_def H path_def)
    moreover have "fold (table_step s') js None = None"
      by (induction js) (simp_all add: table_step_def)
    ultimately show ?thesis
      using tab [OF that] by (simp add: table_at_Cons)
  qed
qed

lemma new_space_inv:
  assumes inv: "vm_inv s kroot" and q: "q \<in> set (stack_list s)" and su: "same_setup s s'"
    and pm: "pmm_inv s'" "set (stack_list s') \<subseteq> set (stack_list s) - {q}"
    and frame: "\<forall>x. x \<notin> page_frame s q \<longrightarrow> mem s' x = mem s x"
    and ent: "\<forall>i < 512. entry_get s' (HIGHER_HALF s q) i =
       (if i < 256 then 0 else entry_get s (HIGHER_HALF s kroot) i)"
  shows "vm_inv s' kroot" "vm_inv s' q"
    "leaf s' q v = (if pml4_idx v < 256 then 0 else leaf s kroot v)"
proof -
  note vi = vm_invD [OF inv]
  have hh: "hhdm_offset s' = hhdm_offset s" using su by (simp add: same_setup_def)
  note nt = new_space_tables [OF inv q hh frame ent]
  have qok: "page_aligned q" "page_frame s q \<inter> stack_region s = {}"
    using vi(1) q by (auto simp: pmm_inv_def frame_ok_def)
  show "vm_inv s' kroot"
    by (rule vm_inv_keep [OF inv pm(1) su _ nt(2)]) (use pm(2) in auto)
  have cases: "js = [] \<and> p = q \<or> js \<noteq> [] \<and> table_at s kroot js = Some p"
    if "path js" "table_at s' q js = Some p" for js p
    using that nt(3) by (cases js) (auto split: if_splits)
  have notq: "table_at s kroot js \<noteq> Some q" if "path js" for js
    using vi(4) [OF that] q by blast
  note sim = same_setup_simps [OF su]
  show "vm_inv s' q"
  proof (rule vm_invI)
    show "pmm_inv s'" "page_aligned q" by (rule pm qok)+
    show "is = js" if "path is" "path js" "table_at s' q is = Some p" "table_at s' q js = Some p" for "is" js p
      using cases [OF that(1,3)] cases [OF that(2,4)] vi(3) [OF that(1,2)] notq that(1,2) by auto
    show "p \<notin> set (stack_list s')" if "path is" "table_at s' q is = Some p" for "is" p
      using cases [OF that] vi(4) [OF that(1), of p] pm(2) by auto
    show "page_frame s' p \<inter> stack_region s' = {}" if "path is" "table_at s' q is = Some p" for "is" p
      using cases [OF that] vi(5) [OF that(1), of p] qok(2) sim by auto
  qed
  show "leaf s' q v = (if pml4_idx v < 256 then 0 else leaf s kroot v)"
    using nt(3) [OF path_3(1) [of v]] nt(1) [OF path_3(1) [of v] _ idx_less(1) [of v]] sim(4)
    by (simp add: leaf_def split: option.split)
qed



section \<open>Properties\<close>

text \<open>
  A small address space to instantiate the properties with: eight free pages and an empty top-level
  table at \<open>0x1000\<close>.
\<close>

definition paging_base :: pmm where
  "paging_base = one_page_pmm\<lparr>mem := (\<lambda>_. 0), stack_idx := 0, stack_max := 12,
     memmap := [\<lparr>me_base = 0x1000, me_length = 0x10000, me_type = LIMINE_MEMMAP_USABLE\<rparr>]\<rparr>"

definition paging_pmm :: pmm where
  "paging_pmm = fold (\<lambda>p s. push_page s p) [0x2000, 0x3000, 0x4000, 0x5000, 0x6000, 0x7000, 0x8000, 0x9000, 0xa000, 0xb000, 0xc000, 0xd000] paging_base"

lemma paging_fields:
  "stack_list paging_pmm = [0x2000, 0x3000, 0x4000, 0x5000, 0x6000, 0x7000, 0x8000, 0x9000, 0xa000, 0xb000, 0xc000, 0xd000]"
  "same_setup paging_base paging_pmm" "stack_idx paging_pmm = 12"
  "valid_page_cache paging_pmm = valid_page_cache paging_base"
  "\<And>x. x \<notin> stack_region paging_base \<Longrightarrow> mem paging_pmm x = 0"
proof -
  let ?ps = "[0x2000, 0x3000, 0x4000, 0x5000, 0x6000, 0x7000, 0x8000, 0x9000, 0xa000, 0xb000, 0xc000, 0xd000] :: u64 list"
  have i0: "unat (stack_idx paging_base) = 0" and l0: "stack_list paging_base = []"
    and z: "mem paging_base = (\<lambda>_. 0)"
    by (simp_all add: paging_base_def one_page_pmm_def stack_list_def)
  have "unat (stack_idx paging_base) + length ?ps \<le> 2 ^ 60" by (simp add: i0)
  note fp = fold_push_page [OF this, folded paging_pmm_def]
  show "stack_list paging_pmm = ?ps" using fp(1) l0 by simp
  show "same_setup paging_base paging_pmm" "valid_page_cache paging_pmm = valid_page_cache paging_base"
  proof -
    obtain m i where e: "paging_pmm = paging_base\<lparr>mem := m, stack_idx := i\<rparr>"
      using fp(3) by blast
    show "same_setup paging_base paging_pmm" "valid_page_cache paging_pmm = valid_page_cache paging_base"
      unfolding e by (simp_all add: same_setup_def)
  qed
  show "stack_idx paging_pmm = 12"
    using fp(2) i0 by (simp add: word_unat_eq_iff)
  show "mem paging_pmm x = 0" if "x \<notin> stack_region paging_base" for x
  proof -
    have "8 * (unat (stack_idx paging_base) + length ?ps) = 8 * unat (stack_max paging_base)"
      by (simp add: i0) (simp add: paging_base_def)
    with fp(4) [of x] that z show ?thesis by (simp only: stack_region_def) simp
  qed
qed

lemma paging_frame:
  assumes "p \<in> {0x1000, 0x2000, 0x3000, 0x4000, 0x5000, 0x6000, 0x7000, 0x8000, 0x9000, 0xa000, 0xb000, 0xc000, 0xd000}"
  shows "frame_ok paging_base p"
proof -
  have "region (p + 0xffff800000000000) 4096 \<inter> region (0x100000 + 0xffff800000000000) 96 = {}"
    by (rule region_disjoint) (use assms in auto)
  with assms show ?thesis
    by (auto simp: frame_ok_def page_frame_def stack_region_def paging_base_def one_page_pmm_def HIGHER_HALF_def
        page_aligned_def PAGE_SIZE_def usable_page_def entry_covers_def)
qed

lemma paging_inv: "vm_inv paging_pmm 0x1000" "leaf paging_pmm 0x1000 v = 0" "tables paging_pmm 0x1000 = {0x1000}"
proof -
  note su = same_setup_simps [OF paging_fields(2)]
  have max: "stack_max paging_pmm = 12"
    using paging_fields(2) by (simp add: same_setup_def paging_base_def)
  have sound: "cache_sound paging_pmm"
    by (simp add: cache_sound_def paging_fields(4)) (simp add: paging_base_def one_page_pmm_def no_page_def)
  have inv: "pmm_inv paging_pmm"
    using paging_frame sound by (simp add: pmm_inv_def paging_fields(1,3) su(5) max)
  have ok: "frame_ok paging_pmm 0x1000"
    using paging_frame by (simp add: su(5))
  have zero: "entry_get paging_pmm (HIGHER_HALF paging_pmm 0x1000) j = 0" if "j < 512" for j
  proof -
    have "load64 (mem paging_pmm) (HIGHER_HALF paging_pmm 0x1000 + 8 * j) =
        load64 (\<lambda>_. 0) (HIGHER_HALF paging_pmm 0x1000 + 8 * j)"
    proof (rule load64_region)
      fix x assume "x \<in> region (HIGHER_HALF paging_pmm 0x1000 + 8 * j) 8"
      then have "x \<in> page_frame paging_pmm 0x1000"
        using slot_region [OF that] by (auto simp: page_frame_def)
      then have "x \<notin> stack_region paging_base"
        using ok su(2) by (auto simp: frame_ok_def)
      then show "mem paging_pmm x = 0" by (rule paging_fields(5))
    qed
    then show ?thesis by (simp add: entry_get_def load64_def)
  qed
  have side: "page_aligned 0x1000" "0x1000 \<notin> set (stack_list paging_pmm)"
    "page_frame paging_pmm 0x1000 \<inter> stack_region paging_pmm = {}"
    using ok by (simp_all add: frame_ok_def paging_fields(1))
  show "vm_inv paging_pmm 0x1000" by (rule vm_inv_empty(1) [OF inv side zero])
  show "leaf paging_pmm 0x1000 v = 0" by (rule vm_inv_empty(2) [OF inv side zero])
  show "tables paging_pmm 0x1000 = {0x1000}" by (rule vm_inv_empty(3) [OF inv side zero])
qed


text \<open>
  C1: Mapping a page in a well-formed address space with three free pages at hand makes the page
  translate to the given physical address with the given flags in its entry. The translation of every
  other page, told apart by the address bits 12 to 47, stays as it was; at most three pages are
  taken, from the end of the free list; and the address space stays well-formed.
\<close>

theorem vmm_map_correct:
  assumes "vm_inv s root" and "3 \<le> length (stack_list s)" and "pagemap = HIGHER_HALF s root"
    and "page_aligned phys" and "phys < 2 ^ 52" and "flags AND ADDR_MASK = 0"
    and "s' = vmm_map s pagemap virt phys flags"
  shows "leaf s' root virt = (phys OR flags) \<and>
    (\<forall>v. virt_to_phys s' pagemap v =
       (if \<forall>n. 12 \<le> n \<and> n < 48 \<longrightarrow> bit v n = bit virt n then phys else virt_to_phys s pagemap v)) \<and>
    (\<exists>ps. length ps \<le> 3 \<and> stack_list s = stack_list s' @ ps) \<and> vm_inv s' root"
proof -
  note vm = vmm_map_leaf [OF assms(1,2), of virt phys flags, folded assms(3), folded assms(7)]
  have H: "pagemap = HIGHER_HALF s' root"
    using same_setup_simps(4) [OF vm(2)] assms(3) by simp
  have "(phys OR flags) AND ADDR_MASK = phys"
    using masked_id [OF assms(4,5)] assms(6) by (simp add: bit.conj_disj_distrib2)
  then have "virt_to_phys s' pagemap v =
      (if same_page v virt then phys else virt_to_phys s pagemap v)" for v
    using vm(4) [of v] virt_to_phys_leaf [of s' root v] virt_to_phys_leaf [of s root v] H assms(3) by simp
  moreover have "same_page virt virt" by (simp add: same_page_def)
  ultimately show ?thesis
    using vm by (simp add: same_page_iff)
qed

theorem vmm_map_correct_witness:
  "virt_to_phys (vmm_map paging_pmm (HIGHER_HALF paging_pmm 0x1000) 0x400000 0xb000 (VMM_PRESENT OR VMM_WRITE))
     (HIGHER_HALF paging_pmm 0x1000) 0x400000 = 0xb000"
proof -
  have "3 \<le> length (stack_list paging_pmm)" "page_aligned 0xb000" "(0xb000 :: u64) < 2 ^ 52"
    "(VMM_PRESENT OR VMM_WRITE) AND ADDR_MASK = 0"
    by (simp_all add: paging_fields page_aligned_def PAGE_SIZE_def VMM_PRESENT_def VMM_WRITE_def ADDR_MASK_def)
  from vmm_map_correct [OF paging_inv(1) this(1) refl this(2-4) refl] show ?thesis
    by simp
qed

text \<open>
  C27: Unmapping a page in a well-formed address space makes it translate to 0, keeps the translation
  of every other page, takes and returns no physical page and keeps the address space well-formed.
\<close>

theorem vmm_unmap_correct:
  assumes "vm_inv s root" and "pagemap = HIGHER_HALF s root" and "s' = vmm_unmap s pagemap virt"
  shows "leaf s' root virt = 0 \<and>
    (\<forall>v. virt_to_phys s' pagemap v =
       (if \<forall>n. 12 \<le> n \<and> n < 48 \<longrightarrow> bit v n = bit virt n then 0 else virt_to_phys s pagemap v)) \<and>
    stack_list s' = stack_list s \<and> vm_inv s' root"
proof -
  note um = vmm_unmap_leaf [OF assms(1), of virt, folded assms(2), folded assms(3)]
  have "HIGHER_HALF s' = HIGHER_HALF s"
    by (simp add: assms(3) vmm_unmap_def Let_def)
  then have "virt_to_phys s' pagemap v =
      (if same_page v virt then 0 else virt_to_phys s pagemap v)" for v
    using um virt_to_phys_leaf [of s' root v] virt_to_phys_leaf [of s root v] assms(2) by simp
  moreover have "same_page virt virt" by (simp add: same_page_def)
  ultimately show ?thesis
    using um by (simp add: same_page_iff)
qed

theorem vmm_unmap_correct_witness:
  "virt_to_phys (vmm_unmap paging_pmm (HIGHER_HALF paging_pmm 0x1000) 0x400000)
     (HIGHER_HALF paging_pmm 0x1000) 0x400000 = 0"
  using vmm_unmap_correct [OF paging_inv(1) refl refl] by simp

text \<open>
  The loop that maps a region maps each of its pages, changes no other translation, ends, and
  keeps the address space well-formed, given three free pages for each page of the region and
  addresses that lie in different pages.
\<close>

theorem map_range_correct:
  assumes "vm_inv s root" and "3 * n \<le> length (stack_list s)"
    and "unat limit \<le> unat j + 4096 * n" "n = 0 \<or> unat j + 4096 * (n - 1) < unat limit" "unat limit + 4096 \<le> 2 ^ 64"
    and "\<And>k l. k < l \<Longrightarrow> l < n \<Longrightarrow> \<not> same_page (virt (j + of_nat (4096 * k))) (virt (j + of_nat (4096 * l)))"
  shows "\<exists>s'. map_range virt phys (HIGHER_HALF s root) flags j limit s = Some s' \<and> vm_inv s' root \<and>
    (\<forall>k < n. leaf s' root (virt (j + of_nat (4096 * k))) = (phys (j + of_nat (4096 * k)) OR flags)) \<and>
    (\<forall>v. (\<forall>k < n. \<not> same_page v (virt (j + of_nat (4096 * k)))) \<longrightarrow> leaf s' root v = leaf s root v)"
  using assms by (rule map_range_leaf)

theorem map_range_correct_witness:
  "\<exists>s'. map_range (\<lambda>j. j) (\<lambda>j. j + 0x7000) (HIGHER_HALF paging_pmm 0x1000) VMM_PRESENT 0x400000 0x401000 paging_pmm
     = Some s' \<and> leaf s' 0x1000 0x400000 = 0x407001"
  using map_range_correct [OF paging_inv(1), of 1 "0x401000" "0x400000" "\<lambda>j. j" "\<lambda>j. j + 0x7000" VMM_PRESENT]
  by (auto simp: paging_fields VMM_PRESENT_def)

text \<open>
  C28: A new address space translates no address of the lower half and translates the upper half
  exactly as the kernel's address space does; both address spaces are well-formed afterwards, and its
  top-level table was a free page.
\<close>

theorem vmm_new_pagemap_correct:
  assumes "vm_inv (frames v) kroot" and "stack_list (frames v) \<noteq> []"
    and "kernel_pagemap v = HIGHER_HALF (frames v) kroot" and "kernel_pagemap v \<noteq> NULL"
    and "vmm_new_pagemap v = (pagemap, v')"
  shows "(\<forall>virt. virt_to_phys (frames v') pagemap virt =
      (if pml4_idx virt < 256 then 0 else virt_to_phys (frames v) (kernel_pagemap v) virt)) \<and>
    (\<exists>root \<in> set (stack_list (frames v)). pagemap = HIGHER_HALF (frames v') root \<and> vm_inv (frames v') root) \<and>
    vm_inv (frames v') kroot"
proof -
  obtain ps q where l: "stack_list (frames v) = ps @ [q]"
    using assms(2) by (metis rev_exhaust)
  then have q: "q \<in> set (stack_list (frames v))" by simp
  have np: "pagemap = HIGHER_HALF (frames v) q" "same_setup (frames v) (frames v')" "pmm_inv (frames v')"
      "stack_list (frames v') = ps"
      "\<forall>x. x \<notin> page_frame (frames v) q \<longrightarrow> mem (frames v') x = mem (frames v) x"
      "\<forall>i < 512. entry_get (frames v') (HIGHER_HALF (frames v) q) i =
         (if i < 256 then 0 else entry_get (frames v) (HIGHER_HALF (frames v) kroot) i)"
    using vmm_new_pagemap_mem [OF assms(1) l assms(3,4)] by (simp_all only: assms(5) assms(3)) auto
  have "set (stack_list (frames v')) \<subseteq> set (stack_list (frames v)) - {q}"
    using vm_invD(1) [OF assms(1)] l np(4) by (auto simp: pmm_inv_def)
  note ni = new_space_inv [OF assms(1) q np(2,3) this np(5,6)]
  have pm: "pagemap = HIGHER_HALF (frames v') q"
    using np(1) same_setup_simps(4) [OF np(2)] by simp
  have "virt_to_phys (frames v') pagemap virt =
      (if pml4_idx virt < 256 then 0 else virt_to_phys (frames v) (kernel_pagemap v) virt)" for virt
    unfolding pm assms(3) virt_to_phys_leaf ni(3) by simp
  with ni(1,2) pm q show ?thesis by blast
qed

theorem vmm_new_pagemap_correct_witness:
  "\<exists>pagemap v'. vmm_new_pagemap \<lparr>frames = paging_pmm, kernel_pagemap = HIGHER_HALF paging_pmm 0x1000, cr3 = 0\<rparr>
      = (pagemap, v') \<and> virt_to_phys (frames v') pagemap 0x400000 = 0"
proof -
  let ?v = "\<lparr>frames = paging_pmm, kernel_pagemap = HIGHER_HALF paging_pmm 0x1000, cr3 = 0\<rparr>"
  obtain pagemap v' where r: "vmm_new_pagemap ?v = (pagemap, v')" by force
  have "HIGHER_HALF paging_pmm 0x1000 \<noteq> 0"
    using paging_frame [of "0x1000"] same_setup_simps(4) [OF paging_fields(2)] by (simp add: frame_ok_def)
  then have "virt_to_phys (frames v') pagemap 0x400000 = 0"
    using vmm_new_pagemap_correct [OF _ _ _ _ r, of "0x1000"] paging_inv(1)
    by (simp add: paging_fields(1) pml4_idx_def)
  with r show ?thesis by blast
qed

end
