(* ===== verification/Vma.thy ===== *)
theory Vma
  imports Vmm
begin

text \<open>
  Virtual memory areas, \<open>kernel/src/mm/vma.c\<close> and \<open>vma.h\<close>, and the hooks that hand them to the
  heap, \<open>kernel/src/mm/liballoc/liballoc_wrappers.c\<close>. A context and its doubly linked list of
  regions are structs in pages of the physical allocator; the model keeps them where the code keeps
  them, in the kernel memory, at the offsets the C layout gives the fields.
\<close>

section \<open>The structs\<close>

definition VMA_START :: u64 where
  "VMA_START = PAGE_SIZE"

text \<open>\<open>struct vma_region\<close>: \<open>start\<close>, \<open>size\<close>, \<open>flags\<close>, \<open>next\<close>, \<open>prev\<close>, eight bytes each.\<close>

definition region_start :: "pmm \<Rightarrow> u64 \<Rightarrow> u64" where "region_start s r = load64 (mem s) r"
definition region_size :: "pmm \<Rightarrow> u64 \<Rightarrow> u64" where "region_size s r = load64 (mem s) (r + 8)"
definition region_flags :: "pmm \<Rightarrow> u64 \<Rightarrow> u64" where "region_flags s r = load64 (mem s) (r + 16)"
definition region_next :: "pmm \<Rightarrow> u64 \<Rightarrow> u64" where "region_next s r = load64 (mem s) (r + 24)"
definition region_prev :: "pmm \<Rightarrow> u64 \<Rightarrow> u64" where "region_prev s r = load64 (mem s) (r + 32)"

text \<open>\<open>struct vma_context\<close>: \<open>pagemap\<close>, \<open>root\<close>.\<close>

definition ctx_pagemap :: "pmm \<Rightarrow> u64 \<Rightarrow> u64" where "ctx_pagemap s c = load64 (mem s) c"
definition ctx_root :: "pmm \<Rightarrow> u64 \<Rightarrow> u64" where "ctx_root s c = load64 (mem s) (c + 8)"

definition write64 :: "u64 \<Rightarrow> u64 \<Rightarrow> pmm \<Rightarrow> pmm" where
  "write64 a v s = s\<lparr>mem := store64 (mem s) a v\<rparr>"

definition clear :: "u64 \<Rightarrow> u64 \<Rightarrow> pmm \<Rightarrow> pmm" where
  "clear a n s = s\<lparr>mem := memset (mem s) a 0 n\<rparr>"


section \<open>Creating and destroying a context\<close>

definition vma_create_context :: "pmm \<Rightarrow> u64 \<Rightarrow> u64 \<times> pmm" where
  "vma_create_context s pagemap =
     (let (p, s1) = pmm_request_page s; ctx = HIGHER_HALF s1 p in
      if ctx = NULL then (NULL, s1)
      else
        let s2 = clear ctx 16 s1;
            (q, s3) = pmm_request_page s2;
            root = HIGHER_HALF s3 q;
            s4 = write64 (ctx + 8) root s3
        in if root = NULL then (NULL, pmm_release_page s4 (PHYSICAL s4 ctx))
           else
             let s5 = write64 ctx pagemap s4;
                 s6 = write64 (ctx_root s5 ctx) VMA_START s5;
                 s7 = write64 (ctx_root s6 ctx + 8) 0 s6
             in (ctx, s7))"

partial_function (option) destroy_regions :: "pmm \<Rightarrow> u64 \<Rightarrow> pmm option" where
  "destroy_regions s rg =
     (if rg = NULL then Some s
      else
        let next = region_next s rg in
        destroy_regions (pmm_release_page s (PHYSICAL s rg)) next)"

definition vma_destroy_context :: "pmm \<Rightarrow> u64 \<Rightarrow> pmm option" where
  "vma_destroy_context s ctx =
     (if ctx = NULL then None
      else if ctx_root s ctx = NULL \<or> ctx_pagemap s ctx = NULL then Some s
      else do { s' \<leftarrow> destroy_regions s (ctx_root s ctx);
                Some (pmm_release_page s' (PHYSICAL s' ctx)) })"


section \<open>Allocating\<close>

text \<open>The search for a region that is last or is followed by a gap; \<open>NULL\<close> when there is none.\<close>

partial_function (option) find_gap :: "pmm \<Rightarrow> u64 \<Rightarrow> u64 option" where
  "find_gap s rg =
     (if rg = NULL then Some NULL
      else if region_next s rg = NULL \<or>
              region_start s rg + region_size s rg < region_start s (region_next s rg)
      then Some rg
      else find_gap s (region_next s rg))"

text \<open>
  The loop that backs the \<open>n\<close> pages of a region from page \<open>i\<close> on. The flag tells whether it ran to
  its end; it stops when the physical allocator has no page.
\<close>

primrec back_region :: "nat \<Rightarrow> u64 \<Rightarrow> u64 \<Rightarrow> u64 \<Rightarrow> pmm \<Rightarrow> bool \<times> pmm" where
  "back_region 0 ctx rg i s = (True, s)"
| "back_region (Suc n) ctx rg i s =
     (let (page, s1) = pmm_request_page s in
      if page = 0 then (False, s1)
      else back_region n ctx rg (i + 1)
             (vmm_map s1 (ctx_pagemap s1 ctx) (region_start s1 rg + i * PAGE_SIZE) page
               (region_flags s1 rg)))"

definition vma_alloc :: "pmm \<Rightarrow> u64 \<Rightarrow> u64 \<Rightarrow> u64 \<Rightarrow> (u64 \<times> pmm) option" where
  "vma_alloc s ctx sz flags =
     (if ctx = NULL \<or> ctx_root s ctx = NULL \<or> ctx_pagemap s ctx = NULL then Some (NULL, s)
      else do {
        rg \<leftarrow> find_gap s (ctx_root s ctx);
        let (p, s1) = pmm_request_page s;
        let new_region = HIGHER_HALF s1 p;
        if new_region = NULL then Some (NULL, s1)
        else
          let s2 = clear new_region 40 s1;
              s3 = (if rg \<noteq> NULL
                    then
                      let t1 = write64 (new_region + 8) sz s2;
                          t2 = write64 (new_region + 16) flags t1;
                          t3 = write64 new_region (region_start t2 rg + region_size t2 rg) t2;
                          t4 = write64 (new_region + 24) (region_next t3 rg) t3;
                          t5 = write64 (new_region + 32) rg t4
                      in write64 (rg + 24) new_region t5
                    else
                      let last_region = ctx_root s ctx;
                          t1 = write64 (last_region + 24) new_region s2;
                          t2 = write64 (new_region + 32) last_region t1;
                          t3 = write64 new_region (region_start t2 last_region + region_size t2 last_region) t2;
                          t4 = write64 (new_region + 8) sz t3;
                          t5 = write64 (new_region + 16) flags t4
                      in write64 (new_region + 24) NULL t5);
              (full, s4) = back_region (unat sz) ctx new_region 0 s3
          in Some (if full then region_start s4 new_region else NULL, s4) })"


section \<open>Freeing\<close>

partial_function (option) find_region :: "pmm \<Rightarrow> u64 \<Rightarrow> u64 \<Rightarrow> u64 option" where
  "find_region s rg ptr =
     (if rg = NULL then Some NULL
      else if region_start s rg = ptr then Some rg
      else find_region s (region_next s rg) ptr)"

text \<open>
  The loop that releases the pages of a region, \<open>for (i = 0; i < region->size; i++)\<close>. Its bound is
  read anew in every round.
\<close>

partial_function (option) release_pages :: "u64 \<Rightarrow> u64 \<Rightarrow> u64 \<Rightarrow> u64 \<Rightarrow> pmm \<Rightarrow> pmm option" where
  "release_pages kpm ctx rg i s =
     (if i < region_size s rg
      then
        let virt = region_start s rg + i * PAGE_SIZE;
            p = virt_to_phys s kpm virt;
            s' = (if p \<noteq> 0
                  then let s1 = pmm_release_page s p in vmm_unmap s1 (ctx_pagemap s1 ctx) virt
                  else s)
        in release_pages kpm ctx rg (i + 1) s'
      else Some s)"

definition vma_free :: "vmm \<Rightarrow> u64 \<Rightarrow> u64 \<Rightarrow> vmm option" where
  "vma_free v ctx ptr =
     (if ctx = NULL then Some v
      else do {
        rg \<leftarrow> find_region (frames v) (ctx_root (frames v) ctx) ptr;
        if rg = NULL then Some v
        else do {
          let prev = region_prev (frames v) rg;
          let next = region_next (frames v) rg;
          s1 \<leftarrow> release_pages (kernel_pagemap v) ctx rg 0 (frames v);
          let s2 = (if prev \<noteq> NULL then write64 (prev + 24) next s1 else s1);
          let s3 = (if next \<noteq> NULL then write64 (next + 32) prev s2 else s2);
          let s4 = (if rg = ctx_root s3 ctx then write64 (ctx + 8) next s3 else s3);
          Some (v\<lparr>frames := pmm_release_page s4 (PHYSICAL s4 rg)\<rparr>) } })"


section \<open>The hooks of the heap\<close>

text \<open>
  \<open>liballoc_alloc\<close> and \<open>liballoc_free\<close> take the number of pages as an \<open>int\<close>, which converts to
  the unsigned 64-bit parameter of \<open>vma_alloc\<close> by sign extension.
\<close>

definition liballoc_alloc :: "pmm \<Rightarrow> u64 \<Rightarrow> 32 word \<Rightarrow> (u64 \<times> pmm) option" where
  "liballoc_alloc s kernel_vma_context pages =
     vma_alloc s kernel_vma_context (scast pages) (VMM_PRESENT OR VMM_WRITE)"

definition liballoc_free :: "vmm \<Rightarrow> u64 \<Rightarrow> u64 \<Rightarrow> 32 word \<Rightarrow> vmm option" where
  "liballoc_free v kernel_vma_context ptr pages = vma_free v kernel_vma_context ptr"

end
