(* ===== verification/Heap.thy ===== *)
theory Heap
  imports Vma
begin

text \<open>
  The kernel heap, \<open>kernel/src/mm/liballoc/liballoc.c\<close> with \<open>kmalloc.h\<close>: \<open>kmalloc\<close>, \<open>kfree\<close>,
  \<open>kcalloc\<close> and \<open>krealloc\<close> over blocks of pages that \<open>liballoc_alloc\<close> provides.

  A major block and a minor block start with a header of 40 bytes; \<open>majors\<close> and \<open>minors\<close> hold
  the headers by their address, and \<open>hbytes\<close> is the memory itself, in which \<open>ALIGN\<close> keeps its byte.
  A header that later use of its memory may have overwritten is taken out of \<open>minors\<close>; reading one that
  is not there has no result.
\<close>

section \<open>Data\<close>

definition ALIGNMENT :: u64 where "ALIGNMENT = 16"
definition ALIGN_INFO :: u64 where "ALIGN_INFO = 16"
definition LIBALLOC_MAGIC :: u32 where "LIBALLOC_MAGIC = 0xc001c0de"
definition LIBALLOC_DEAD :: u32 where "LIBALLOC_DEAD = 0xdeaddead"

record liballoc_major =
  j_prev :: u64
  j_next :: u64
  j_pages :: u32
  j_size :: u32
  j_usage :: u32
  j_first :: u64

record liballoc_minor =
  n_prev :: u64
  n_next :: u64
  n_block :: u64
  n_magic :: u32
  n_size :: u32
  n_req :: u32

text \<open>The size of either header.\<close>

definition HDR :: u64 where "HDR = 40"

definition l_pageSize :: u32 where "l_pageSize = 4096"
definition l_pageCount :: u32 where "l_pageCount = 16"

record heap =
  majors :: "u64 \<rightharpoonup> liballoc_major"
  minors :: "u64 \<rightharpoonup> liballoc_minor"
  l_memRoot :: u64
  l_bestBet :: u64
  l_allocated :: u64
  l_inuse :: u64
  l_warningCount :: u64
  l_errorCount :: u64
  l_possibleOverruns :: u64
  hbytes :: mem
  space :: vmm
  kernel_vma_context :: u64
  liballoc_lock_var :: bool

definition major_upd :: "u64 \<Rightarrow> (liballoc_major \<Rightarrow> liballoc_major) \<Rightarrow> heap \<Rightarrow> heap option" where
  "major_upd a f h = do { j \<leftarrow> majors h a; Some (h\<lparr>majors := (majors h)(a \<mapsto> f j)\<rparr>) }"

definition minor_upd :: "u64 \<Rightarrow> (liballoc_minor \<Rightarrow> liballoc_minor) \<Rightarrow> heap \<Rightarrow> heap option" where
  "minor_upd a f h = do { n \<leftarrow> minors h a; Some (h\<lparr>minors := (minors h)(a \<mapsto> f n)\<rparr>) }"

text \<open>Does the header at \<open>x\<close> share a byte with the \<open>n\<close> bytes from \<open>a\<close> on?\<close>

definition touches :: "u64 \<Rightarrow> nat \<Rightarrow> u64 \<Rightarrow> bool" where
  "touches a n x \<longleftrightarrow> unat (x - a) < n \<or> unat (a - x) < 40"

definition wipe :: "u64 \<Rightarrow> nat \<Rightarrow> (u64 \<rightharpoonup> 'a) \<Rightarrow> (u64 \<rightharpoonup> 'a)" where
  "wipe a n f = (\<lambda>x. if touches a n x then None else f x)"

definition liballoc_lock :: "heap \<Rightarrow> heap option" where
  "liballoc_lock h = (if liballoc_lock_var h then None else Some (h\<lparr>liballoc_lock_var := True\<rparr>))"

definition liballoc_unlock :: "heap \<Rightarrow> heap" where
  "liballoc_unlock h = h\<lparr>liballoc_lock_var := False\<rparr>"


section \<open>Alignment\<close>

text \<open>\<open>ALIGN\<close> moves the pointer up by 16 and to a multiple of 16, and leaves the distance 16 bytes below it.\<close>

definition align_diff :: "u64 \<Rightarrow> u64" where
  "align_diff ptr = (let diff = (ptr + ALIGN_INFO) AND (ALIGNMENT - 1) in if diff \<noteq> 0 then ALIGNMENT - diff else 0)"

definition ALIGN :: "u64 \<Rightarrow> heap \<Rightarrow> u64 \<times> heap" where
  "ALIGN ptr h =
     (let p = ptr + ALIGN_INFO + align_diff ptr
      in (p, h\<lparr>hbytes := (hbytes h)(p - ALIGN_INFO := ucast (align_diff ptr + ALIGN_INFO))\<rparr>))"

text \<open>The byte is a signed \<open>char\<close>.\<close>

definition UNALIGN :: "heap \<Rightarrow> u64 \<Rightarrow> u64" where
  "UNALIGN h ptr =
     (let diff = scast (hbytes h (ptr - ALIGN_INFO)) in if diff < ALIGNMENT + ALIGN_INFO then ptr - diff else ptr)"


section \<open>Major blocks\<close>

text \<open>The size is an \<open>unsigned int\<close>, to which also the sums with the header sizes are reduced.\<close>

definition page_count :: "u32 \<Rightarrow> u32" where
  "page_count sz =
     (let st0 = sz + 40 + 40;
          st1 = (if st0 mod l_pageSize = 0 then st0 div l_pageSize else st0 div l_pageSize + 1)
      in if st1 < l_pageCount then l_pageCount else st1)"

definition allocate_new_page :: "u32 \<Rightarrow> heap \<Rightarrow> (u64 \<times> heap) option" where
  "allocate_new_page sz h =
     (let st = page_count sz in
      do {
        (maj, s) \<leftarrow> liballoc_alloc (frames (space h)) (kernel_vma_context h) st;
        let h1 = h\<lparr>space := (space h)\<lparr>frames := s\<rparr>\<rparr>;
        if maj = NULL then Some (NULL, h1\<lparr>l_warningCount := l_warningCount h1 + 1\<rparr>)
        else
          let n = unat (st * l_pageSize)
          in Some (maj, h1\<lparr>majors := (wipe maj n (majors h1))(maj \<mapsto>
                     \<lparr>j_prev = NULL, j_next = NULL, j_pages = st, j_size = st * l_pageSize, j_usage = 40, j_first = NULL\<rparr>),
                   minors := wipe maj n (minors h1),
                   l_allocated := l_allocated h1 + ucast (st * l_pageSize)\<rparr>) })"

text \<open>\<open>maj->next = allocate_new_page(size)\<close>, then \<open>maj->next->prev = maj\<close> unless it failed.\<close>

definition append_major :: "u64 \<Rightarrow> u64 \<Rightarrow> heap \<Rightarrow> (u64 \<times> heap) option" where
  "append_major maj sz h =
     do {
       (new, h1) \<leftarrow> allocate_new_page (ucast sz) h;
       h2 \<leftarrow> major_upd maj (j_next_update (\<lambda>_. new)) h1;
       if new = NULL then Some (NULL, h2)
       else do { h3 \<leftarrow> major_upd new (j_prev_update (\<lambda>_. maj)) h2; Some (new, h3) } }"


section \<open>Placing a minor block\<close>

text \<open>
  What all cases of \<open>kmalloc\<close> do with the place they have found: write the header of the new minor
  block, count it, and align the pointer behind the header.
\<close>

definition place :: "u64 \<Rightarrow> u64 \<Rightarrow> u64 \<Rightarrow> u64 \<Rightarrow> u64 \<Rightarrow> u64 \<Rightarrow> heap \<Rightarrow> (u64 \<times> heap) option" where
  "place maj m prev next sz req h =
     do {
       h1 \<leftarrow> major_upd maj (j_usage_update (\<lambda>u. ucast (ucast u + (sz + HDR) :: u64)))
              (h\<lparr>minors := (wipe m (40 + unat (ucast sz :: u32)) (minors h))(m \<mapsto>
                   \<lparr>n_prev = prev, n_next = next, n_block = maj, n_magic = LIBALLOC_MAGIC, n_size = ucast sz, n_req = ucast req\<rparr>)\<rparr>);
       Some (ALIGN (m + HDR) (h1\<lparr>l_inuse := l_inuse h1 + sz\<rparr>)) }"

text \<open>The free bytes behind minor block \<open>mi\<close>, up to the next one or to the end of the major block.\<close>

definition gap_after :: "u64 \<Rightarrow> liballoc_major \<Rightarrow> u64 \<Rightarrow> liballoc_minor \<Rightarrow> u64" where
  "gap_after maj j mi n =
     (if n_next n = NULL then maj + ucast (j_size j) else n_next n) - mi - HDR - ucast (n_size n)"

text \<open>Case 4, the search for a minor block with enough room behind it; \<open>NULL\<close> if there is none.\<close>

partial_function (option) scan_minors :: "heap \<Rightarrow> u64 \<Rightarrow> liballoc_major \<Rightarrow> u64 \<Rightarrow> u64 \<Rightarrow> u64 option" where
  "scan_minors h maj j sz mi =
     (if mi = NULL then Some NULL
      else do {
        n \<leftarrow> minors h mi;
        if gap_after maj j mi n \<ge> sz + HDR then Some mi
        else scan_minors h maj j sz (n_next n) })"

text \<open>
  Cases 2, 3 and 4 for one major block: the aligned pointer and the new heap, or \<open>None\<close> inside \<open>Some\<close>
  if the block has no room.
\<close>

definition try_major :: "u64 \<Rightarrow> u64 \<Rightarrow> u64 \<Rightarrow> heap \<Rightarrow> (u64 \<times> heap) option option" where
  "try_major maj sz req h =
     do {
       j \<leftarrow> majors h maj;
       if j_first j = NULL
       then do {
         h1 \<leftarrow> major_upd maj (j_first_update (\<lambda>_. maj + HDR)) h;
         r \<leftarrow> place maj (maj + HDR) NULL NULL sz req h1;
         Some (Some r) }
       else if j_first j - maj - HDR \<ge> sz + HDR
       then do {
         h1 \<leftarrow> minor_upd (j_first j) (n_prev_update (\<lambda>_. maj + HDR)) h;
         h2 \<leftarrow> major_upd maj (j_first_update (\<lambda>_. maj + HDR)) h1;
         r \<leftarrow> place maj (maj + HDR) NULL (j_first j) sz req h2;
         Some (Some r) }
       else do {
         mi \<leftarrow> scan_minors h maj j sz (j_first j);
         if mi = NULL then Some None
         else do {
           n \<leftarrow> minors h mi;
           let new = mi + HDR + ucast (n_size n);
           h1 \<leftarrow> (if n_next n = NULL then Some h else minor_upd (n_next n) (n_prev_update (\<lambda>_. new)) h);
           h2 \<leftarrow> minor_upd mi (n_next_update (\<lambda>_. new)) h1;
           r \<leftarrow> place maj new mi (n_next n) sz req h2;
           Some (Some r) } } }"


section \<open>Allocating\<close>

text \<open>How a round of the loop over the major blocks goes on.\<close>

datatype round = Continue u64 bool | Break | Here u64

text \<open>Case 1: too little space in \<open>maj\<close> altogether.\<close>

definition case1 :: "u64 \<Rightarrow> liballoc_major \<Rightarrow> u64 \<Rightarrow> bool \<Rightarrow> heap \<Rightarrow> (round \<times> heap) option" where
  "case1 maj j sz startedBet h =
     (if ucast (j_size j - j_usage j) < sz + HDR
      then if j_next j \<noteq> NULL then Some (Continue (j_next j) startedBet, h)
        else if startedBet then Some (Continue (l_memRoot h) False, h)
        else do {
          (new, h1) \<leftarrow> append_major maj sz h;
          Some (if new = NULL then Break else Here new, h1) }
      else Some (Here maj, h))"

text \<open>Case 5 and the step to the next major block.\<close>

definition case5 :: "u64 \<Rightarrow> u64 \<Rightarrow> bool \<Rightarrow> heap \<Rightarrow> (round \<times> heap) option" where
  "case5 maj sz startedBet h =
     do {
       j \<leftarrow> majors h maj;
       if j_next j \<noteq> NULL then Some (Continue (j_next j) startedBet, h)
       else if startedBet then Some (Continue (l_memRoot h) False, h)
       else do {
         (new, h1) \<leftarrow> append_major maj sz h;
         Some (if new = NULL then Break else Continue new startedBet, h1) } }"

partial_function (option) malloc_loop :: "u64 \<Rightarrow> u64 \<Rightarrow> u64 \<Rightarrow> bool \<Rightarrow> u64 \<Rightarrow> heap \<Rightarrow> (u64 \<times> heap) option" where
  "malloc_loop sz req maj startedBet bestSize h =
     (if maj = NULL then Some (NULL, h)
      else do {
        j \<leftarrow> majors h maj;
        let diff = ucast (j_size j - j_usage j);
        let h1 = (if bestSize < diff then h\<lparr>l_bestBet := maj\<rparr> else h);
        let best = max bestSize diff;
        (r, h2) \<leftarrow> case1 maj j sz startedBet h1;
        case r of
          Break \<Rightarrow> Some (NULL, h2)
        | Continue m b \<Rightarrow> malloc_loop sz req m b best h2
        | Here m \<Rightarrow> do {
            found \<leftarrow> try_major m sz req h2;
            case found of
              Some res \<Rightarrow> Some res
            | None \<Rightarrow> do {
                (r', h3) \<leftarrow> case5 m sz startedBet h2;
                case r' of
                  Continue m' b' \<Rightarrow> malloc_loop sz req m' b' best h3
                | _ \<Rightarrow> Some (NULL, h3) } } })"

text \<open>The body of \<open>kmalloc\<close> between taking and releasing the lock, for a size other than 0.\<close>

definition malloc_locked :: "u64 \<Rightarrow> u64 \<Rightarrow> heap \<Rightarrow> (u64 \<times> heap) option" where
  "malloc_locked sz req h =
     do {
       h1 \<leftarrow> (if l_memRoot h = NULL
              then do { (new, h') \<leftarrow> allocate_new_page (ucast sz) h; Some (h'\<lparr>l_memRoot := new\<rparr>) }
              else Some h);
       if l_memRoot h1 = NULL then Some (NULL, h1)
       else if l_bestBet h1 = NULL then malloc_loop sz req (l_memRoot h1) False 0 h1
       else do {
         bet \<leftarrow> majors h1 (l_bestBet h1);
         let bestSize = ucast (j_size bet - j_usage bet);
         if bestSize > sz + HDR then malloc_loop sz req (l_bestBet h1) True bestSize h1
         else malloc_loop sz req (l_memRoot h1) False bestSize h1 } }"

definition kmalloc :: "u64 \<Rightarrow> heap \<Rightarrow> (u64 \<times> heap) option" where
  "kmalloc req_size h =
     (let sz = req_size + (ALIGNMENT + ALIGN_INFO) in
      do {
        h1 \<leftarrow> liballoc_lock h;
        (p, h2) \<leftarrow> (if sz = 0
           then malloc_locked (1 + (ALIGNMENT + ALIGN_INFO)) 1 (h1\<lparr>l_warningCount := l_warningCount h1 + 1\<rparr>)
           else malloc_locked sz req_size h1);
        Some (p, liballoc_unlock h2) })"


section \<open>Freeing\<close>

text \<open>The reaction to a header without the magic number, the same in \<open>kfree\<close> and \<open>krealloc\<close>.\<close>

definition bad_magic :: "u32 \<Rightarrow> heap \<Rightarrow> heap" where
  "bad_magic magic h =
     (let h1 = h\<lparr>l_errorCount := l_errorCount h + 1\<rparr>
      in if magic AND 0xFFFFFF = LIBALLOC_MAGIC AND 0xFFFFFF \<or> magic AND 0xFFFF = LIBALLOC_MAGIC AND 0xFFFF \<or>
            magic AND 0xFF = LIBALLOC_MAGIC AND 0xFF
         then h1\<lparr>l_possibleOverruns := l_possibleOverruns h1 + 1\<rparr> else h1)"

text \<open>Unlinking a minor block from its list.\<close>

definition unlink_minor :: "u64 \<Rightarrow> liballoc_minor \<Rightarrow> heap \<Rightarrow> heap option" where
  "unlink_minor mi n h =
     do {
       h1 \<leftarrow> (if n_next n = NULL then Some h else minor_upd (n_next n) (n_prev_update (\<lambda>_. n_prev n)) h);
       if n_prev n = NULL then major_upd (n_block n) (j_first_update (\<lambda>_. n_next n)) h1
       else minor_upd (n_prev n) (n_next_update (\<lambda>_. n_next n)) h1 }"

text \<open>An empty major block goes back; its headers are no longer there.\<close>

definition release_major :: "u64 \<Rightarrow> liballoc_major \<Rightarrow> heap \<Rightarrow> heap option" where
  "release_major maj j h =
     do {
       let h1 = (if l_memRoot h = maj then h\<lparr>l_memRoot := j_next j\<rparr> else h);
       let h2 = (if l_bestBet h1 = maj then h1\<lparr>l_bestBet := NULL\<rparr> else h1);
       h3 \<leftarrow> (if j_prev j = NULL then Some h2 else major_upd (j_prev j) (j_next_update (\<lambda>_. j_next j)) h2);
       h4 \<leftarrow> (if j_next j = NULL then Some h3 else major_upd (j_next j) (j_prev_update (\<lambda>_. j_prev j)) h3);
       v \<leftarrow> liballoc_free (space h4) (kernel_vma_context h4) maj (j_pages j);
       Some (h4\<lparr>l_allocated := l_allocated h4 - ucast (j_size j), space := v,
                majors := (majors h4)(maj := None), minors := wipe maj (unat (j_size j)) (minors h4)\<rparr>) }"

text \<open>\<open>bestSize\<close> and \<open>majSize\<close> are signed.\<close>

definition update_bet :: "u64 \<Rightarrow> liballoc_major \<Rightarrow> heap \<Rightarrow> heap option" where
  "update_bet maj j h =
     (if l_bestBet h = NULL then Some h
      else do {
        bet \<leftarrow> majors h (l_bestBet h);
        Some (if sint (j_size j - j_usage j) > sint (j_size bet - j_usage bet) then h\<lparr>l_bestBet := maj\<rparr> else h) })"

definition free_minor :: "u64 \<Rightarrow> liballoc_minor \<Rightarrow> heap \<Rightarrow> heap option" where
  "free_minor mi n h =
     do {
       let maj = n_block n;
       h1 \<leftarrow> major_upd maj (j_usage_update (\<lambda>u. ucast (ucast u - (ucast (n_size n) + HDR) :: u64)))
              (h\<lparr>l_inuse := l_inuse h - ucast (n_size n)\<rparr>);
       h2 \<leftarrow> minor_upd mi (n_magic_update (\<lambda>_. LIBALLOC_DEAD)) h1;
       h3 \<leftarrow> unlink_minor mi n h2;
       j \<leftarrow> majors h3 maj;
       if j_first j = NULL then release_major maj j h3 else update_bet maj j h3 }"

definition kfree :: "u64 \<Rightarrow> heap \<Rightarrow> heap option" where
  "kfree ptr h =
     (if ptr = NULL then Some (h\<lparr>l_warningCount := l_warningCount h + 1\<rparr>)
      else do {
        let mi = UNALIGN h ptr - HDR;
        h1 \<leftarrow> liballoc_lock h;
        n \<leftarrow> minors h1 mi;
        h2 \<leftarrow> (if n_magic n \<noteq> LIBALLOC_MAGIC then Some (bad_magic (n_magic n) h1) else free_minor mi n h1);
        Some (liballoc_unlock h2) })"


section \<open>Cleared and resized blocks\<close>

text \<open>The counter of the loop is an \<open>unsigned int\<close>, so that it never ends for 2^32 bytes or more.\<close>

partial_function (option) memset_32 :: "mem \<Rightarrow> u64 \<Rightarrow> u8 \<Rightarrow> u64 \<Rightarrow> u32 \<Rightarrow> mem option" where
  "memset_32 m s c n i = (if ucast i < n then memset_32 (m(s + ucast i := c)) s c n (i + 1) else Some m)"

definition liballoc_memset :: "mem \<Rightarrow> u64 \<Rightarrow> u8 \<Rightarrow> u64 \<Rightarrow> mem option" where
  "liballoc_memset m s c n = memset_32 m s c n 0"

text \<open>The copy goes word by word, four bytes each, and then byte by byte.\<close>

definition copy_word :: "mem \<Rightarrow> u64 \<Rightarrow> u64 \<Rightarrow> mem" where
  "copy_word m d s = (\<lambda>x. if x - d < 4 then m (s + (x - d)) else m x)"

fun copy_words :: "nat \<Rightarrow> mem \<Rightarrow> u64 \<Rightarrow> u64 \<Rightarrow> mem" where
  "copy_words n m d s = (if n \<ge> 4 then copy_words (n - 4) (copy_word m d s) (d + 4) (s + 4) else memcpy_loop n m d s)"

definition liballoc_memcpy :: "mem \<Rightarrow> u64 \<Rightarrow> u64 \<Rightarrow> u64 \<Rightarrow> mem" where
  "liballoc_memcpy m s1 s2 n = copy_words (unat n) m s1 s2"

text \<open>\<open>real_size\<close> is an \<open>int\<close>, which becomes a \<open>size_t\<close> again in both calls; writing to \<open>NULL\<close> is a fault.\<close>

definition kcalloc :: "u64 \<Rightarrow> u64 \<Rightarrow> heap \<Rightarrow> (u64 \<times> heap) option" where
  "kcalloc nobj sz h =
     (let real_size = ucast (nobj * sz) :: 32 word in
      do {
        (p, h1) \<leftarrow> kmalloc (scast real_size) h;
        if p = NULL \<and> real_size \<noteq> 0 then None
        else do {
          m \<leftarrow> liballoc_memset (hbytes h1) p 0 (scast real_size);
          Some (p, h1\<lparr>hbytes := m\<rparr>) } })"

text \<open>Copying to \<open>NULL\<close> is a fault.\<close>

definition krealloc :: "u64 \<Rightarrow> u64 \<Rightarrow> heap \<Rightarrow> (u64 \<times> heap) option" where
  "krealloc p sz h =
     (if sz = 0 then do { h1 \<leftarrow> kfree p h; Some (NULL, h1) }
      else if p = NULL then kmalloc sz h
      else do {
        let mi = UNALIGN h p - HDR;
        h1 \<leftarrow> liballoc_lock h;
        n \<leftarrow> minors h1 mi;
        if n_magic n \<noteq> LIBALLOC_MAGIC then Some (NULL, liballoc_unlock (bad_magic (n_magic n) h1))
        else if ucast (n_req n) \<ge> sz
        then do { h2 \<leftarrow> minor_upd mi (n_req_update (\<lambda>_. ucast sz)) h1; Some (p, liballoc_unlock h2) }
        else do {
          (ptr, h2) \<leftarrow> kmalloc sz (liballoc_unlock h1);
          if ptr = NULL \<and> n_req n \<noteq> 0 then None
          else do {
            h3 \<leftarrow> kfree p (h2\<lparr>hbytes := liballoc_memcpy (hbytes h2) ptr p (ucast (n_req n))\<rparr>);
            Some (ptr, h3) } } })"

end
