(* ===== verification/Heap_Lists.thy ===== *)
theory Heap_Lists
  imports Heap
begin

text \<open>
  Doubly linked lists between headers, in one direction and the other, and the layout of the minor blocks
  of a major block one after the other in memory. The same list lemmas serve both kinds of header.
\<close>

section \<open>Doubly linked lists\<close>

text \<open>
  \<open>dll pr nx f a b ms\<close>: in \<open>f\<close>, the elements of \<open>ms\<close> are linked in both directions; \<open>a\<close> comes before
  the first and \<open>b\<close> after the last.
\<close>

definition hd0 :: "u64 \<Rightarrow> u64 list \<Rightarrow> u64" where
  "hd0 b ms = (case ms of [] \<Rightarrow> b | m # _ \<Rightarrow> m)"

definition last0 :: "u64 \<Rightarrow> u64 list \<Rightarrow> u64" where
  "last0 a ms = (if ms = [] then a else last ms)"

primrec dll :: "('n \<Rightarrow> u64) \<Rightarrow> ('n \<Rightarrow> u64) \<Rightarrow> (u64 \<rightharpoonup> 'n) \<Rightarrow> u64 \<Rightarrow> u64 \<Rightarrow> u64 list \<Rightarrow> bool" where
  "dll pr nx f a b [] \<longleftrightarrow> True"
| "dll pr nx f a b (m # ms) \<longleftrightarrow> (\<exists>n. f m = Some n \<and> pr n = a \<and> nx n = hd0 b ms) \<and> dll pr nx f m b ms"

lemma hd0_simps [simp]: "hd0 b [] = b" "hd0 b (m # ms) = m" "hd0 b (xs @ ys) = hd0 (hd0 b ys) xs"
  by (auto simp: hd0_def split: list.splits)

lemma last0_simps [simp]: "last0 a [] = a" "last0 a (m # ms) = last0 m ms" "last0 a (xs @ ys) = last0 (last0 a xs) ys"
  by (auto simp: last0_def)

lemma dll_append: "dll pr nx f a b (xs @ ys) \<longleftrightarrow> dll pr nx f a (hd0 b ys) xs \<and> dll pr nx f (last0 a xs) b ys"
  by (induction xs arbitrary: a) auto

lemma dll_cong: "(\<And>m. m \<in> set ms \<Longrightarrow> f m = g m) \<Longrightarrow> dll pr nx f a b ms = dll pr nx g a b ms"
  by (induction ms arbitrary: a) auto

lemma dll_cong_links:
  "(\<And>m. m \<in> set ms \<Longrightarrow> map_option (\<lambda>n. (pr n, nx n)) (f m) = map_option (\<lambda>n. (pr n, nx n)) (g m)) \<Longrightarrow>
     dll pr nx f a b ms = dll pr nx g a b ms"
proof (induction ms arbitrary: a)
  case (Cons m ms)
  moreover have "map_option (\<lambda>n. (pr n, nx n)) (f m) = map_option (\<lambda>n. (pr n, nx n)) (g m)"
    using Cons.prems by simp
  ultimately show ?case
    by (cases "f m"; cases "g m") auto
qed simp

lemma dll_upd [simp]: "y \<notin> set ms \<Longrightarrow> dll pr nx (f(y := v)) a b ms = dll pr nx f a b ms"
  by (rule dll_cong) auto

lemma dll_dom: "dll pr nx f a b ms \<Longrightarrow> m \<in> set ms \<Longrightarrow> \<exists>n. f m = Some n"
  by (induction ms arbitrary: a) auto

lemma dll_set_next:
  assumes d: "dll pr nx f a b xs" and "distinct xs" and n: "f (last xs) = Some n" "pr n' = pr n" "nx n' = c"
    and ne: "xs \<noteq> []"
  shows "dll pr nx (f(last xs \<mapsto> n')) a c xs"
proof -
  obtain zs z where xs: "xs = zs @ [z]" using ne by (metis rev_exhaust)
  with assms show ?thesis by (auto simp: dll_append)
qed

lemma dll_set_prev:
  assumes "dll pr nx f a b (y # ys)" and "distinct (y # ys)" and "f y = Some n" "pr n' = c" "nx n' = nx n"
  shows "dll pr nx (f(y \<mapsto> n')) c b (y # ys)"
  using assms by auto

text \<open>Linking \<open>m\<close> in between \<open>xs\<close> and \<open>ys\<close>, and taking it out again.\<close>

definition relink :: "(('n \<Rightarrow> u64 \<Rightarrow> 'n) \<times> ('n \<Rightarrow> u64 \<Rightarrow> 'n)) \<Rightarrow> u64 list \<Rightarrow> u64 list \<Rightarrow> u64 \<Rightarrow> u64 \<Rightarrow> (u64 \<rightharpoonup> 'n) \<Rightarrow> (u64 \<rightharpoonup> 'n)" where
  "relink s xs ys p q f =
     (let g = (if ys = [] then f else f(hd ys \<mapsto> fst s (the (f (hd ys))) p))
      in if xs = [] then g else g(last xs \<mapsto> snd s (the (g (last xs))) q))"

lemma relink_other: "m \<notin> set xs \<union> set ys \<Longrightarrow> relink s xs ys p q f m = f m"
  by (cases ys; cases xs rule: rev_cases) (simp_all add: relink_def)

locale links =
  fixes pr nx :: "'n \<Rightarrow> u64" and set_pr set_nx :: "'n \<Rightarrow> u64 \<Rightarrow> 'n" and core :: "'n \<Rightarrow> 'c"
  assumes set_pr: "pr (set_pr n v) = v" "nx (set_pr n v) = nx n"
    and set_nx: "nx (set_nx n v) = v" "pr (set_nx n v) = pr n"
    and set_core: "core (set_pr n v) = core n" "core (set_nx n v) = core n"
begin

lemma relink_dll:
  assumes d: "dll pr nx f a b (xs @ ms @ ys)" and dis: "distinct (xs @ ms @ ys)"
  shows "dll pr nx (relink (set_pr, set_nx) xs ys p q f) a q xs"
    and "dll pr nx (relink (set_pr, set_nx) xs ys p q f) p b ys"
proof -
  define g where "g = (if ys = [] then f else f(hd ys \<mapsto> set_pr (the (f (hd ys))) p))"
  have r: "relink (set_pr, set_nx) xs ys p q f = (if xs = [] then g else g(last xs \<mapsto> set_nx (the (g (last xs))) q))"
    by (simp add: relink_def g_def Let_def)
  have xs: "dll pr nx f a (hd0 (hd0 b ys) ms) xs" and ys: "dll pr nx f (last0 (last0 a xs) ms) b ys"
    using d by (auto simp: dll_append)
  have g: "dll pr nx g p b ys"
    using ys dis by (cases ys) (auto simp: set_pr g_def)
  have gx: "dll pr nx g a (hd0 (hd0 b ys) ms) xs"
    using xs dis by (cases ys) (auto simp: g_def)
  show "dll pr nx (relink (set_pr, set_nx) xs ys p q f) a q xs"
  proof (cases "xs = []")
    case False
    then obtain n where "g (last xs) = Some n"
      using dll_dom [OF gx, of "last xs"] by auto
    then show ?thesis
      using False dis dll_set_next [OF gx, of n "set_nx n q" q] by (simp add: r set_nx)
  qed simp
  have "last xs \<notin> set ys" if "xs \<noteq> []"
    using that dis last_in_set [of xs] by (auto simp: disjoint_iff)
  then show "dll pr nx (relink (set_pr, set_nx) xs ys p q f) p b ys"
    using g by (simp add: r)
qed

lemma relink_core:
  assumes "dll pr nx f a b (xs @ ms @ ys)"
  shows "map_option core (relink (set_pr, set_nx) xs ys p q f m) = map_option core (f m)"
proof -
  have "map_option core (f m) = Some (core (the (f m)))" if "m \<in> set xs \<union> set ys"
    using dll_dom [OF assms] that by force
  then show ?thesis
    by (cases ys; cases xs rule: rev_cases) (auto simp: relink_def set_core Let_def)
qed

end

definition minor_core :: "liballoc_minor \<Rightarrow> u64 \<times> u32 \<times> u32 \<times> u32" where
  "minor_core n = (n_block n, n_magic n, n_size n, n_req n)"

definition major_core :: "liballoc_major \<Rightarrow> u32 \<times> u32 \<times> u32 \<times> u64" where
  "major_core j = (j_pages j, j_size j, j_usage j, j_first j)"

interpretation nl: links n_prev n_next "\<lambda>n v. n\<lparr>n_prev := v\<rparr>" "\<lambda>n v. n\<lparr>n_next := v\<rparr>" minor_core
  by unfold_locales (simp_all add: minor_core_def)

interpretation jl: links j_prev j_next "\<lambda>j v. j\<lparr>j_prev := v\<rparr>" "\<lambda>j v. j\<lparr>j_next := v\<rparr>" major_core
  by unfold_locales (simp_all add: major_core_def)


section \<open>Layout\<close>

text \<open>
  The minor blocks \<open>ms\<close> lie one after the other from \<open>lo\<close> on, each with its header of 40 bytes and
  \<open>s m\<close> bytes behind it; \<open>endp\<close> is where the last one ends and \<open>used\<close> is what they take up.
\<close>

primrec fits :: "(u64 \<Rightarrow> nat) \<Rightarrow> nat \<Rightarrow> u64 list \<Rightarrow> bool" where
  "fits s lo [] \<longleftrightarrow> True"
| "fits s lo (m # ms) \<longleftrightarrow> lo \<le> unat m \<and> fits s (unat m + 40 + s m) ms"

primrec endp :: "(u64 \<Rightarrow> nat) \<Rightarrow> nat \<Rightarrow> u64 list \<Rightarrow> nat" where
  "endp s lo [] = lo"
| "endp s lo (m # ms) = endp s (unat m + 40 + s m) ms"

definition used :: "(u64 \<Rightarrow> nat) \<Rightarrow> u64 list \<Rightarrow> nat" where
  "used s ms = (\<Sum>m\<leftarrow>ms. 40 + s m)"

lemma fits_append [simp]: "fits s lo (xs @ ys) \<longleftrightarrow> fits s lo xs \<and> fits s (endp s lo xs) ys"
  by (induction xs arbitrary: lo) auto

lemma endp_append [simp]: "endp s lo (xs @ ys) = endp s (endp s lo xs) ys"
  by (induction xs arbitrary: lo) auto

lemma used_simps [simp]: "used s [] = 0" "used s (m # ms) = 40 + s m + used s ms" "used s (xs @ ys) = used s xs + used s ys"
  by (simp_all add: used_def)

lemma layout_cong:
  assumes "\<And>m. m \<in> set ms \<Longrightarrow> s m = t m"
  shows "fits s lo ms = fits t lo ms" "endp s lo ms = endp t lo ms" "used s ms = used t ms"
  using assms by (induction ms arbitrary: lo) auto

lemma endp_ge: "fits s lo ms \<Longrightarrow> lo + used s ms \<le> endp s lo ms"
  by (induction ms arbitrary: lo) fastforce+

lemma fits_range: "fits s lo ms \<Longrightarrow> m \<in> set ms \<Longrightarrow> lo \<le> unat m \<and> unat m + 40 + s m \<le> endp s lo ms"
proof (induction ms arbitrary: lo)
  case (Cons x ms)
  then show ?case
    using endp_ge [of s "unat x + 40 + s x" ms] by fastforce
qed simp

lemma fits_disjoint:
  "fits s lo ms \<Longrightarrow> x \<in> set ms \<Longrightarrow> y \<in> set ms \<Longrightarrow> x \<noteq> y \<Longrightarrow>
     unat x + 40 + s x \<le> unat y \<or> unat y + 40 + s y \<le> unat x"
  by (induction ms arbitrary: lo) (auto dest: fits_range)

lemma fits_distinct: "fits s lo ms \<Longrightarrow> distinct ms"
  by (induction ms arbitrary: lo) (auto dest: fits_range)

lemma fits_mono: "fits s lo ms \<Longrightarrow> lo' \<le> lo \<Longrightarrow> fits s lo' ms"
  by (cases ms) auto

lemma endp_mono: "lo' \<le> lo \<Longrightarrow> endp s lo' ms \<le> endp s lo ms"
  by (cases ms) auto

lemma fits_insert:
  assumes "fits s lo (xs @ ys)" and "endp s lo xs \<le> unat m" and "ys = [] \<or> unat m + 40 + s m \<le> unat (hd ys)"
  shows "fits s lo (xs @ m # ys)"
    and "endp s lo (xs @ m # ys) = (if ys = [] then unat m + 40 + s m else endp s lo (xs @ ys))"
  using assms by (cases ys; simp)+

lemma fits_delete:
  assumes "fits s lo (xs @ m # ys)"
  shows "fits s lo (xs @ ys)" and "endp s lo (xs @ ys) \<le> endp s lo (xs @ m # ys)"
  using assms by (auto intro: fits_mono endp_mono)

end
