(* ===== verification/Heap_Inv.thy ===== *)
theory Heap_Inv
  imports Heap_Lists
begin

text \<open>
  The invariant of the heap over its two levels of lists, the set of live blocks, and that a new minor
  block in a gap keeps the invariant.
\<close>

section \<open>Alignment and headers\<close>

lemma unat_and_15: "unat (x AND 15 :: u64) = unat x mod 16"
proof -
  have "x AND 15 = take_bit 4 x"
    by (simp add: take_bit_eq_mask mask_eq_exp_minus_1)
  then show ?thesis
    by (simp add: take_bit_eq_mod unat_mod_distrib)
qed

lemma unat_align_diff: "unat (align_diff p) = (16 - unat p mod 16) mod 16"
proof -
  have "unat (p + 16) mod 16 = unat p mod 16"
    by (simp add: unat_word_ariths mod_mod_cancel)
  then have u: "unat (p + 16 AND 15) = unat p mod 16"
    by (simp add: unat_and_15)
  show ?thesis
  proof (cases "p + 16 AND 15 = 0")
    case False
    then have "unat (p + 16 AND 15) \<noteq> 0" by (metis unsigned_eq_0_iff)
    then have "0 < unat p mod 16" unfolding u by simp
    then have "(16 - unat p mod 16) mod 16 = 16 - unat p mod 16" by (intro mod_less) simp
    with False u show ?thesis
      by (simp add: align_diff_def Let_def ALIGNMENT_def ALIGN_INFO_def unat_sub word_le_nat_alt)
  next
    case True
    then have "unat p mod 16 = 0" using u by simp
    with True show ?thesis
      by (simp add: align_diff_def Let_def ALIGNMENT_def ALIGN_INFO_def)
  qed
qed

lemma round_up_16: "(x + 16 + (16 - x mod 16) mod 16) mod 16 = (0::nat)"
proof -
  define q r where "q = x div 16" and "r = x mod 16"
  then have x: "x = 16 * q + r" and r: "r < 16" by simp_all
  have m: "x mod 16 = r" by (simp add: r_def)
  show ?thesis
  proof (cases "r = 0")
    case False
    then have "(16 - r) mod 16 = 16 - r" by (intro mod_less) simp
    moreover have "x + 16 + (16 - r) = 16 * (q + 2)"
      unfolding x using r by simp
    ultimately show ?thesis unfolding m by (metis mod_mult_self1_is_0)
  qed (simp add: m x)
qed

definition tag :: "u64 \<Rightarrow> u64" where
  "tag m = m + HDR + align_diff (m + HDR)"

definition user_ptr :: "u64 \<Rightarrow> u64" where
  "user_ptr m = tag m + ALIGN_INFO"

lemma user_ptr_bounds:
  assumes "unat m + 40 + n < 2 ^ 64" and "32 \<le> n"
  shows "unat m + 56 \<le> unat (user_ptr m)" "unat (user_ptr m) < unat m + 72" "unat (user_ptr m) mod 16 = 0"
    "unat (tag m) = unat (user_ptr m) - 16" "user_ptr m - ALIGN_INFO = tag m" "user_ptr m \<noteq> NULL"
proof -
  let ?d = "unat (align_diff (m + HDR))"
  have m: "unat (m + HDR) = unat m + 40"
    using assms by (subst unat_plus_no_wrap) (simp_all add: HDR_def)
  have d: "?d = (16 - (unat m + 40) mod 16) mod 16"
    by (simp add: unat_align_diff m)
  then have lt: "?d < 16" by simp
  have t: "unat (tag m) = unat m + 40 + ?d"
    using assms lt m unfolding tag_def by (subst unat_plus_no_wrap) simp_all
  then have p: "unat (user_ptr m) = unat m + 56 + ?d"
    using assms lt unfolding user_ptr_def by (subst unat_plus_no_wrap) (simp_all add: ALIGN_INFO_def)
  show "unat m + 56 \<le> unat (user_ptr m)" "unat (user_ptr m) < unat m + 72" "unat (tag m) = unat (user_ptr m) - 16"
    using p t lt by simp_all
  show "unat (user_ptr m) mod 16 = 0"
    using round_up_16 [of "unat m + 40"] unfolding p d by (simp add: add.commute)
  show "user_ptr m - ALIGN_INFO = tag m" by (simp add: user_ptr_def)
  show "user_ptr m \<noteq> NULL" using p by auto
qed

lemma ALIGN_eq: "ALIGN (m + HDR) h = (user_ptr m, h\<lparr>hbytes := (hbytes h)(tag m := ucast (align_diff (m + HDR) + ALIGN_INFO))\<rparr>)"
  by (simp add: ALIGN_def Let_def user_ptr_def tag_def add_ac)

lemma scast_small: "unat x < 128 \<Longrightarrow> scast (ucast x :: u8) = (x :: u64)"
proof (rule bit_word_eqI)
  fix k assume x: "unat x < 128" and k: "k < LENGTH(64)"
  have "take_bit 7 (unat x) = unat x"
    using x by (simp add: take_bit_nat_eq_self)
  then have "\<not> bit (unat x) i" if "7 \<le> i" for i
    using that by (metis bit_take_bit_iff not_le)
  then have "\<not> bit x i" if "7 \<le> i" for i
    using that by (simp add: bit_unsigned_iff)
  with k show "bit (scast (ucast x :: u8) :: u64) k = bit x k"
    by (auto simp: bit_signed_iff bit_simps min_def)
qed

lemma UNALIGN_eq:
  assumes "hbytes h (tag m) = ucast (align_diff (m + HDR) + ALIGN_INFO)"
  shows "UNALIGN h (user_ptr m) - HDR = m"
proof -
  let ?d = "align_diff (m + HDR)"
  have "unat ?d < 16" by (simp add: unat_align_diff)
  then have u: "unat (?d + ALIGN_INFO) < 32"
    by (subst unat_plus_no_wrap) (simp_all add: ALIGN_INFO_def)
  then have "(scast (ucast (?d + ALIGN_INFO) :: u8) :: u64) = ?d + ALIGN_INFO"
    by (intro scast_small) simp
  with u show ?thesis
    using assms by (simp add: UNALIGN_def Let_def user_ptr_def tag_def ALIGNMENT_def ALIGN_INFO_def word_less_nat_alt)
qed

lemma touches_iff:
  assumes "unat x + 40 < 2 ^ 64" and "unat a + n < 2 ^ 64" and "0 < n"
  shows "touches a n x \<longleftrightarrow> \<not> (unat x + 40 \<le> unat a \<or> unat a + n \<le> unat x)"
  using assms unat_sub_if_size [of x a] unat_sub_if_size [of a x] by (auto simp: touches_def word_size split: if_splits)



section \<open>The invariant\<close>

text \<open>
  \<open>Ms\<close> lists the major blocks in the order of their list, each with its minor blocks. A minor block
  has room for what was asked for and 32 bytes more; a major block has its minor blocks inside it, in
  the order of their addresses, and counts what they use; the major blocks are apart from each other.
\<close>

type_synonym blocks = "(u64 \<times> u64 list) list"

definition bsize :: "heap \<Rightarrow> u64 \<Rightarrow> nat" where
  "bsize h m = unat (n_size (the (minors h m)))"

definition breq :: "heap \<Rightarrow> u64 \<Rightarrow> nat" where
  "breq h m = unat (n_req (the (minors h m)))"

definition minor_ok :: "heap \<Rightarrow> u64 \<Rightarrow> u64 \<Rightarrow> bool" where
  "minor_ok h a m \<longleftrightarrow> (\<exists>n. minors h m = Some n \<and> n_block n = a \<and> n_magic n = LIBALLOC_MAGIC \<and>
     unat (n_req n) + 32 \<le> unat (n_size n)) \<and> hbytes h (tag m) = ucast (align_diff (m + HDR) + ALIGN_INFO)"

definition msize :: "heap \<Rightarrow> u64 \<Rightarrow> nat" where
  "msize h a = unat (j_size (the (majors h a)))"

definition major_ok :: "heap \<Rightarrow> u64 \<Rightarrow> u64 list \<Rightarrow> bool" where
  "major_ok h a ms \<longleftrightarrow> a \<noteq> NULL \<and> unat a + msize h a < 2 ^ 64 \<and>
     (\<exists>j. majors h a = Some j \<and> j_first j = hd0 NULL ms \<and> unat (j_usage j) = 40 + used (bsize h) ms) \<and>
     dll n_prev n_next (minors h) NULL NULL ms \<and> fits (bsize h) (unat a + 40) ms \<and>
     endp (bsize h) (unat a + 40) ms \<le> unat a + msize h a \<and> (\<forall>m \<in> set ms. minor_ok h a m)"

definition apart :: "heap \<Rightarrow> u64 \<Rightarrow> u64 \<Rightarrow> bool" where
  "apart h a b \<longleftrightarrow> unat a + msize h a \<le> unat b \<or> unat b + msize h b \<le> unat a"

definition heap_ok :: "heap \<Rightarrow> blocks \<Rightarrow> bool" where
  "heap_ok h Ms \<longleftrightarrow> dll j_prev j_next (majors h) NULL NULL (map fst Ms) \<and> distinct (map fst Ms) \<and>
     l_memRoot h = hd0 NULL (map fst Ms) \<and> l_bestBet h \<in> insert NULL (fst ` set Ms) \<and>
     (\<forall>(a, ms) \<in> set Ms. major_ok h a ms) \<and> pairwise (apart h) (fst ` set Ms)"

definition live :: "heap \<Rightarrow> blocks \<Rightarrow> (u64 \<times> nat) set" where
  "live h Ms = (\<lambda>m. (user_ptr m, breq h m)) ` (\<Union>(a, ms) \<in> set Ms. set ms)"

lemma minor_ok_cong:
  assumes "map_option minor_core (minors g m) = map_option minor_core (minors h m)"
    and "hbytes g (tag m) = hbytes h (tag m)"
  shows "minor_ok g a m = minor_ok h a m"
  using assms by (cases "minors g m"; cases "minors h m") (auto simp: minor_ok_def minor_core_def)

lemma sizes_cong:
  assumes "map_option minor_core (minors g m) = map_option minor_core (minors h m)"
  shows "bsize g m = bsize h m" "breq g m = breq h m"
  using assms by (cases "minors g m"; cases "minors h m"; auto simp: bsize_def breq_def minor_core_def)+

lemma major_ok_cong:
  assumes "map_option major_core (majors g a) = map_option major_core (majors h a)"
    and "\<And>m. m \<in> set ms \<Longrightarrow> minors g m = minors h m \<and> hbytes g (tag m) = hbytes h (tag m)"
  shows "major_ok g a ms = major_ok h a ms"
proof -
  have m: "msize g a = msize h a"
    using assms(1) by (cases "majors g a"; cases "majors h a") (auto simp: msize_def major_core_def)
  have s: "\<And>m. m \<in> set ms \<Longrightarrow> bsize g m = bsize h m"
    using assms(2) by (simp add: bsize_def)
  have "dll n_prev n_next (minors g) NULL NULL ms = dll n_prev n_next (minors h) NULL NULL ms"
    using assms(2) by (intro dll_cong) simp
  moreover have "(\<forall>m \<in> set ms. minor_ok g a m) \<longleftrightarrow> (\<forall>m \<in> set ms. minor_ok h a m)"
    using assms(2) by (auto simp: minor_ok_def)
  moreover have "(\<exists>j. majors g a = Some j \<and> j_first j = c \<and> unat (j_usage j) = u) \<longleftrightarrow>
      (\<exists>j. majors h a = Some j \<and> j_first j = c \<and> unat (j_usage j) = u)" for c u
    using assms(1) by (cases "majors g a"; cases "majors h a") (auto simp: major_core_def)
  ultimately show ?thesis
    using layout_cong [OF s] unfolding major_ok_def m by simp
qed

lemma major_okD:
  assumes "major_ok h a ms" and "m \<in> set ms"
  shows "unat a + 40 \<le> unat m" "unat m + 40 + bsize h m \<le> unat a + msize h a" "32 \<le> bsize h m"
    "unat m + 40 + bsize h m < 2 ^ 64" "m \<noteq> NULL"
proof -
  have "unat a + 40 \<le> unat m \<and> unat m + 40 + bsize h m \<le> endp (bsize h) (unat a + 40) ms"
    using assms fits_range [of "bsize h" "unat a + 40" ms m] by (simp add: major_ok_def)
  with assms show "unat a + 40 \<le> unat m" "unat m + 40 + bsize h m \<le> unat a + msize h a"
      "unat m + 40 + bsize h m < 2 ^ 64" "m \<noteq> NULL"
    by (auto simp: major_ok_def)
  show "32 \<le> bsize h m"
    using assms by (auto simp: major_ok_def minor_ok_def bsize_def)
qed


text \<open>The place of a new minor block: between \<open>xs\<close> and \<open>ys\<close> of major block \<open>a\<close>, with \<open>n\<close> bytes behind the header.\<close>

definition room :: "heap \<Rightarrow> u64 \<Rightarrow> u64 list \<Rightarrow> u64 list \<Rightarrow> u64 \<Rightarrow> nat \<Rightarrow> bool" where
  "room h a xs ys m n \<longleftrightarrow> unat m = endp (bsize h) (unat a + 40) xs \<and>
     unat m + 40 + n \<le> (if ys = [] then unat a + msize h a else unat (hd ys))"

lemma heap_ok_major: "heap_ok h Ms \<Longrightarrow> (a, ms) \<in> set Ms \<Longrightarrow> major_ok h a ms"
  by (auto simp: heap_ok_def)

lemma heap_ok_apart:
  assumes "heap_ok h Ms" and a: "(a, ms) \<in> set Ms" and b: "(b, ns) \<in> set Ms" and "a \<noteq> b"
  shows "apart h a b"
proof -
  have "a \<in> fst ` set Ms" "b \<in> fst ` set Ms"
    using imageI [OF a, of fst] imageI [OF b, of fst] by simp_all
  then show ?thesis
    using assms pairwiseD [of "apart h" "fst ` set Ms" a b] by (simp add: heap_ok_def)
qed

lemma room_end:
  assumes "major_ok h a (xs @ ys)" and "room h a xs ys m n"
  shows "unat a + 40 \<le> unat m" "unat m + 40 + n \<le> unat a + msize h a"
proof -
  have f: "fits (bsize h) (unat a + 40) xs" "fits (bsize h) (endp (bsize h) (unat a + 40) xs) ys"
    using assms by (simp_all add: major_ok_def)
  show "unat a + 40 \<le> unat m"
    using endp_ge [OF f(1)] assms by (simp add: room_def)
  show "unat m + 40 + n \<le> unat a + msize h a"
  proof (cases ys)
    case (Cons y zs)
    then have "unat y + 40 + bsize h y \<le> unat a + msize h a"
      using major_okD(2) [OF assms(1), of y] by simp
    with Cons assms(2) show ?thesis by (simp add: room_def)
  qed (use assms in \<open>simp add: room_def\<close>)
qed

lemma room_free:
  assumes h: "heap_ok h Ms" and a: "(a, xs @ ys) \<in> set Ms" and r: "room h a xs ys m n" and x: "(b, ns) \<in> set Ms" "x \<in> set ns"
    and d: "distinct (map fst Ms)"
  shows "unat x + 40 + bsize h x \<le> unat m \<or> unat m + 40 + n \<le> unat x"
proof (cases "b = a")
  case True
  then have ns: "ns = xs @ ys"
    using a x d by (metis eq_key_imp_eq_value)
  have f: "fits (bsize h) (unat a + 40) xs" "fits (bsize h) (endp (bsize h) (unat a + 40) xs) ys"
    using heap_ok_major [OF h a] by (simp_all add: major_ok_def)
  consider "x \<in> set xs" | "x \<in> set ys" using x ns by auto
  then show ?thesis
  proof cases
    case 1
    then show ?thesis using fits_range [OF f(1)] r by (simp add: room_def)
  next
    case 2
    then obtain y zs where "ys = y # zs" by (cases ys) auto
    moreover have "unat y \<le> unat x"
      using 2 f(2) calculation fits_range [of "bsize h" "unat y + 40 + bsize h y" zs x] by auto
    ultimately show ?thesis using r by (simp add: room_def)
  qed
next
  case False
  then have "apart h a b"
    using heap_ok_apart [OF h a x(1)] by simp
  then show ?thesis
    using room_end [OF heap_ok_major [OF h a] r] major_okD(1,2) [OF heap_ok_major [OF h x(1)] x(2)]
    by (auto simp: apart_def)
qed


definition linked :: "u64 \<Rightarrow> u64 list \<Rightarrow> u64 list \<Rightarrow> u64 \<Rightarrow> heap \<Rightarrow> heap" where
  "linked a xs ys m h =
     h\<lparr>majors := (if xs = [] then (majors h)(a \<mapsto> (the (majors h a))\<lparr>j_first := m\<rparr>) else majors h),
       minors := relink (\<lambda>n v. n\<lparr>n_prev := v\<rparr>, \<lambda>n v. n\<lparr>n_next := v\<rparr>) xs ys m m (minors h)\<rparr>"

definition placed :: "u64 \<Rightarrow> u64 list \<Rightarrow> u64 list \<Rightarrow> u64 \<Rightarrow> u64 \<Rightarrow> u64 \<Rightarrow> heap \<Rightarrow> heap" where
  "placed a xs ys m sz req h =
     (let h1 = linked a xs ys m h in
      h1\<lparr>minors := (wipe m (40 + unat (ucast sz :: u32)) (minors h1))(m \<mapsto>
           \<lparr>n_prev = last0 NULL xs, n_next = hd0 NULL ys, n_block = a, n_magic = LIBALLOC_MAGIC, n_size = ucast sz, n_req = ucast req\<rparr>),
         majors := (majors h1)(a \<mapsto> j_usage_update (\<lambda>u. ucast (ucast u + (sz + HDR))) (the (majors h1 a))),
         l_inuse := l_inuse h1 + sz,
         hbytes := (hbytes h1)(tag m := ucast (align_diff (m + HDR) + ALIGN_INFO))\<rparr>)"

lemma place_linked:
  assumes "majors h a = Some j"
  shows "place a m (last0 NULL xs) (hd0 NULL ys) sz req (linked a xs ys m h) = Some (user_ptr m, placed a xs ys m sz req h)"
  using assms by (simp add: place_def major_upd_def ALIGN_eq placed_def linked_def Let_def)

lemma placed_minor:
  assumes h: "heap_ok h Ms" and a: "(a, xs @ ys) \<in> set Ms" and r: "room h a xs ys m (unat sz)" and s: "unat sz < 2 ^ 32" "32 \<le> unat sz"
    and x: "(b, ns) \<in> set Ms" "x \<in> set ns"
  shows "minors (placed a xs ys m sz req h) x = relink (\<lambda>n v. n\<lparr>n_prev := v\<rparr>, \<lambda>n v. n\<lparr>n_next := v\<rparr>) xs ys m m (minors h) x"
    and "hbytes (placed a xs ys m sz req h) (tag x) = hbytes h (tag x)" and "x \<noteq> m"
proof -
  have d: "distinct (map fst Ms)" using h by (simp add: heap_ok_def)
  note f = room_free [OF h a r x d] and e = room_end [OF heap_ok_major [OF h a] r]
    and o = major_okD [OF heap_ok_major [OF h x(1)] x(2)]
  have m: "unat m + 40 + unat sz < 2 ^ 64"
    using e heap_ok_major [OF h a] by (simp add: major_ok_def)
  have sz: "unat (ucast sz :: u32) = unat sz"
    using s by (simp add: unsigned_ucast_eq take_bit_nat_eq_self)
  have "\<not> touches m (40 + unat (ucast sz :: u32)) x"
    using f m o s by (subst touches_iff) (auto simp: sz)
  moreover show ne: "x \<noteq> m"
    using f s by auto
  ultimately show "minors (placed a xs ys m sz req h) x = relink (\<lambda>n v. n\<lparr>n_prev := v\<rparr>, \<lambda>n v. n\<lparr>n_next := v\<rparr>) xs ys m m (minors h) x"
    by (simp add: placed_def linked_def Let_def wipe_def)
  have "tag x \<noteq> tag m"
    using f user_ptr_bounds [OF o(4) o(3)] user_ptr_bounds [OF m s(2)] o(3) s(2) by auto
  then show "hbytes (placed a xs ys m sz req h) (tag x) = hbytes h (tag x)"
    by (simp add: placed_def linked_def Let_def)
qed


lemma placed_core:
  assumes h: "heap_ok h Ms" and a: "(a, xs @ ys) \<in> set Ms" and r: "room h a xs ys m (unat sz)" and s: "unat sz < 2 ^ 32" "32 \<le> unat sz"
    and x: "(b, ns) \<in> set Ms" "x \<in> set ns"
  shows "map_option minor_core (minors (placed a xs ys m sz req h) x) = map_option minor_core (minors h x)"
    and "bsize (placed a xs ys m sz req h) x = bsize h x" and "breq (placed a xs ys m sz req h) x = breq h x"
proof -
  have "dll n_prev n_next (minors h) NULL NULL (xs @ [] @ ys)"
    using heap_ok_major [OF h a] by (simp add: major_ok_def)
  then show c: "map_option minor_core (minors (placed a xs ys m sz req h) x) = map_option minor_core (minors h x)"
    unfolding placed_minor(1) [OF assms] by (rule nl.relink_core)
  show "bsize (placed a xs ys m sz req h) x = bsize h x" "breq (placed a xs ys m sz req h) x = breq h x"
    using sizes_cong [OF c] by simp_all
qed

lemma unat_lt_32: "unat (u :: u32) < 4294967296"
  using unsigned_less [where ?'a = nat, of u] by simp

lemma unat_ucast_32: "unat (ucast (u :: u32) :: u64) = unat u"
  using unat_lt_32 [of u] by (simp add: unsigned_ucast_eq take_bit_nat_eq_self)

lemma usage_add:
  assumes "unat u + 40 + unat sz < 2 ^ 32"
  shows "unat (ucast (ucast (u :: u32) + (sz + HDR) :: u64) :: u32) = unat u + 40 + unat sz"
proof -
  have "unat (sz + HDR) = unat sz + 40"
    using assms by (subst unat_plus_no_wrap) (simp_all add: HDR_def)
  then have "unat (ucast u + (sz + HDR)) = unat u + 40 + unat sz"
    using assms by (subst unat_plus_no_wrap) (simp_all add: unat_ucast_32)
  then show ?thesis
    using assms by (simp add: unsigned_ucast_eq take_bit_nat_eq_self)
qed

lemma placed_new:
  assumes "unat sz < 2 ^ 32" and "unat sz = unat req + 32"
  shows "bsize (placed a xs ys m sz req h) m = unat sz" "breq (placed a xs ys m sz req h) m = unat req"
    "minor_ok (placed a xs ys m sz req h) a m"
  using assms by (simp_all add: bsize_def breq_def minor_ok_def placed_def Let_def unsigned_ucast_eq take_bit_nat_eq_self)

lemma placed_majors:
  assumes "majors h a = Some j"
  shows "majors (placed a xs ys m sz req h) b =
    (if b = a then Some (j\<lparr>j_first := (if xs = [] then m else j_first j), j_usage := ucast (ucast (j_usage j) + (sz + HDR))\<rparr>) else majors h b)"
  using assms by (simp add: placed_def linked_def Let_def)

lemma placed_dll:
  assumes h: "heap_ok h Ms" and a: "(a, xs @ ys) \<in> set Ms" and r: "room h a xs ys m (unat sz)" and s: "unat sz < 2 ^ 32" "32 \<le> unat sz"
  shows "dll n_prev n_next (minors (placed a xs ys m sz req h)) NULL NULL (xs @ m # ys)"
proof -
  let ?f = "relink (\<lambda>n v. n\<lparr>n_prev := v\<rparr>, \<lambda>n v. n\<lparr>n_next := v\<rparr>) xs ys m m (minors h)"
  let ?g = "minors (placed a xs ys m sz req h)"
  have ok: "major_ok h a (xs @ ys)" by (rule heap_ok_major [OF h a])
  then have d: "dll n_prev n_next (minors h) NULL NULL (xs @ [] @ ys)" "distinct (xs @ [] @ ys)"
    using fits_distinct [of "bsize h" "unat a + 40" "xs @ ys"] by (simp_all add: major_ok_def)
  have g: "?g x = ?f x" if "x \<in> set xs \<union> set ys" for x
    using placed_minor(1) [OF assms a, of x req] that by auto
  have "dll n_prev n_next ?g NULL m xs" "dll n_prev n_next ?g m NULL ys"
    using nl.relink_dll [OF d, of m m] dll_cong [of xs ?g ?f n_prev n_next] dll_cong [of ys ?g ?f n_prev n_next] g by auto
  moreover have "\<exists>n. ?g m = Some n \<and> n_prev n = last0 NULL xs \<and> n_next n = hd0 NULL ys"
    by (simp add: placed_def Let_def)
  ultimately show ?thesis by (simp add: dll_append)
qed

lemma placed_major:
  assumes h: "heap_ok h Ms" and a: "(a, xs @ ys) \<in> set Ms" and r: "room h a xs ys m (unat sz)"
    and s: "unat sz < 2 ^ 32" "unat sz = unat req + 32"
  shows "major_ok (placed a xs ys m sz req h) a (xs @ m # ys)"
proof -
  let ?h = "placed a xs ys m sz req h"
  have s2: "32 \<le> unat sz" using s by simp
  have ok: "major_ok h a (xs @ ys)" by (rule heap_ok_major [OF h a])
  then obtain j where j: "majors h a = Some j" "j_first j = hd0 NULL (xs @ ys)"
    "unat (j_usage j) = 40 + used (bsize h) (xs @ ys)" by (auto simp: major_ok_def)
  note old = placed_core [OF h a r s(1) s2 a, of _ req] and new = placed_new [OF s, of a xs ys m h]
  have sz: "bsize ?h x = bsize h x" if "x \<in> set (xs @ ys)" for x
    using old(2) that by simp
  have ms: "msize ?h a = msize h a"
    using j by (simp add: msize_def placed_majors)
  have f: "fits (bsize ?h) (unat a + 40) (xs @ ys)" and e: "endp (bsize ?h) (unat a + 40) xs = unat m"
      "endp (bsize ?h) (unat a + 40) (xs @ ys) \<le> unat a + msize h a"
    using ok r layout_cong [OF sz] layout_cong(2) [of xs "bsize ?h" "bsize h"] sz by (auto simp: major_ok_def room_def)
  have "ys = [] \<or> unat m + 40 + bsize ?h m \<le> unat (hd ys)"
    using r new by (auto simp: room_def split: if_splits)
  note ins = fits_insert [OF f eq_imp_le [OF e(1)] this]
  have f': "fits (bsize ?h) (unat a + 40) (xs @ m # ys)" and e': "endp (bsize ?h) (unat a + 40) (xs @ m # ys) \<le> unat a + msize h a"
    using ins e r new by (auto simp: room_def)
  have u: "used (bsize ?h) (xs @ m # ys) = used (bsize h) (xs @ ys) + 40 + unat sz"
    using layout_cong(3) [of xs "bsize ?h" "bsize h"] layout_cong(3) [of ys "bsize ?h" "bsize h"] sz new by simp
  have "msize h a < 2 ^ 32"
    using unat_lt_32 by (simp add: msize_def)
  then have "40 + used (bsize h) (xs @ ys) + 40 + unat sz < 2 ^ 32"
    using endp_ge [OF f'] e' u by linarith
  then have usage: "unat (ucast (ucast (j_usage j) + (sz + HDR) :: u64) :: u32) = 40 + used (bsize ?h) (xs @ m # ys)"
    using usage_add [of "j_usage j" sz] j u by simp
  have mi: "minor_ok ?h a x" if "x \<in> set (xs @ m # ys)" for x
  proof (cases "x = m")
    case False
    then have "minor_ok ?h a x = minor_ok h a x"
      using that by (intro minor_ok_cong old(1) placed_minor(2) [OF h a r s(1) s2 a]) auto
    then show ?thesis
      using False that ok by (auto simp: major_ok_def)
  qed (use new in simp)
  have "\<exists>j'. majors ?h a = Some j' \<and> j_first j' = hd0 NULL (xs @ m # ys) \<and> unat (j_usage j') = 40 + used (bsize ?h) (xs @ m # ys)"
    using j usage by (cases xs) (simp_all add: placed_majors [OF j(1)])
  then show ?thesis
    using ok f' e' mi ms placed_dll [OF h a r s(1) s2] unfolding major_ok_def by simp
qed


lemma placed_ok:
  assumes h: "heap_ok h (Ps @ (a, xs @ ys) # Qs)" and r: "room h a xs ys m (unat sz)"
    and s: "unat sz < 2 ^ 32" "unat sz = unat req + 32"
  shows "heap_ok (placed a xs ys m sz req h) (Ps @ (a, xs @ m # ys) # Qs)"
proof -
  let ?h = "placed a xs ys m sz req h" and ?Ms = "Ps @ (a, xs @ ys) # Qs" and ?Ns = "Ps @ (a, xs @ m # ys) # Qs"
  have a: "(a, xs @ ys) \<in> set ?Ms" by simp
  have s2: "32 \<le> unat sz" using s by simp
  obtain j where j: "majors h a = Some j"
    using heap_ok_major [OF h a] by (auto simp: major_ok_def)
  note mj = placed_majors [OF j, of xs ys m sz req]
  have other: "major_ok ?h b ns" if x: "(b, ns) \<in> set ?Ms" "b \<noteq> a" for b ns
  proof -
    have ne: "x \<notin> set (xs @ ys)" if "x \<in> set ns" for x
      using heap_ok_apart [OF h a x(1)] x(2) major_okD(1,2) [OF heap_ok_major [OF h a], of x]
        major_okD(1,2) [OF heap_ok_major [OF h x(1)] that] by (auto simp: apart_def)
    have "major_ok ?h b ns = major_ok h b ns"
      using placed_minor(1,2) [OF h a r s(1) s2 x(1), of _ req] ne x(2)
      by (intro major_ok_cong) (simp_all add: mj relink_other)
    with heap_ok_major [OF h x(1)] show ?thesis by simp
  qed
  have same: "msize ?h b = msize h b" for b
    using j by (simp add: msize_def mj)
  have "dll j_prev j_next (majors ?h) NULL NULL (map fst ?Ms)"
    using h dll_cong_links [of "map fst ?Ms" j_prev j_next "majors ?h" "majors h" NULL NULL] j
    by (simp add: heap_ok_def mj)
  moreover have "apart ?h = apart h"
    by (intro ext) (simp add: apart_def same)
  moreover have "b \<noteq> a" if "(b, ns) \<in> set Ps \<union> set Qs" for b ns
    using h imageI [OF that, of fst] by (auto simp: heap_ok_def)
  then have "\<forall>(b, ns) \<in> set ?Ns. major_ok ?h b ns"
    using other placed_major [OF h a r s] by auto
  moreover have "l_memRoot ?h = l_memRoot h" "l_bestBet ?h = l_bestBet h"
    by (simp_all add: placed_def linked_def Let_def)
  ultimately show ?thesis
    using h by (simp add: heap_ok_def)
qed

end
