(* ===== verification/Heap_Alloc.thy ===== *)
theory Heap_Alloc
  imports Heap_Inv
begin

text \<open>
  That \<open>kmalloc\<close> finds room or gets more pages, from the search in one major block to the loop over
  all of them, which may go back to the first one once.
\<close>

section \<open>Finding room\<close>

lemma unat_sz_HDR: "unat sz < 2 ^ 32 \<Longrightarrow> unat (sz + HDR) = unat sz + 40"
  by (subst unat_plus_no_wrap) (simp_all add: HDR_def)

lemma unat_gap:
  assumes "unat x + 40 + unat s \<le> unat (t :: u64)"
  shows "unat (t - x - HDR - ucast (s :: u32)) = unat t - (unat x + 40 + unat s)"
proof -
  have "unat (t - x) = unat t - unat x"
    using assms by (intro unat_minus_no_wrap) (simp add: word_le_nat_alt)
  moreover from this have "unat (t - x - HDR) = unat t - unat x - 40"
    using assms by (subst unat_minus_no_wrap) (simp_all add: HDR_def word_le_nat_alt)
  ultimately show ?thesis
    using assms by (subst unat_minus_no_wrap) (simp_all add: unat_ucast_32 word_le_nat_alt)
qed

lemma gap_room:
  assumes ok: "major_ok h a (us @ x # vs)" and j: "majors h a = Some j" and n: "minors h x = Some n"
    and g: "sz + HDR \<le> gap_after a j x n" and s: "unat sz < 2 ^ 32"
  shows "room h a (us @ [x]) vs (x + HDR + ucast (n_size n)) (unat sz)"
proof -
  have sz: "bsize h x = unat (n_size n)" "msize h a = unat (j_size j)"
    using n j by (simp_all add: bsize_def msize_def)
  note x = major_okD [OF ok, of x]
  have b: "unat x + 40 + bsize h x < 2 ^ 64" using x by simp
  then have "unat (x + HDR) = unat x + 40"
    by (subst unat_plus_no_wrap) (simp_all add: HDR_def)
  with b have m: "unat (x + HDR + ucast (n_size n)) = unat x + 40 + bsize h x"
    by (subst unat_plus_no_wrap) (simp_all add: unat_ucast_32 sz)
  have nx: "n_next n = hd0 NULL vs"
    using ok n by (auto simp: major_ok_def dll_append)
  have v: "hd vs \<noteq> NULL" "unat x + 40 + bsize h x \<le> unat (hd vs)" if "vs \<noteq> []"
    using that ok major_okD(5) [OF ok, of "hd vs"] by (auto simp: major_ok_def neq_Nil_conv)
  define t where "t = (if vs = [] then a + ucast (j_size j) else hd vs)"
  have t: "unat t = (if vs = [] then unat a + msize h a else unat (hd vs))"
    using ok unat_plus_no_wrap [of a "ucast (j_size j)"] by (auto simp: t_def sz unat_ucast_32 major_ok_def)
  have "gap_after a j x n = t - x - HDR - ucast (n_size n)"
    using v(1) by (cases vs) (auto simp: gap_after_def nx t_def)
  moreover have "unat x + 40 + unat (n_size n) \<le> unat t"
    using x(2) v(2) sz t by auto
  ultimately have "unat sz + 40 + (unat x + 40 + bsize h x) \<le> unat t"
    using g unat_gap [of x "n_size n" t] by (simp add: word_le_nat_alt unat_sz_HDR [OF s] sz)
  then show ?thesis
    using m t by (simp add: room_def)
qed

lemma scan_minors_ok:
  assumes "dll n_prev n_next (minors h) b NULL ms" and "NULL \<notin> set ms"
  shows "\<exists>r. scan_minors h a j sz (hd0 NULL ms) = Some r \<and>
    (r \<noteq> NULL \<longrightarrow> (\<exists>us vs n. ms = us @ r # vs \<and> minors h r = Some n \<and> sz + HDR \<le> gap_after a j r n))"
  using assms
proof (induction ms arbitrary: b)
  case Nil
  show ?case by (simp add: scan_minors.simps)
next
  case (Cons m ms)
  then obtain n where n: "minors h m = Some n" "n_next n = hd0 NULL ms" and d: "dll n_prev n_next (minors h) m NULL ms"
    by auto
  obtain r where r: "scan_minors h a j sz (hd0 NULL ms) = Some r"
      "r \<noteq> NULL \<longrightarrow> (\<exists>us vs n. ms = us @ r # vs \<and> minors h r = Some n \<and> sz + HDR \<le> gap_after a j r n)"
    using Cons.IH [OF d] Cons.prems by auto
  show ?case
  proof (cases "sz + HDR \<le> gap_after a j m n")
    case True
    then have "scan_minors h a j sz (hd0 NULL (m # ms)) = Some m"
      using Cons.prems n by (subst scan_minors.simps) auto
    moreover have "m # ms = [] @ m # ms" by simp
    ultimately show ?thesis using True n by blast
  next
    case False
    then have "scan_minors h a j sz (hd0 NULL (m # ms)) = Some r"
      using Cons.prems n r by (subst scan_minors.simps) auto
    moreover have "\<exists>us vs n. m # ms = us @ r # vs \<and> minors h r = Some n \<and> sz + HDR \<le> gap_after a j r n" if "r \<noteq> NULL"
      using r that by (metis append_Cons)
    ultimately show ?thesis by blast
  qed
qed


definition spacious :: "heap \<Rightarrow> u64 \<Rightarrow> u64 list \<Rightarrow> u64 \<Rightarrow> bool" where
  "spacious h a ms sz \<longleftrightarrow> 40 + used (bsize h) ms + unat sz + 40 \<le> msize h a"

lemma major_size: "major_ok h a ms \<Longrightarrow> 40 \<le> msize h a"
  using endp_ge [of "bsize h" "unat a + 40" ms] by (auto simp: major_ok_def)

lemma unat_major_HDR: "major_ok h a ms \<Longrightarrow> unat (a + HDR) = unat a + 40"
  using endp_ge [of "bsize h" "unat a + 40" ms]
  by (subst unat_plus_no_wrap) (auto simp: HDR_def major_ok_def)

lemma linked_eqs:
  "majors h a = Some j \<Longrightarrow> linked a [] [] m h = h\<lparr>majors := (majors h)(a \<mapsto> j\<lparr>j_first := m\<rparr>)\<rparr>"
  "majors h a = Some j \<Longrightarrow> minors h y = Some n \<Longrightarrow>
     linked a [] (y # ys) m h = h\<lparr>minors := (minors h)(y \<mapsto> n\<lparr>n_prev := m\<rparr>), majors := (majors h)(a \<mapsto> j\<lparr>j_first := m\<rparr>)\<rparr>"
  "minors h x = Some n \<Longrightarrow> linked a (xs @ [x]) [] m h = h\<lparr>minors := (minors h)(x \<mapsto> n\<lparr>n_next := m\<rparr>)\<rparr>"
  "minors h x = Some n \<Longrightarrow> minors h y = Some n' \<Longrightarrow> x \<noteq> y \<Longrightarrow> linked a (xs @ [x]) (y # ys) m h =
     h\<lparr>minors := (minors h)(y \<mapsto> n'\<lparr>n_prev := m\<rparr>, x \<mapsto> n\<lparr>n_next := m\<rparr>)\<rparr>"
  by (rule heap.equality; simp add: linked_def relink_def)+

lemma try_major_front:
  assumes ok: "major_ok h a ms" and s: "unat sz < 2 ^ 32" and sp: "spacious h a ms sz" and j: "majors h a = Some j"
    and c: "ms = [] \<or> sz + HDR \<le> j_first j - a - HDR"
  shows "room h a [] ms (a + HDR) (unat sz)" and "try_major a sz req h = Some (Some (user_ptr (a + HDR), placed a [] ms (a + HDR) sz req h))"
proof -
  have f: "j_first j = hd0 NULL ms" using ok j by (auto simp: major_ok_def)
  note a = unat_major_HDR [OF ok]
  show "room h a [] ms (a + HDR) (unat sz)"
  proof (cases ms)
    case Nil
    then show ?thesis using a sp by (simp add: room_def spacious_def)
  next
    case (Cons y ys)
    then have "unat a + 40 \<le> unat y" using major_okD(1) [OF ok, of y] by simp
    then have "unat (y - a - HDR) = unat y - (unat a + 40)"
      using unat_gap [of a 0 y] by simp
    then show ?thesis
      using Cons c f a \<open>unat a + 40 \<le> unat y\<close> by (simp add: room_def word_le_nat_alt unat_sz_HDR [OF s])
  qed
  show "try_major a sz req h = Some (Some (user_ptr (a + HDR), placed a [] ms (a + HDR) sz req h))"
  proof (cases ms)
    case Nil
    then show ?thesis
      using f j place_linked [OF j, of "a + HDR" "[]" "[]" sz req]
      by (simp add: try_major_def major_upd_def linked_eqs)
  next
    case (Cons y ys)
    then obtain n where n: "minors h y = Some n" "y \<noteq> NULL"
      using ok major_okD(5) [OF ok, of y] by (auto simp: major_ok_def)
    then show ?thesis
      using Cons f j c place_linked [OF j, of "a + HDR" "[]" ms sz req]
      by (simp add: try_major_def major_upd_def minor_upd_def linked_eqs)
  qed
qed

lemma try_major_behind:
  assumes ok: "major_ok h a (us @ x # vs)" and j: "majors h a = Some j" and n: "minors h x = Some n" and x: "x \<noteq> NULL"
    and c: "j_first j \<noteq> NULL" "\<not> sz + HDR \<le> j_first j - a - HDR" "scan_minors h a j sz (j_first j) = Some x"
  shows "try_major a sz req h =
    Some (Some (user_ptr (x + HDR + ucast (n_size n)), placed a (us @ [x]) vs (x + HDR + ucast (n_size n)) sz req h))"
proof -
  let ?m = "x + HDR + ucast (n_size n)"
  have nx: "n_next n = hd0 NULL vs" and d: "distinct (us @ x # vs)"
    using ok n fits_distinct [of "bsize h" "unat a + 40" "us @ x # vs"] by (auto simp: major_ok_def dll_append)
  note p = place_linked [OF j, of ?m "us @ [x]" vs sz req]
  show ?thesis
  proof (cases vs)
    case Nil
    then show ?thesis
      using j n c x nx p by (simp add: try_major_def minor_upd_def linked_eqs Let_def)
  next
    case (Cons y ys)
    then obtain n' where "minors h y = Some n'" "y \<noteq> NULL" "x \<noteq> y"
      using ok d major_okD(5) [OF ok, of y] by (auto simp: major_ok_def dll_append)
    with Cons show ?thesis
      using j n c x nx p by (simp add: try_major_def minor_upd_def linked_eqs Let_def)
  qed
qed

lemma try_major_ok:
  assumes h: "heap_ok h Ms" and a: "(a, ms) \<in> set Ms" and s: "unat sz < 2 ^ 32" and sp: "spacious h a ms sz"
  shows "(\<exists>xs ys m. ms = xs @ ys \<and> room h a xs ys m (unat sz) \<and>
      try_major a sz req h = Some (Some (user_ptr m, placed a xs ys m sz req h))) \<or> ms \<noteq> [] \<and> try_major a sz req h = Some None"
proof -
  have ok: "major_ok h a ms" by (rule heap_ok_major [OF h a])
  then obtain j where j: "majors h a = Some j" and f: "j_first j = hd0 NULL ms" by (auto simp: major_ok_def)
  show ?thesis
  proof (cases "ms = [] \<or> sz + HDR \<le> j_first j - a - HDR")
    case True
    from try_major_front [OF ok s sp j True] show ?thesis
      by (intro disjI1 exI [of _ "[]"] exI [of _ ms] exI [of _ "a + HDR"]) simp
  next
    case False
    then have ne: "hd0 NULL ms \<noteq> NULL"
      using major_okD(5) [OF ok, of "hd ms"] by (cases ms) auto
    have d: "dll n_prev n_next (minors h) NULL NULL ms" and z: "NULL \<notin> set ms"
      using ok major_okD(5) [OF ok] by (auto simp: major_ok_def)
    from scan_minors_ok [OF d z, of a j sz] obtain x where x: "scan_minors h a j sz (hd0 NULL ms) = Some x"
      and xn: "x \<noteq> NULL \<longrightarrow> (\<exists>us vs n. ms = us @ x # vs \<and> minors h x = Some n \<and> sz + HDR \<le> gap_after a j x n)" by auto
    show ?thesis
    proof (cases "x = NULL")
      case True
      then have "try_major a sz req h = Some None"
        using False j f ne x by (simp add: try_major_def)
      with False show ?thesis by simp
    next
      case xnz: False
      then obtain us vs n where ms: "ms = us @ x # vs" and n: "minors h x = Some n" and g: "sz + HDR \<le> gap_after a j x n"
        using xn by auto
      let ?m = "x + HDR + ucast (n_size n)"
      have r: "room h a (us @ [x]) vs ?m (unat sz)"
        using gap_room [OF _ j n g s] ok ms by simp
      have "try_major a sz req h = Some (Some (user_ptr ?m, placed a (us @ [x]) vs ?m sz req h))"
        using False f ne x ok ms by (intro try_major_behind [OF _ j n xnz]) simp_all
      with r ms show ?thesis
        by (intro disjI1 exI [of _ "us @ [x]"] exI [of _ vs] exI [of _ ?m]) simp
    qed
  qed
qed


section \<open>More pages\<close>

lemma page_count_enough:
  assumes "unat sz + 4176 < 2 ^ 32"
  shows "unat (page_count sz * l_pageSize) = unat (page_count sz) * 4096" "unat sz + 80 \<le> unat (page_count sz) * 4096"
proof -
  define st0 where "st0 = sz + 40 + 40"
  have "unat (sz + 40) = unat sz + 40"
    using assms by (subst unat_plus_no_wrap) simp_all
  then have st0: "unat st0 = unat sz + 80"
    using assms unfolding st0_def by (subst unat_plus_no_wrap) simp_all
  define n q r where "n = unat sz + 80" and "q = n div 4096" and "r = n mod 4096"
  then have n: "n = q * 4096 + r" "r < 4096" "n + 4096 < 2 ^ 32" using assms by simp_all
  define k where "k = (if r = 0 then q else q + 1)"
  have mod: "st0 mod l_pageSize = 0 \<longleftrightarrow> r = 0"
    by (simp add: l_pageSize_def word_unat_eq_iff unat_mod_distrib st0 n_def r_def)
  have dv: "unat (st0 div l_pageSize) = q"
    by (simp add: l_pageSize_def unat_div_distrib st0 n_def q_def)
  have dv1: "unat (st0 div l_pageSize + 1) = q + 1"
    using dv n by (subst unat_plus_no_wrap) simp_all
  have "unat (page_count sz) = max 16 k"
    unfolding page_count_def Let_def st0_def [symmetric] mod
    using dv dv1 by (simp add: l_pageCount_def word_less_nat_alt k_def)
  moreover have "n \<le> k * 4096" "k * 4096 < 2 ^ 32"
    using n unfolding k_def by simp_all
  ultimately show "unat (page_count sz * l_pageSize) = unat (page_count sz) * 4096" "unat sz + 80 \<le> unat (page_count sz) * 4096"
    by (auto simp: l_pageSize_def unat_mult_no_wrap max_def n_def)
qed

text \<open>
  What the heap relies on when it asks for a new major block: the pages it gets do not wrap around the
  end of the address space and are none of those that it has already.
\<close>

definition pages_fresh :: "heap \<Rightarrow> blocks \<Rightarrow> u64 \<Rightarrow> u32 \<Rightarrow> bool" where
  "pages_fresh h Ms a st \<longleftrightarrow> unat a + unat st * 4096 < 2 ^ 64 \<and>
     (\<forall>b \<in> fst ` set Ms. unat b + msize h b \<le> unat a \<or> unat a + unat st * 4096 \<le> unat b)"

definition source_ok :: "heap \<Rightarrow> blocks \<Rightarrow> u64 \<Rightarrow> bool" where
  "source_ok h Ms sz \<longleftrightarrow>
     (case liballoc_alloc (frames (space h)) (kernel_vma_context h) (page_count (ucast sz)) of
        None \<Rightarrow> False
      | Some (a, s) \<Rightarrow> a = NULL \<or> pages_fresh h Ms a (page_count (ucast sz)))"

definition no_pages :: "heap \<Rightarrow> u64 \<Rightarrow> bool" where
  "no_pages h sz \<longleftrightarrow>
     (case liballoc_alloc (frames (space h)) (kernel_vma_context h) (page_count (ucast sz)) of
        None \<Rightarrow> False | Some (a, s) \<Rightarrow> a = NULL)"

lemma grown_ok:
  assumes h: "heap_ok h Ms" and a: "a \<noteq> NULL" and fr: "pages_fresh h Ms a st"
    and j: "majors g a = Some j" "j_prev j = last0 NULL (map fst Ms)" "j_next j = NULL" "j_first j = NULL" "j_usage j = 40"
      "unat (j_size j) = unat st * 4096" "40 \<le> unat st * 4096"
    and mj: "\<And>b. b \<in> fst ` set Ms \<Longrightarrow>
      majors g b = relink (\<lambda>j v. j\<lparr>j_prev := v\<rparr>, \<lambda>j v. j\<lparr>j_next := v\<rparr>) (map fst Ms) [] NULL a (majors h) b"
    and mi: "\<And>b ns m. (b, ns) \<in> set Ms \<Longrightarrow> m \<in> set ns \<Longrightarrow> minors g m = minors h m"
    and o: "hbytes g = hbytes h" "l_memRoot g = hd0 a (map fst Ms)" "l_bestBet g = l_bestBet h"
  shows "heap_ok g (Ms @ [(a, [])])" and "live g (Ms @ [(a, [])]) = live h Ms" and "msize g a = unat st * 4096"
proof -
  have d: "dll j_prev j_next (majors h) NULL NULL (map fst Ms @ [] @ [])" "distinct (map fst Ms @ [] @ [])"
    using h by (simp_all add: heap_ok_def)
  have core: "map_option major_core (majors g b) = map_option major_core (majors h b)" if "b \<in> fst ` set Ms" for b
    using mj [OF that] jl.relink_core [OF d(1)] by simp
  have ms: "msize g b = msize h b" if "b \<in> fst ` set Ms" for b
    using core [OF that] by (cases "majors g b"; cases "majors h b") (auto simp: msize_def major_core_def)
  show msa: "msize g a = unat st * 4096"
    using j by (simp add: msize_def)
  have notin: "a \<notin> fst ` set Ms"
  proof
    assume m: "a \<in> fst ` set Ms"
    then have "40 \<le> msize h a"
      using major_size [OF heap_ok_major [OF h]] by auto
    with m fr j(7) show False by (auto simp: pages_fresh_def)
  qed
  have "dll j_prev j_next (majors g) NULL a (map fst Ms)"
    using jl.relink_dll(1) [OF d, of NULL a] mj by (subst dll_cong) auto
  moreover have "major_ok g b ns" if "(b, ns) \<in> set Ms" for b ns
  proof -
    have "major_ok g b ns = major_ok h b ns"
      using that imageI [OF that, of fst] by (intro major_ok_cong core) (auto simp: mi o)
    then show ?thesis using heap_ok_major [OF h that] by simp
  qed
  moreover have "major_ok g a []"
    using a fr j msa by (simp add: major_ok_def pages_fresh_def)
  moreover have "pairwise (apart g) (insert a (fst ` set Ms))"
  proof -
    have "pairwise (apart g) (fst ` set Ms)"
      using h ms unfolding heap_ok_def pairwise_def apart_def by simp
    moreover have "apart g a b \<and> apart g b a" if "b \<in> fst ` set Ms" for b
      using fr that ms [OF that] msa unfolding apart_def pages_fresh_def by auto
    ultimately show ?thesis by (auto simp: pairwise_insert)
  qed
  ultimately show "heap_ok g (Ms @ [(a, [])])"
    using h j o notin by (auto simp: heap_ok_def dll_append)
  show "live g (Ms @ [(a, [])]) = live h Ms"
    unfolding live_def by (intro image_cong) (auto simp: breq_def mi)
qed


lemma heap_ok_fields:
  assumes "majors g = majors h" "minors g = minors h" "hbytes g = hbytes h" "l_memRoot g = l_memRoot h"
    and "l_bestBet g \<in> insert NULL (fst ` set Ms)" "heap_ok h Ms"
  shows "heap_ok g Ms" "live g Ms = live h Ms"
proof -
  have "minor_ok g = minor_ok h" "bsize g = bsize h" "msize g = msize h" "breq g = breq h"
    by (intro ext; simp add: minor_ok_def bsize_def msize_def breq_def assms)+
  then have "major_ok g = major_ok h" "apart g = apart h" "live g Ms = live h Ms"
    by (intro ext; simp add: major_ok_def apart_def assms live_def)+ (simp add: live_def \<open>breq g = breq h\<close>)
  with assms show "heap_ok g Ms" "live g Ms = live h Ms"
    by (simp_all add: heap_ok_def)
qed

lemma fresh_untouched:
  assumes h: "heap_ok h Ms" and fr: "pages_fresh h Ms a st" and n: "40 \<le> unat st * 4096"
    and b: "(b, ns) \<in> set Ms"
  shows "\<not> touches a (unat st * 4096) b" "x \<in> set ns \<Longrightarrow> \<not> touches a (unat st * 4096) x" "b \<noteq> a"
proof -
  have ok: "major_ok h b ns" by (rule heap_ok_major [OF h b])
  then have bound: "unat b + msize h b < 2 ^ 64" "40 \<le> msize h b"
    using major_size by (auto simp: major_ok_def)
  have ap: "unat b + msize h b \<le> unat a \<or> unat a + unat st * 4096 \<le> unat b" "unat a + unat st * 4096 < 2 ^ 64"
    using fr imageI [OF b, of fst] by (auto simp: pages_fresh_def)
  show "\<not> touches a (unat st * 4096) b" "b \<noteq> a"
    using bound ap n by (auto simp: touches_iff)
  show "\<not> touches a (unat st * 4096) x" if x: "x \<in> set ns"
    using bound ap n major_okD [OF ok x] by (auto simp: touches_iff)
qed

definition with_major :: "u64 \<Rightarrow> u64 \<Rightarrow> u32 \<Rightarrow> pmm \<Rightarrow> heap \<Rightarrow> heap" where
  "with_major new prev st fr h =
     h\<lparr>space := (space h)\<lparr>frames := fr\<rparr>,
       majors := (wipe new (unat (st * l_pageSize)) (majors h))(new \<mapsto>
         \<lparr>j_prev = prev, j_next = NULL, j_pages = st, j_size = st * l_pageSize, j_usage = 40, j_first = NULL\<rparr>),
       minors := wipe new (unat (st * l_pageSize)) (minors h), l_allocated := l_allocated h + ucast (st * l_pageSize)\<rparr>"

lemma new_page_eq:
  assumes "liballoc_alloc (frames (space h)) (kernel_vma_context h) (page_count sz) = Some (new, fr)"
  shows "allocate_new_page sz h = Some (new, if new = NULL then h\<lparr>space := (space h)\<lparr>frames := fr\<rparr>, l_warningCount := l_warningCount h + 1\<rparr>
    else with_major new NULL (page_count sz) fr h)"
  using assms by (simp add: allocate_new_page_def with_major_def Let_def)

lemma append_major_none:
  assumes "liballoc_alloc (frames (space h)) (kernel_vma_context h) (page_count (ucast sz)) = Some (NULL, fr)"
    and j: "majors h a = Some j" "j_next j = NULL"
  shows "append_major a sz h = Some (NULL, h\<lparr>space := (space h)\<lparr>frames := fr\<rparr>, l_warningCount := l_warningCount h + 1\<rparr>)"
proof -
  have "j\<lparr>j_next := NULL\<rparr> = j" using j by simp
  then have "(majors h)(a \<mapsto> j\<lparr>j_next := NULL\<rparr>) = majors h" using j by auto
  then show ?thesis
    using j new_page_eq [OF assms(1)] by (simp add: append_major_def major_upd_def)
qed

lemma append_major_some:
  assumes "liballoc_alloc (frames (space h)) (kernel_vma_context h) st = Some (new, fr)" and st: "st = page_count (ucast sz)"
    and j: "majors h a = Some j" and n: "new \<noteq> NULL" "a \<noteq> new" "\<not> touches new (unat (st * l_pageSize)) a"
  shows "append_major a sz h =
    Some (new, with_major new a st fr h\<lparr>majors := (majors (with_major new a st fr h))(a \<mapsto> j\<lparr>j_next := new\<rparr>)\<rparr>)"
proof -
  have e: "allocate_new_page (ucast sz) h = Some (new, with_major new NULL st fr h)"
    using new_page_eq [of h "ucast sz" new fr] assms(1) n by (simp add: st)
  show ?thesis
    using n j unfolding append_major_def e
    by (simp add: major_upd_def with_major_def wipe_def fun_upd_twist)
qed


lemma appended_ok:
  assumes h: "heap_ok h Ms" and Ms: "Ms = Ps @ [(a, ms)]" and fr: "pages_fresh h Ms new st" and nz: "new \<noteq> NULL"
    and st: "unat (st * l_pageSize) = unat st * 4096" "unat sz + 80 \<le> unat st * 4096" and j: "majors h a = Some j"
    and g: "g = with_major new a st fr' h\<lparr>majors := (majors (with_major new a st fr' h))(a \<mapsto> j\<lparr>j_next := new\<rparr>)\<rparr>"
  shows "heap_ok g (Ms @ [(new, [])])" "live g (Ms @ [(new, [])]) = live h Ms" "spacious g new [] sz"
proof -
  have n: "40 \<le> unat st * 4096" using st by simp
  note out = fresh_untouched [OF h fr n]
  have last: "last0 NULL (map fst Ms) = a" "map fst Ms \<noteq> []" "last (map fst Ms) = a" by (simp_all add: Ms)
  have am: "(a, ms) \<in> set Ms" by (simp add: Ms)
  have na: "a \<noteq> new" using out(3) [OF am] .
  have "majors g b = relink (\<lambda>j v. j\<lparr>j_prev := v\<rparr>, \<lambda>j v. j\<lparr>j_next := v\<rparr>) (map fst Ms) [] NULL new (majors h) b"
    if b: "b \<in> fst ` set Ms" for b
  proof -
    obtain ns where "(b, ns) \<in> set Ms" using b by auto
    then show ?thesis
      using out(1,3) j last by (simp add: relink_def g with_major_def wipe_def st(1))
  qed
  moreover have "minors g m = minors h m" if "(b, ns) \<in> set Ms" "m \<in> set ns" for b ns m
    using out(2) [OF that] by (simp add: g with_major_def wipe_def st(1))
  moreover have "l_memRoot h = hd0 new (map fst Ms)"
    using h last(2) by (cases "map fst Ms") (auto simp: heap_ok_def)
  ultimately have *: "heap_ok g (Ms @ [(new, [])])" "live g (Ms @ [(new, [])]) = live h Ms" "msize g new = unat st * 4096"
    using grown_ok [OF h nz fr, of g "\<lparr>j_prev = a, j_next = NULL, j_pages = st, j_size = st * l_pageSize, j_usage = 40, j_first = NULL\<rparr>"]
      na last(1) st n by (simp_all add: g with_major_def)
  then show "heap_ok g (Ms @ [(new, [])])" "live g (Ms @ [(new, [])]) = live h Ms" "spacious g new [] sz"
    using st by (simp_all add: spacious_def)
qed

lemma append_major_ok:
  assumes h: "heap_ok h Ms" and Ms: "Ms = Ps @ [(a, ms)]" and src: "source_ok h Ms sz" and s: "unat sz + 4176 < 2 ^ 32"
  obtains new g where "append_major a sz h = Some (new, g)" "hbytes g = hbytes h"
    "if new = NULL then no_pages h sz \<and> heap_ok g Ms \<and> live g Ms = live h Ms
     else heap_ok g (Ms @ [(new, [])]) \<and> live g (Ms @ [(new, [])]) = live h Ms \<and> spacious g new [] sz"
proof -
  define st where "st = page_count (ucast sz)"
  have u: "unat (ucast sz :: u32) = unat sz"
    using s by (simp add: unsigned_ucast_eq take_bit_nat_eq_self)
  note st = page_count_enough [of "ucast sz", folded st_def, unfolded u, OF s]
  obtain new fr where la: "liballoc_alloc (frames (space h)) (kernel_vma_context h) st = Some (new, fr)"
    and ok: "new = NULL \<or> pages_fresh h Ms new st"
    using src by (auto simp: source_ok_def st_def split: option.splits)
  obtain j where j: "majors h a = Some j" "j_next j = NULL"
    using h by (auto simp: heap_ok_def Ms dll_append)
  show thesis
  proof (cases "new = NULL")
    case True
    let ?g = "h\<lparr>space := (space h)\<lparr>frames := fr\<rparr>, l_warningCount := l_warningCount h + 1\<rparr>"
    have "heap_ok ?g Ms" "live ?g Ms = live h Ms"
      using h by (intro heap_ok_fields [OF _ _ _ _ _ h]; simp add: heap_ok_def)+
    moreover have "append_major a sz h = Some (NULL, ?g)" "no_pages h sz"
      using append_major_none [OF _ j, of sz fr] la True by (simp_all add: st_def no_pages_def)
    ultimately show thesis using that [of NULL ?g] by simp
  next
    case False
    then have fresh: "pages_fresh h Ms new st" using ok by simp
    have "40 \<le> unat st * 4096" "(a, ms) \<in> set Ms" using st Ms by simp_all
    note out = fresh_untouched [OF h fresh this]
    define g where "g = with_major new a st fr h\<lparr>majors := (majors (with_major new a st fr h))(a \<mapsto> j\<lparr>j_next := new\<rparr>)\<rparr>"
    have "append_major a sz h = Some (new, g)"
      unfolding g_def using append_major_some [OF la st_def j(1) False out(3)] out(1) st by simp
    moreover have "hbytes g = hbytes h" by (simp add: g_def with_major_def)
    ultimately show thesis
      using that [of new g] appended_ok [OF h Ms fresh False st j(1) g_def] False by simp
  qed
qed



section \<open>Allocating and freeing\<close>

text \<open>
  What an allocation of \<open>req\<close> bytes that returns \<open>p\<close> has done: without pages nothing; otherwise there is one more
  live block, aligned and apart from all others, whose contents are as they were.
\<close>

definition alloc_ok :: "heap \<Rightarrow> blocks \<Rightarrow> u64 \<Rightarrow> u64 \<Rightarrow> u64 \<Rightarrow> heap \<Rightarrow> blocks \<Rightarrow> bool" where
  "alloc_ok h Ms sz req p h' Ms' \<longleftrightarrow> heap_ok h' Ms' \<and>
     (if p = NULL then no_pages h sz \<and> live h' Ms' = live h Ms \<and> hbytes h' = hbytes h
      else unat p mod 16 = 0 \<and> unat p + unat req < 2 ^ 64 \<and> live h' Ms' = insert (p, unat req) (live h Ms) \<and>
        (\<forall>(q, n) \<in> live h Ms. q \<noteq> p \<and> (unat q + n \<le> unat p \<or> unat p + unat req \<le> unat q) \<and>
           (\<forall>i<n. hbytes h' (q + of_nat i) = hbytes h (q + of_nat i))))"

lemma liveE:
  assumes "(q, n) \<in> live h Ms"
  obtains b ns x where "(b, ns) \<in> set Ms" "x \<in> set ns" "q = user_ptr x" "n = breq h x"
  using assms by (auto simp: live_def)

lemma live_extent:
  assumes "heap_ok h Ms" "(a, ms) \<in> set Ms" "x \<in> set ms"
  shows "unat x + 56 \<le> unat (user_ptr x)" "unat (user_ptr x) + breq h x < unat x + 40 + bsize h x"
proof -
  note o = major_okD [OF heap_ok_major [OF assms(1,2)] assms(3)]
  have "breq h x + 32 \<le> bsize h x"
    using heap_ok_major [OF assms(1,2)] assms(3) by (auto simp: major_ok_def minor_ok_def breq_def bsize_def)
  then show "unat x + 56 \<le> unat (user_ptr x)" "unat (user_ptr x) + breq h x < unat x + 40 + bsize h x"
    using user_ptr_bounds [OF o(4) o(3)] by simp_all
qed

lemma placed_live:
  assumes h: "heap_ok h (Ps @ (a, xs @ ys) # Qs)" and r: "room h a xs ys m (unat sz)"
    and s: "unat sz < 2 ^ 32" "unat sz = unat req + 32"
  shows "live (placed a xs ys m sz req h) (Ps @ (a, xs @ m # ys) # Qs) = insert (user_ptr m, unat req) (live h (Ps @ (a, xs @ ys) # Qs))"
proof -
  let ?h = "placed a xs ys m sz req h" and ?Ms = "Ps @ (a, xs @ ys) # Qs"
  let ?B = "\<Union>(a, ms) \<in> set ?Ms. set ms"
  have "32 \<le> unat sz" using s by simp
  then have "breq ?h x = breq h x" if "x \<in> ?B" for x
    using that placed_core(3) [OF h _ r s(1)] by force
  then have "(\<lambda>m. (user_ptr m, breq ?h m)) ` ?B = live h ?Ms"
    unfolding live_def by (intro image_cong) auto
  moreover have "(\<Union>(a, ms) \<in> set (Ps @ (a, xs @ m # ys) # Qs). set ms) = insert m ?B"
    by auto
  ultimately show ?thesis
    using placed_new(2) [OF s] by (simp add: live_def)
qed

lemma placed_alloc:
  assumes h: "heap_ok h (Ps @ (a, xs @ ys) # Qs)" and r: "room h a xs ys m (unat sz)"
    and s: "unat sz < 2 ^ 32" "unat sz = unat req + 32"
  shows "alloc_ok h (Ps @ (a, xs @ ys) # Qs) sz req (user_ptr m) (placed a xs ys m sz req h) (Ps @ (a, xs @ m # ys) # Qs)"
proof -
  let ?h = "placed a xs ys m sz req h" and ?Ms = "Ps @ (a, xs @ ys) # Qs"
  have a: "(a, xs @ ys) \<in> set ?Ms" by simp
  have "unat m + 40 + unat sz < 2 ^ 64"
    using room_end [OF heap_ok_major [OF h a] r] heap_ok_major [OF h a] by (auto simp: major_ok_def)
  note m = this user_ptr_bounds [OF this]
  have "q \<noteq> user_ptr m \<and> (unat q + n \<le> unat (user_ptr m) \<or> unat (user_ptr m) + unat req \<le> unat q) \<and>
      (\<forall>i<n. hbytes ?h (q + of_nat i) = hbytes h (q + of_nat i))" if q: "(q, n) \<in> live h ?Ms" for q n
  proof -
    obtain b ns x where x: "(b, ns) \<in> set ?Ms" "x \<in> set ns" "q = user_ptr x" "n = breq h x"
      using q by (rule liveE)
    have d: "distinct (map fst ?Ms)" using h by (simp add: heap_ok_def)
    note f = room_free [OF h a r x(1,2) d] and e = live_extent [OF h x(1,2)]
    have bound: "unat x + 40 + bsize h x < 2 ^ 64"
      by (rule major_okD(4) [OF heap_ok_major [OF h x(1)] x(2)])
    have "hbytes ?h (q + of_nat i) = hbytes h (q + of_nat i)" if "i < n" for i
    proof -
      have "unat (q + of_nat i) = unat q + i"
        using e bound that x by (subst unat_plus_no_wrap) (simp_all add: unat_of_nat)
      then have "q + of_nat i \<noteq> tag m"
        using f e m s x that by auto
      then show ?thesis
        by (simp add: placed_def linked_def Let_def)
    qed
    moreover have "q \<noteq> user_ptr m" "unat q + n \<le> unat (user_ptr m) \<or> unat (user_ptr m) + unat req \<le> unat q"
      using f e m s x by auto
    ultimately show ?thesis by simp
  qed
  moreover have "unat (user_ptr m) mod 16 = 0" "unat (user_ptr m) + unat req < 2 ^ 64" "user_ptr m \<noteq> NULL"
    using m s by auto
  ultimately show ?thesis
    using placed_live [OF assms] placed_ok [OF assms] by (auto simp: alloc_ok_def)
qed


lemma alloc_ok_trans:
  assumes "alloc_ok g Ns sz req p h' Ms'" and "live g Ns = live h Ms" and "hbytes g = hbytes h" and "p = NULL \<Longrightarrow> no_pages h sz"
  shows "alloc_ok h Ms sz req p h' Ms'"
  using assms unfolding alloc_ok_def by (cases "p = NULL") simp_all

lemma free_bytes:
  assumes "heap_ok h Ms" and a: "(a, ms) \<in> set Ms" and j: "majors h a = Some j" and s: "unat sz < 2 ^ 32"
  shows "ucast (j_size j - j_usage j) < sz + HDR \<longleftrightarrow> \<not> spacious h a ms sz"
proof -
  have ok: "major_ok h a ms" by (rule heap_ok_major [OF assms(1,2)])
  have u: "unat (j_usage j) = 40 + used (bsize h) ms" "unat (j_size j) = msize h a"
    using ok j by (auto simp: major_ok_def msize_def)
  moreover have "unat (j_usage j) \<le> unat (j_size j)"
    using ok endp_ge [of "bsize h" "unat a + 40" ms] u by (auto simp: major_ok_def)
  ultimately have "unat (j_size j - j_usage j) = msize h a - (40 + used (bsize h) ms)"
    by (subst unat_minus_no_wrap) (simp_all add: word_le_nat_alt)
  then show ?thesis
    by (auto simp: word_less_nat_alt unat_ucast_32 unat_sz_HDR [OF s] spacious_def)
qed

lemma view_ok:
  assumes "majors g = majors h" "minors g = minors h" "hbytes g = hbytes h" "l_memRoot g = l_memRoot h"
    and s: "space g = space h" "kernel_vma_context g = kernel_vma_context h"
    and "l_bestBet g \<in> insert NULL (fst ` set Ms)" "heap_ok h Ms"
  shows "heap_ok g Ms" "live g Ms = live h Ms" "source_ok g Ms sz = source_ok h Ms sz" "spacious g a ms sz = spacious h a ms sz"
    "no_pages g sz = no_pages h sz"
proof -
  show "heap_ok g Ms" "live g Ms = live h Ms"
    using assms by (intro heap_ok_fields [of g h]; simp)+
  have "bsize g = bsize h" "msize g = msize h"
    by (intro ext; simp add: bsize_def msize_def assms)+
  moreover from this have "pages_fresh g = pages_fresh h"
    by (intro ext) (simp add: pages_fresh_def)
  ultimately show "spacious g a ms sz = spacious h a ms sz" "no_pages g sz = no_pages h sz"
      "source_ok g Ms sz = source_ok h Ms sz"
    by (simp_all add: spacious_def no_pages_def source_ok_def s cong: option.case_cong)
qed

lemma bet_ok:
  assumes "heap_ok h Ms" and "x \<in> insert NULL (fst ` set Ms)"
  shows "heap_ok (h\<lparr>l_bestBet := x\<rparr>) Ms" "live (h\<lparr>l_bestBet := x\<rparr>) Ms = live h Ms"
    "source_ok (h\<lparr>l_bestBet := x\<rparr>) Ms sz = source_ok h Ms sz" "spacious (h\<lparr>l_bestBet := x\<rparr>) a ms sz = spacious h a ms sz"
    "no_pages (h\<lparr>l_bestBet := x\<rparr>) sz = no_pages h sz"
  using view_ok [of "h\<lparr>l_bestBet := x\<rparr>" h] assms by simp_all

text \<open>The rest of a round after case 1.\<close>

definition resume :: "u64 \<Rightarrow> u64 \<Rightarrow> bool \<Rightarrow> u64 \<Rightarrow> round \<times> heap \<Rightarrow> (u64 \<times> heap) option" where
  "resume sz req b best = (\<lambda>(r, h2).
      case r of
        Break \<Rightarrow> Some (NULL, h2)
      | Continue m b' \<Rightarrow> malloc_loop sz req m b' best h2
      | Here m \<Rightarrow> do {
          found \<leftarrow> try_major m sz req h2;
          case found of
            Some res \<Rightarrow> Some res
          | None \<Rightarrow> do {
              (r', h3) \<leftarrow> case5 m sz b h2;
              case r' of
                Continue m' b' \<Rightarrow> malloc_loop sz req m' b' best h3
              | _ \<Rightarrow> Some (NULL, h3) } })"

lemma loop_unfold:
  assumes "a \<noteq> NULL" "majors h a = Some j"
  obtains x best' where "x \<in> {l_bestBet h, a}"
    "malloc_loop sz req a b best h = case1 a j sz b (h\<lparr>l_bestBet := x\<rparr>) \<bind> resume sz req b best'"
proof (rule that)
  let ?d = "ucast (j_size j - j_usage j)"
  show "(if best < ?d then a else l_bestBet h) \<in> {l_bestBet h, a}" by simp
  have "(if best < ?d then h\<lparr>l_bestBet := a\<rparr> else h) = h\<lparr>l_bestBet := (if best < ?d then a else l_bestBet h)\<rparr>"
    by simp
  then show "malloc_loop sz req a b best h =
      case1 a j sz b (h\<lparr>l_bestBet := (if best < ?d then a else l_bestBet h)\<rparr>) \<bind> resume sz req b (max best ?d)"
    by (subst malloc_loop.simps) (simp only: assms if_False bind.simps Let_def resume_def)
qed

lemma loop_fresh:
  assumes h: "heap_ok h (Ms @ [(a, [])])" and sp: "spacious h a [] sz" and s: "unat sz < 2 ^ 32" "unat sz = unat req + 32"
  shows "\<exists>p h' Ms'. try_major a sz req h = Some (Some (p, h')) \<and> p \<noteq> NULL \<and> alloc_ok h (Ms @ [(a, [])]) sz req p h' Ms'"
    and "\<exists>p h' Ms'. malloc_loop sz req a b best h = Some (p, h') \<and> p \<noteq> NULL \<and> alloc_ok h (Ms @ [(a, [])]) sz req p h' Ms'"
proof -
  let ?Ms = "Ms @ [(a, [])]"
  have found: "\<exists>p h' Ms'. try_major a sz req g = Some (Some (p, h')) \<and> p \<noteq> NULL \<and> alloc_ok g ?Ms sz req p h' Ms'"
    if g: "heap_ok g ?Ms" "spacious g a [] sz" for g
  proof -
    have am: "(a, []) \<in> set ?Ms" by simp
    from try_major_ok [OF g(1) am s(1) g(2), of req] obtain m where r: "room g a [] [] m (unat sz)"
      and t: "try_major a sz req g = Some (Some (user_ptr m, placed a [] [] m sz req g))" by auto
    have "unat m + 40 + unat sz < 2 ^ 64"
      using room_end [of g a "[]" "[]", OF _ r] heap_ok_major [OF g(1) am] by (auto simp: major_ok_def)
    then have "user_ptr m \<noteq> NULL" using user_ptr_bounds(6) [of m "unat sz"] s by simp
    moreover have "alloc_ok g ?Ms sz req (user_ptr m) (placed a [] [] m sz req g) (Ms @ [(a, [m])])"
      using placed_alloc [of g Ms a "[]" "[]" "[]" m sz req] g r s by simp
    ultimately show ?thesis using t by blast
  qed
  show "\<exists>p h' Ms'. try_major a sz req h = Some (Some (p, h')) \<and> p \<noteq> NULL \<and> alloc_ok h ?Ms sz req p h' Ms'"
    by (rule found [OF h sp])
  obtain j where j: "majors h a = Some j" "a \<noteq> NULL"
    using heap_ok_major [OF h, of a "[]"] by (auto simp: major_ok_def)
  obtain x best' where x: "x \<in> {l_bestBet h, a}" and eq: "malloc_loop sz req a b best h = case1 a j sz b (h\<lparr>l_bestBet := x\<rparr>) \<bind> resume sz req b best'"
    by (rule loop_unfold [OF j(2,1)])
  let ?g = "h\<lparr>l_bestBet := x\<rparr>"
  have "x \<in> insert NULL (fst ` set ?Ms)" using x h by (auto simp: heap_ok_def)
  note g = bet_ok [OF h this]
  have "case1 a j sz b ?g = Some (Here a, ?g)"
    using free_bytes [OF h _ j(1) s(1), of "[]"] sp by (simp add: case1_def)
  moreover obtain p h' Ms' where t: "try_major a sz req ?g = Some (Some (p, h'))" "p \<noteq> NULL" "alloc_ok ?g ?Ms sz req p h' Ms'"
    using found [OF g(1)] g(4) sp by blast
  ultimately have "malloc_loop sz req a b best h = Some (p, h')"
    unfolding eq by (simp add: resume_def)
  moreover have "alloc_ok h ?Ms sz req p h' Ms'"
    using alloc_ok_trans [OF t(3) g(2)] t(2) by simp
  ultimately show "\<exists>p h' Ms'. malloc_loop sz req a b best h = Some (p, h') \<and> p \<noteq> NULL \<and> alloc_ok h ?Ms sz req p h' Ms'"
    using t(2) by blast
qed


text \<open>
  The way on from the major block \<open>a\<close> when it has no room: to the next one, back to the first one, or to a
  new one. \<open>k\<close> is what is done with a new one.
\<close>

lemma advance_ok:
  assumes h: "heap_ok h Ms" and Ms: "Ms = Ps @ (a, ms) # Qs" and src: "source_ok h Ms sz"
    and s: "unat sz + 4176 < 2 ^ 32" "unat sz = unat req + 32" and j: "majors h a = Some j"
    and nxt: "\<And>Ps' c ns Qs' b'. Ms = Ps' @ (c, ns) # Qs' \<Longrightarrow> Qs = (c, ns) # Qs' \<and> b' = b \<or> b \<and> \<not> b' \<Longrightarrow>
      \<exists>p h' Ms'. malloc_loop sz req c b' best h = Some (p, h') \<and> alloc_ok h Ms sz req p h' Ms'"
    and k: "\<And>new g Ns. heap_ok g (Ns @ [(new, [])]) \<Longrightarrow> spacious g new [] sz \<Longrightarrow>
      \<exists>p h' Ms'. k new g = Some (p, h') \<and> p \<noteq> NULL \<and> alloc_ok g (Ns @ [(new, [])]) sz req p h' Ms'"
  shows "\<exists>p h' Ms'. (if j_next j \<noteq> NULL then malloc_loop sz req (j_next j) b best h
      else if b then malloc_loop sz req (l_memRoot h) False best h
      else do { (new, g) \<leftarrow> append_major a sz h; if new = NULL then Some (NULL, g) else k new g }) = Some (p, h') \<and>
    alloc_ok h Ms sz req p h' Ms'"
proof -
  have nx: "j_next j = hd0 NULL (map fst Qs)"
    using h j by (auto simp: heap_ok_def Ms dll_append)
  consider (more) c ns Qs' where "Qs = (c, ns) # Qs'" | (restart) "Qs = []" b | (grow) "Qs = []" "\<not> b"
    by (cases Qs) auto
  then show ?thesis
  proof cases
    case more
    then have "major_ok h c ns" by (intro heap_ok_major [OF h]) (simp add: Ms)
    then have "c \<noteq> NULL" by (simp add: major_ok_def)
    then show ?thesis
      using more nx nxt [of "Ps @ [(a, ms)]" c ns Qs' b] by (simp add: Ms)
  next
    case restart
    obtain c ns Ms' where c: "Ms = (c, ns) # Ms'" by (cases Ms) (auto simp: Ms)
    then have "l_memRoot h = c" using h by (simp add: heap_ok_def)
    then show ?thesis
      using restart nx nxt [of "[]" c ns Ms' False] c by simp
  next
    case grow
    then have Ms': "Ms = Ps @ [(a, ms)]" by (simp add: Ms)
    obtain new g where g: "append_major a sz h = Some (new, g)" "hbytes g = hbytes h"
      and ok: "if new = NULL then no_pages h sz \<and> heap_ok g Ms \<and> live g Ms = live h Ms
       else heap_ok g (Ms @ [(new, [])]) \<and> live g (Ms @ [(new, [])]) = live h Ms \<and> spacious g new [] sz"
      by (rule append_major_ok [OF h Ms' src s(1)])
    show ?thesis
    proof (cases "new = NULL")
      case True
      then have "alloc_ok h Ms sz req NULL g Ms" using ok g by (simp add: alloc_ok_def)
      then show ?thesis using grow nx g True by auto
    next
      case False
      then obtain p h' Ns where "k new g = Some (p, h')" "p \<noteq> NULL" and al: "alloc_ok g (Ms @ [(new, [])]) sz req p h' Ns"
        using k [of g Ms new] ok by auto
      moreover from this have "alloc_ok h Ms sz req p h' Ns"
        using alloc_ok_trans [OF al, of h Ms] ok g False by simp
      ultimately show ?thesis using grow nx g False by auto
    qed
  qed
qed

lemma malloc_loop_ok:
  assumes s: "unat sz + 4176 < 2 ^ 32" "unat sz = unat req + 32"
  shows "heap_ok h Ms \<Longrightarrow> Ms = Ps @ (a, ms) # Qs \<Longrightarrow> source_ok h Ms sz \<Longrightarrow>
    \<exists>p h' Ms'. malloc_loop sz req a b best h = Some (p, h') \<and> alloc_ok h Ms sz req p h' Ms'"
proof (induction "if b then length Ms + length Qs + 1 else length Qs" arbitrary: h a ms Ps Qs b best rule: less_induct)
  case less
  note h = less.prems(1) and Ms = less.prems(2) and src = less.prems(3)
  have am: "(a, ms) \<in> set Ms" by (simp add: Ms)
  have s32: "unat sz < 2 ^ 32" using s by simp
  obtain j where j: "majors h a = Some j" "a \<noteq> NULL"
    using heap_ok_major [OF h am] by (auto simp: major_ok_def)
  obtain x best' where x: "x \<in> {l_bestBet h, a}" and eq: "malloc_loop sz req a b best h = case1 a j sz b (h\<lparr>l_bestBet := x\<rparr>) \<bind> resume sz req b best'"
    by (rule loop_unfold [OF j(2,1)])
  define g where "g = h\<lparr>l_bestBet := x\<rparr>"
  have "x \<in> insert NULL (fst ` set Ms)" using x h imageI [OF am, of fst] by (auto simp: heap_ok_def)
  note g = bet_ok [OF h this, folded g_def]
  have jg: "majors g a = Some j" using j by (simp add: g_def)
  have lift: "\<exists>p h' Ms'. r = Some (p, h') \<and> alloc_ok h Ms sz req p h' Ms'"
    if r: "\<exists>p h' Ms'. r = Some (p, h') \<and> alloc_ok g Ms sz req p h' Ms'" for r
  proof -
    obtain p h' Ms' where "r = Some (p, h')" and al: "alloc_ok g Ms sz req p h' Ms'"
      using r by blast
    moreover have "alloc_ok h Ms sz req p h' Ms'"
      using al g(5) by (intro alloc_ok_trans [OF al g(2)]) (simp_all add: g_def alloc_ok_def)
    ultimately show ?thesis by blast
  qed
  have nxt: "\<exists>p h' Ms'. malloc_loop sz req c b' best' g = Some (p, h') \<and> alloc_ok g Ms sz req p h' Ms'"
    if m: "Ms = Ps' @ (c, ns) # Qs'" and q: "Qs = (c, ns) # Qs' \<and> b' = b \<or> b \<and> \<not> b'" for Ps' c ns Qs' b'
  proof (rule less.hyps [OF _ g(1) m])
    have "length Qs' < length Ms" by (simp add: m)
    with q show "(if b' then length Ms + length Qs' + 1 else length Qs') < (if b then length Ms + length Qs + 1 else length Qs)"
      by auto
    show "source_ok g Ms sz" using src g(3) by simp
  qed
  have srcg: "source_ok g Ms sz" using src g(3) by simp
  note adv = advance_ok [OF g(1) Ms srcg s jg, where b = b and best = best', OF nxt]
  show ?case
  proof (cases "spacious h a ms sz")
    case False
    have "\<exists>p h' Ms'. resume sz req b best' (Here new, g') = Some (p, h') \<and> p \<noteq> NULL \<and> alloc_ok g' (Ns @ [(new, [])]) sz req p h' Ms'"
      if "heap_ok g' (Ns @ [(new, [])])" "spacious g' new [] sz" for new g' Ns
      using loop_fresh(1) [OF that s32 s(2)] by (auto simp: resume_def)
    note r = adv [where k = "\<lambda>new g'. resume sz req b best' (Here new, g')", OF _ _ this]
    have "case1 a j sz b g \<bind> resume sz req b best' =
      (if j_next j \<noteq> NULL then malloc_loop sz req (j_next j) b best' g
       else if b then malloc_loop sz req (l_memRoot g) False best' g
       else do { (new, g') \<leftarrow> append_major a sz g; if new = NULL then Some (NULL, g') else resume sz req b best' (Here new, g') })"
      using free_bytes [OF h am j(1) s32] False
      by (cases "append_major a sz g") (simp_all add: case1_def resume_def split_beta)
    then show ?thesis unfolding eq g_def [symmetric] using lift [OF r] by simp
  next
    case True
    then have c1: "case1 a j sz b g = Some (Here a, g)"
      using free_bytes [OF h am j(1) s32] by (simp add: case1_def)
    have sp: "spacious g a ms sz" using True g(4) by simp
    from try_major_ok [OF g(1) am s32 sp, of req] show ?thesis
    proof (elim disjE exE conjE)
      fix xs ys m
      assume ms: "ms = xs @ ys" and r: "room g a xs ys m (unat sz)"
        and t: "try_major a sz req g = Some (Some (user_ptr m, placed a xs ys m sz req g))"
      have "alloc_ok g Ms sz req (user_ptr m) (placed a xs ys m sz req g) (Ps @ (a, xs @ m # ys) # Qs)"
        using placed_alloc [of g Ps a xs ys Qs m sz req] g(1) r s s32 by (simp add: Ms ms)
      then show ?thesis
        unfolding eq g_def [symmetric] c1 by (intro lift) (auto simp: resume_def t)
    next
      assume t: "try_major a sz req g = Some None"
      have "case1 a j sz b g \<bind> resume sz req b best' =
        (if j_next j \<noteq> NULL then malloc_loop sz req (j_next j) b best' g
         else if b then malloc_loop sz req (l_memRoot g) False best' g
         else do { (new, g') \<leftarrow> append_major a sz g; if new = NULL then Some (NULL, g') else malloc_loop sz req new False best' g' })"
        using t jg by (cases "append_major a sz g") (simp_all add: c1 resume_def case5_def split_beta)
      then show ?thesis
        unfolding eq g_def [symmetric] using lift [OF adv [where k = "\<lambda>new. malloc_loop sz req new False best'", OF _ _ loop_fresh(2) [OF _ _ s32 s(2)]]] by simp
    qed
  qed
qed


lemma first_major_ok:
  assumes h: "heap_ok h []" and src: "source_ok h [] sz" and s: "unat sz + 4176 < 2 ^ 32"
  obtains new g where "allocate_new_page (ucast sz) h = Some (new, g)" "hbytes g = hbytes h" "l_bestBet g = NULL"
    "if new = NULL then no_pages h sz \<and> heap_ok (g\<lparr>l_memRoot := new\<rparr>) []
     else heap_ok (g\<lparr>l_memRoot := new\<rparr>) [(new, [])] \<and> live (g\<lparr>l_memRoot := new\<rparr>) [(new, [])] = live h [] \<and>
       spacious (g\<lparr>l_memRoot := new\<rparr>) new [] sz"
proof -
  define st where "st = page_count (ucast sz)"
  have u: "unat (ucast sz :: u32) = unat sz"
    using s by (simp add: unsigned_ucast_eq take_bit_nat_eq_self)
  note st = page_count_enough [of "ucast sz", folded st_def, unfolded u, OF s]
  obtain new fr where la: "liballoc_alloc (frames (space h)) (kernel_vma_context h) st = Some (new, fr)"
    and ok: "new = NULL \<or> pages_fresh h [] new st"
    using src by (auto simp: source_ok_def st_def split: option.splits)
  have root: "l_memRoot h = NULL" "l_bestBet h = NULL" using h by (simp_all add: heap_ok_def)
  note eq = new_page_eq [of h "ucast sz", folded st_def, OF la]
  show thesis
  proof (cases "new = NULL")
    case True
    let ?g = "h\<lparr>space := (space h)\<lparr>frames := fr\<rparr>, l_warningCount := l_warningCount h + 1\<rparr>"
    have "heap_ok (?g\<lparr>l_memRoot := NULL\<rparr>) []"
      using h root by (intro heap_ok_fields(1) [OF _ _ _ _ _ h]) simp_all
    moreover have "no_pages h sz" using la True by (simp add: no_pages_def st_def)
    ultimately show thesis using that [of NULL ?g] eq True root by simp
  next
    case False
    then have fresh: "pages_fresh h [] new st" using ok by simp
    let ?g = "with_major new NULL st fr h" and ?j = "\<lparr>j_prev = NULL, j_next = NULL, j_pages = st, j_size = st * l_pageSize, j_usage = 40, j_first = NULL\<rparr>"
    have "heap_ok (?g\<lparr>l_memRoot := new\<rparr>) [(new, [])]" "live (?g\<lparr>l_memRoot := new\<rparr>) [(new, [])] = live h []"
        "msize (?g\<lparr>l_memRoot := new\<rparr>) new = unat st * 4096"
      using grown_ok [OF h False fresh, of "?g\<lparr>l_memRoot := new\<rparr>" ?j] st by (simp_all add: with_major_def)
    then show thesis
      using that [of new ?g] eq False st root by (simp add: with_major_def spacious_def)
  qed
qed

lemma malloc_locked_ok:
  assumes h: "heap_ok h Ms" and src: "source_ok h Ms sz" and s: "unat sz + 4176 < 2 ^ 32" "unat sz = unat req + 32"
  shows "\<exists>p h' Ms'. malloc_locked sz req h = Some (p, h') \<and> alloc_ok h Ms sz req p h' Ms'"
proof (cases Ms)
  case Nil
  obtain new g where g: "allocate_new_page (ucast sz) h = Some (new, g)" "hbytes g = hbytes h" "l_bestBet g = NULL"
    and ok: "if new = NULL then no_pages h sz \<and> heap_ok (g\<lparr>l_memRoot := new\<rparr>) []
     else heap_ok (g\<lparr>l_memRoot := new\<rparr>) [(new, [])] \<and> live (g\<lparr>l_memRoot := new\<rparr>) [(new, [])] = live h [] \<and>
       spacious (g\<lparr>l_memRoot := new\<rparr>) new [] sz"
    using first_major_ok [of h sz] h src s(1) Nil by blast
  have root: "l_memRoot h = NULL" using h Nil by (simp add: heap_ok_def)
  show ?thesis
  proof (cases "new = NULL")
    case True
    then have "malloc_locked sz req h = Some (NULL, g\<lparr>l_memRoot := NULL\<rparr>)"
      using root g by (simp add: malloc_locked_def)
    moreover have "alloc_ok h Ms sz req NULL (g\<lparr>l_memRoot := NULL\<rparr>) []"
      using ok True Nil g by (simp add: alloc_ok_def live_def)
    ultimately show ?thesis by blast
  next
    case False
    let ?g = "g\<lparr>l_memRoot := new\<rparr>"
    have "malloc_locked sz req h = malloc_loop sz req new False 0 ?g"
      using root g False by (simp add: malloc_locked_def)
    moreover obtain p h' Ms' where r: "malloc_loop sz req new False 0 ?g = Some (p, h')" "p \<noteq> NULL" "alloc_ok ?g [(new, [])] sz req p h' Ms'"
      using loop_fresh(2) [of ?g "[]" new sz req False 0] ok False s by auto
    moreover have "alloc_ok h Ms sz req p h' Ms'"
      using r(2) ok False Nil g by (intro alloc_ok_trans [OF r(3)]) simp_all
    ultimately show ?thesis by auto
  qed
next
  case (Cons am Ms')
  then obtain a ms where Ms: "Ms = (a, ms) # Ms'" by (cases am) auto
  have a: "l_memRoot h = a" "a \<noteq> NULL"
    using h heap_ok_major [OF h, of a ms] by (auto simp: Ms heap_ok_def major_ok_def)
  note from_root = malloc_loop_ok [OF s h _ src, of "[]" a ms Ms']
  show ?thesis
  proof (cases "l_bestBet h = NULL")
    case True
    then show ?thesis
      using from_root [of False 0] a Ms by (simp add: malloc_locked_def)
  next
    case False
    then obtain ns where ns: "(l_bestBet h, ns) \<in> set Ms" using h by (auto simp: heap_ok_def)
    then obtain Ps Qs where "Ms = Ps @ (l_bestBet h, ns) # Qs" by (meson split_list)
    note from_bet = malloc_loop_ok [OF s h this src]
    obtain bet where "majors h (l_bestBet h) = Some bet"
      using heap_ok_major [OF h ns] by (auto simp: major_ok_def)
    then show ?thesis
      using from_root [of False "ucast (j_size bet - j_usage bet)"] from_bet [of True "ucast (j_size bet - j_usage bet)"] False a Ms
      by (simp add: malloc_locked_def Let_def)
  qed
qed

lemma kmalloc_ok:
  assumes h: "heap_ok h Ms" and l: "\<not> liballoc_lock_var h" and r: "unat req < 2 ^ 31" and src: "source_ok h Ms (req + 32)"
  shows "\<exists>p h' Ms'. kmalloc req h = Some (p, h') \<and> alloc_ok h Ms (req + 32) req p h' Ms' \<and> \<not> liballoc_lock_var h'"
proof -
  let ?h = "h\<lparr>liballoc_lock_var := True\<rparr>"
  have sz: "unat (req + 32) = unat req + 32"
    using r by (subst unat_plus_no_wrap) simp_all
  then have nz: "req + 32 \<noteq> 0" by auto
  have "l_bestBet ?h \<in> insert NULL (fst ` set Ms)" using h by (simp add: heap_ok_def)
  note v = view_ok [of ?h h Ms, OF _ _ _ _ _ _ this h, simplified]
  obtain p h' Ms' where k: "malloc_locked (req + 32) req ?h = Some (p, h')" "alloc_ok ?h Ms (req + 32) req p h' Ms'"
    using malloc_locked_ok [of ?h Ms "req + 32" req] v(1,3) src sz r by auto
  have "kmalloc req h = Some (p, liballoc_unlock h')"
    using l k nz by (simp add: kmalloc_def liballoc_lock_def ALIGNMENT_def ALIGN_INFO_def)
  moreover have "alloc_ok h Ms (req + 32) req p h' Ms'"
    using k(2) v(5) by (intro alloc_ok_trans [OF k(2) v(2)]) (simp_all add: alloc_ok_def)
  then have "alloc_ok h Ms (req + 32) req p (liballoc_unlock h') Ms'"
    using heap_ok_fields [of "liballoc_unlock h'" h' Ms'] by (auto simp: alloc_ok_def liballoc_unlock_def heap_ok_def)
  ultimately show ?thesis by (auto simp: liballoc_unlock_def)
qed

end
