(* ===== verification/Heap_Props.thy ===== *)
theory Heap_Props
  imports Heap_Alloc
begin

text \<open>
  That \<open>kfree\<close> takes a block out of the lists and gives empty major blocks back, and the properties of
  the heap: what allocation and freeing do to the live blocks, and that no client that keeps to its
  blocks can break it.
\<close>

section \<open>Freeing\<close>

lemma blocks_apart:
  assumes h: "heap_ok h Ms" and x: "(a, ms) \<in> set Ms" "x \<in> set ms" and y: "(b, ns) \<in> set Ms" "y \<in> set ns" and ne: "x \<noteq> y \<or> a \<noteq> b"
  shows "unat x + 40 + bsize h x \<le> unat y \<or> unat y + 40 + bsize h y \<le> unat x"
proof (cases "a = b")
  case True
  then have "ns = ms"
    using h x y by (auto simp: heap_ok_def dest: eq_key_imp_eq_value)
  with True x y ne show ?thesis
    using fits_disjoint [of "bsize h" "unat a + 40" ms x y] heap_ok_major [OF h x(1)] by (simp add: major_ok_def)
next
  case False
  then show ?thesis
    using heap_ok_apart [OF h x(1) y(1)] major_okD(1,2) [OF heap_ok_major [OF h x(1)] x(2)]
      major_okD(1,2) [OF heap_ok_major [OF h y(1)] y(2)] by (auto simp: apart_def)
qed

lemma user_ptr_inj:
  assumes h: "heap_ok h Ms" and x: "(a, ms) \<in> set Ms" "x \<in> set ms" and y: "(b, ns) \<in> set Ms" "y \<in> set ns"
    and eq: "user_ptr x = user_ptr y"
  shows "x = y" "a = b"
  using blocks_apart [OF h x y] live_extent [OF h x] live_extent [OF h y] eq by auto

definition freed :: "u64 \<Rightarrow> u64 list \<Rightarrow> u64 list \<Rightarrow> u64 \<Rightarrow> liballoc_minor \<Rightarrow> heap \<Rightarrow> heap" where
  "freed a xs ys m n h =
     h\<lparr>l_inuse := l_inuse h - ucast (n_size n),
       majors := (majors h)(a \<mapsto> (let j = j_usage_update (\<lambda>u. ucast (ucast u - (ucast (n_size n) + HDR) :: u64)) (the (majors h a))
         in if xs = [] then j\<lparr>j_first := hd0 NULL ys\<rparr> else j)),
       minors := relink (\<lambda>n v. n\<lparr>n_prev := v\<rparr>, \<lambda>n v. n\<lparr>n_next := v\<rparr>) xs ys (last0 NULL xs) (hd0 NULL ys)
         ((minors h)(m \<mapsto> n\<lparr>n_magic := LIBALLOC_DEAD\<rparr>))\<rparr>"

lemma major_distinct: "major_ok h a ms \<Longrightarrow> distinct ms"
  using fits_distinct by (auto simp: major_ok_def)

lemma unlink_eq:
  assumes ok: "major_ok h a (xs @ m # ys)" and n: "minors h m = Some n" and j: "majors h a = Some j"
  shows "unlink_minor m n (h\<lparr>l_inuse := l_inuse h - ucast (n_size n),
      majors := (majors h)(a \<mapsto> j_usage_update (\<lambda>u. ucast (ucast u - (ucast (n_size n) + HDR) :: u64)) j),
      minors := (minors h)(m \<mapsto> n\<lparr>n_magic := LIBALLOC_DEAD\<rparr>)\<rparr>) = Some (freed a xs ys m n h)"
proof -
  have d: "dll n_prev n_next (minors h) NULL NULL (xs @ m # ys)" and b: "n_block n = a"
    using ok n by (auto simp: major_ok_def minor_ok_def)
  have dist: "distinct (xs @ m # ys)" by (rule major_distinct [OF ok])
  have pn: "n_prev n = last0 NULL xs" "n_next n = hd0 NULL ys" using d n by (auto simp: dll_append)
  have z: "NULL \<notin> set (xs @ m # ys)" using major_okD(5) [OF ok] by auto
  have ys: "\<exists>n'. minors h (hd ys) = Some n'" if "ys \<noteq> []" using dll_dom [OF d] that by auto
  have xs: "\<exists>n'. minors h (last xs) = Some n'" if "xs \<noteq> []" using dll_dom [OF d] that by auto
  show ?thesis
    using xs ys dist z
    by (cases xs rule: rev_cases; cases ys)
      (auto simp: unlink_minor_def pn b minor_upd_def major_upd_def freed_def relink_def j Let_def intro!: heap.equality)
qed

lemma free_minor_eq:
  assumes ok: "major_ok h a (xs @ m # ys)" and n: "minors h m = Some n" and j: "majors h a = Some j"
  shows "free_minor m n h =
    (let g = freed a xs ys m n h; j' = the (majors g a) in if xs @ ys = [] then release_major a j' g else update_bet a j' g)"
proof -
  have b: "n_block n = a" and f: "j_first j = hd0 NULL (xs @ m # ys)"
    using ok n j by (auto simp: major_ok_def minor_ok_def)
  have "hd0 NULL ys = NULL \<longleftrightarrow> ys = []" "hd0 m xs \<noteq> NULL"
    using major_okD(5) [OF ok] by (cases ys; cases xs; auto)+
  then have e: "j_first (the (majors (freed a xs ys m n h) a)) = NULL \<longleftrightarrow> xs @ ys = []"
    using f j by (auto simp: freed_def Let_def)
  have s: "majors (freed a xs ys m n h) a = Some (the (majors (freed a xs ys m n h) a))"
    by (simp add: freed_def)
  have "free_minor m n h = do { h3 \<leftarrow> Some (freed a xs ys m n h);
      j \<leftarrow> majors h3 a; if j_first j = NULL then release_major a j h3 else update_bet a j h3 }"
    using unlink_eq [OF assms] b j n by (simp add: free_minor_def major_upd_def minor_upd_def Let_def)
  also have "\<dots> = (let g = freed a xs ys m n h; j' = the (majors g a) in if xs @ ys = [] then release_major a j' g else update_bet a j' g)"
    using e by (subst bind.bind_lunit, subst s) (simp add: Let_def)
  finally show ?thesis .
qed


lemma usage_sub:
  assumes "unat s + 40 \<le> unat u"
  shows "unat (ucast (ucast (u :: u32) - (ucast (s :: u32) + HDR) :: u64) :: u32) = unat u - (unat s + 40)"
proof -
  have "unat (ucast s + HDR) = unat s + 40"
    using unat_lt_32 [of s] by (subst unat_plus_no_wrap) (simp_all add: HDR_def unat_ucast_32)
  then have "unat (ucast u - (ucast s + HDR)) = unat u - (unat s + 40)"
    using assms by (subst unat_minus_no_wrap) (simp_all add: unat_ucast_32 word_le_nat_alt)
  then show ?thesis
    using unat_lt_32 [of u] by (simp add: unsigned_ucast_eq take_bit_nat_eq_self)
qed

lemma freed_minors:
  assumes ok: "major_ok h a (xs @ m # ys)" and n: "minors h m = Some n"
  shows "dll n_prev n_next (minors (freed a xs ys m n h)) NULL NULL (xs @ ys)"
    and "x \<noteq> m \<Longrightarrow> map_option minor_core (minors (freed a xs ys m n h) x) = map_option minor_core (minors h x)"
    and "x \<notin> set (xs @ m # ys) \<Longrightarrow> minors (freed a xs ys m n h) x = minors h x"
proof -
  let ?f = "(minors h)(m \<mapsto> n\<lparr>n_magic := LIBALLOC_DEAD\<rparr>)"
  have "dll n_prev n_next (minors h) NULL NULL (xs @ m # ys)" using ok by (simp add: major_ok_def)
  then have d: "dll n_prev n_next ?f NULL NULL (xs @ [m] @ ys)"
    using n by (subst dll_cong_links [where g = "minors h"]) auto
  have dist: "distinct (xs @ [m] @ ys)" using major_distinct [OF ok] by simp
  show "dll n_prev n_next (minors (freed a xs ys m n h)) NULL NULL (xs @ ys)"
    using nl.relink_dll [OF d dist, of "last0 NULL xs" "hd0 NULL ys"] by (simp add: freed_def dll_append)
  show "map_option minor_core (minors (freed a xs ys m n h) x) = map_option minor_core (minors h x)" if "x \<noteq> m"
    using nl.relink_core [OF d] that by (simp add: freed_def)
  show "minors (freed a xs ys m n h) x = minors h x" if "x \<notin> set (xs @ m # ys)"
    using that by (simp add: freed_def relink_other)
qed

lemma freed_major:
  assumes ok: "major_ok h a (xs @ m # ys)" and n: "minors h m = Some n"
  shows "major_ok (freed a xs ys m n h) a (xs @ ys)" and "msize (freed a xs ys m n h) b = msize h b"
proof -
  let ?h = "freed a xs ys m n h"
  obtain j where j: "majors h a = Some j" "j_first j = hd0 NULL (xs @ m # ys)" "unat (j_usage j) = 40 + used (bsize h) (xs @ m # ys)"
    using ok by (auto simp: major_ok_def)
  have m: "m \<notin> set (xs @ ys)" using major_distinct [OF ok] by auto
  note core = freed_minors(2) [OF ok n]
  have sz: "bsize ?h x = bsize h x" if "x \<in> set (xs @ ys)" for x
    using sizes_cong [OF core, of x] that m by auto
  show ms: "msize ?h b = msize h b" for b
    using j by (auto simp: msize_def freed_def Let_def)
  have f: "fits (bsize h) (unat a + 40) (xs @ ys)" "endp (bsize h) (unat a + 40) (xs @ ys) \<le> unat a + msize h a"
    using fits_delete [of "bsize h" "unat a + 40" xs m ys] ok by (auto simp: major_ok_def)
  have "unat (ucast (ucast (j_usage j) - (ucast (n_size n) + HDR) :: u64) :: u32) = 40 + used (bsize h) (xs @ ys)"
    using usage_sub [of "n_size n" "j_usage j"] j(3) n by (simp add: bsize_def)
  moreover have "used (bsize ?h) (xs @ ys) = used (bsize h) (xs @ ys)"
    by (rule layout_cong(3)) (rule sz)
  moreover have "\<exists>j'. majors ?h a = Some j' \<and> j_first j' = hd0 NULL (xs @ ys) \<and>
      j_usage j' = ucast (ucast (j_usage j) - (ucast (n_size n) + HDR) :: u64)"
    using j by (cases xs) (auto simp: freed_def Let_def)
  ultimately have "\<exists>j'. majors ?h a = Some j' \<and> j_first j' = hd0 NULL (xs @ ys) \<and> unat (j_usage j') = 40 + used (bsize ?h) (xs @ ys)"
    by auto
  moreover have "minor_ok ?h a x" if "x \<in> set (xs @ ys)" for x
  proof -
    have "hbytes ?h (tag x) = hbytes h (tag x)" by (simp add: freed_def)
    moreover have "x \<noteq> m" using that m by auto
    ultimately have "minor_ok ?h a x = minor_ok h a x"
      by (intro minor_ok_cong core)
    with that ok show ?thesis by (auto simp: major_ok_def)
  qed
  ultimately show "major_ok ?h a (xs @ ys)"
    using ok f layout_cong(1,2) [OF sz] ms freed_minors(1) [OF ok n] unfolding major_ok_def by simp
qed

lemma freed_ok:
  assumes h: "heap_ok h (Ps @ (a, xs @ m # ys) # Qs)" and n: "minors h m = Some n"
  shows "heap_ok (freed a xs ys m n h) (Ps @ (a, xs @ ys) # Qs)"
    and "live (freed a xs ys m n h) (Ps @ (a, xs @ ys) # Qs) = live h (Ps @ (a, xs @ m # ys) # Qs) - {(user_ptr m, breq h m)}"
proof -
  let ?h = "freed a xs ys m n h" and ?Ms = "Ps @ (a, xs @ m # ys) # Qs" and ?Ns = "Ps @ (a, xs @ ys) # Qs"
  have a: "(a, xs @ m # ys) \<in> set ?Ms" by simp
  have ok: "major_ok h a (xs @ m # ys)" by (rule heap_ok_major [OF h a])
  obtain j where j: "majors h a = Some j" using ok by (auto simp: major_ok_def)
  have ne: "b \<noteq> a" if "(b, ns) \<in> set Ps \<union> set Qs" for b ns
    using h imageI [OF that, of fst] by (auto simp: heap_ok_def)
  have out: "x \<notin> set (xs @ m # ys)" if "(b, ns) \<in> set Ps \<union> set Qs" "x \<in> set ns" for b ns x
    using blocks_apart [OF h a, of x b ns x] that ne [OF that(1)] by (auto simp: le_Suc_eq)
  have other: "major_ok ?h b ns" if x: "(b, ns) \<in> set Ps \<union> set Qs" for b ns
  proof -
    have "major_ok ?h b ns = major_ok h b ns"
      using out [OF x] ne [OF x] freed_minors(3) [OF ok n]
      by (intro major_ok_cong) (auto simp: freed_def)
    then show ?thesis using heap_ok_major [OF h, of b ns] x by auto
  qed
  have ap: "apart ?h = apart h"
    by (intro ext) (simp add: apart_def freed_major(2) [OF ok n])
  have "dll j_prev j_next (majors ?h) NULL NULL (map fst ?Ms)"
    using h dll_cong_links [of "map fst ?Ms" j_prev j_next "majors ?h" "majors h" NULL NULL] j
    by (simp add: heap_ok_def freed_def Let_def)
  then show "heap_ok ?h ?Ns"
    using h other freed_major(1) [OF ok n] ap by (auto simp: heap_ok_def freed_def)
  let ?B = "\<Union>(a, ms) \<in> set ?Ns. set ms"
  have B: "(\<Union>(a, ms) \<in> set ?Ms. set ms) = insert m ?B" by auto
  have m: "user_ptr m \<noteq> user_ptr x" "x \<noteq> m" if x: "x \<in> ?B" for x
  proof -
    from x consider b ns where "(b, ns) \<in> set Ps \<union> set Qs" "x \<in> set ns" | "x \<in> set (xs @ ys)" by auto
    then have "user_ptr m \<noteq> user_ptr x"
    proof cases
      case 1
      then show ?thesis
        using user_ptr_inj(2) [OF h a, of m b ns x] ne [OF 1(1)] by auto
    next
      case 2
      then have "x \<noteq> m" using major_distinct [OF ok] by auto
      with 2 show ?thesis
        using user_ptr_inj(1) [OF h a _ a, of m x] by auto
    qed
    then show "user_ptr m \<noteq> user_ptr x" "x \<noteq> m" by auto
  qed
  have "breq ?h x = breq h x" if "x \<in> ?B" for x
    using sizes_cong(2) [OF freed_minors(2) [OF ok n m(2) [OF that]]] .
  then have "live ?h ?Ns = (\<lambda>x. (user_ptr x, breq h x)) ` ?B"
    unfolding live_def by (intro image_cong) auto
  then show "live ?h ?Ns = live h ?Ms - {(user_ptr m, breq h m)}"
    using m(1) unfolding live_def B image_insert by blast
qed


lemma update_bet_ok:
  assumes h: "heap_ok h Ms" and a: "(a, ms) \<in> set Ms"
  shows "\<exists>x. update_bet a j h = Some (h\<lparr>l_bestBet := x\<rparr>) \<and> x \<in> insert NULL (fst ` set Ms)"
proof (cases "l_bestBet h = NULL")
  case True
  moreover from this have "h\<lparr>l_bestBet := NULL\<rparr> = h" by simp
  ultimately show ?thesis by (intro exI [of _ NULL]) (simp add: update_bet_def)
next
  case False
  then obtain ns where "(l_bestBet h, ns) \<in> set Ms" using h by (auto simp: heap_ok_def)
  then obtain bet where "majors h (l_bestBet h) = Some bet" using heap_ok_major [OF h, of "l_bestBet h" ns] by (auto simp: major_ok_def)
  then have "update_bet a j h = Some (h\<lparr>l_bestBet :=
      if sint (j_size j - j_usage j) > sint (j_size bet - j_usage bet) then a else l_bestBet h\<rparr>)" (is "_ = Some (h\<lparr>l_bestBet := ?x\<rparr>)")
    using False by (simp add: update_bet_def)
  moreover have "?x \<in> insert NULL (fst ` set Ms)"
    using imageI [OF a, of fst] h by (simp add: heap_ok_def)
  ultimately show ?thesis by (intro exI [of _ ?x] conjI)
qed

definition released :: "u64 \<Rightarrow> u64 list \<Rightarrow> u64 list \<Rightarrow> liballoc_major \<Rightarrow> vmm \<Rightarrow> heap \<Rightarrow> heap" where
  "released a xs ys j v h =
     h\<lparr>l_memRoot := (if l_memRoot h = a then hd0 NULL ys else l_memRoot h), l_bestBet := (if l_bestBet h = a then NULL else l_bestBet h),
       majors := (relink (\<lambda>j v. j\<lparr>j_prev := v\<rparr>, \<lambda>j v. j\<lparr>j_next := v\<rparr>) xs ys (last0 NULL xs) (hd0 NULL ys) (majors h))(a := None),
       l_allocated := l_allocated h - ucast (j_size j), space := v, minors := wipe a (unat (j_size j)) (minors h)\<rparr>"

lemma release_major_eq:
  assumes d: "dll j_prev j_next (majors h) NULL NULL (xs @ a # ys)" and dist: "distinct (xs @ a # ys)" and z: "NULL \<notin> set (xs @ a # ys)"
    and j: "majors h a = Some j" and v: "liballoc_free (space h) (kernel_vma_context h) a (j_pages j) = Some v"
  shows "release_major a j h = Some (released a xs ys j v h)"
proof -
  have pn: "j_prev j = last0 NULL xs" "j_next j = hd0 NULL ys" using d j by (auto simp: dll_append)
  have ys: "\<exists>j'. majors h (hd ys) = Some j'" if "ys \<noteq> []" using dll_dom [OF d] that by auto
  have xs: "\<exists>j'. majors h (last xs) = Some j'" if "xs \<noteq> []" using dll_dom [OF d] that by auto
  show ?thesis
    using xs ys dist z
    by (cases xs rule: rev_cases; cases ys)
      (auto simp: release_major_def pn major_upd_def released_def relink_def v Let_def fun_upd_twist intro!: heap.equality)
qed

lemma released_ok:
  assumes h: "heap_ok h (Ps @ (a, []) # Qs)" and j: "majors h a = Some j"
  shows "heap_ok (released a (map fst Ps) (map fst Qs) j v h) (Ps @ Qs)"
    and "live (released a (map fst Ps) (map fst Qs) j v h) (Ps @ Qs) = live h (Ps @ (a, []) # Qs)"
proof -
  let ?h = "released a (map fst Ps) (map fst Qs) j v h" and ?Ms = "Ps @ (a, []) # Qs"
  have a: "(a, []) \<in> set ?Ms" by simp
  have ok: "major_ok h a []" by (rule heap_ok_major [OF h a])
  have d: "dll j_prev j_next (majors h) NULL NULL (map fst Ps @ [a] @ map fst Qs)" and dist: "distinct (map fst Ps @ [a] @ map fst Qs)"
    using h by (simp_all add: heap_ok_def)
  have na: "b \<noteq> a" if "b \<in> fst ` set (Ps @ Qs)" for b using dist that by auto
  have notin: "a \<notin> set (map fst Ps)" "a \<notin> set (map fst Qs)" using dist by auto
  have core: "map_option major_core (majors ?h b) = map_option major_core (majors h b)" if "b \<in> fst ` set (Ps @ Qs)" for b
    using jl.relink_core [OF d] na [OF that] by (simp add: released_def)
  have ms: "msize ?h b = msize h b" if "b \<in> fst ` set (Ps @ Qs)" for b
    using core [OF that] by (cases "majors ?h b"; cases "majors h b") (auto simp: msize_def major_core_def)
  have mi: "minors ?h x = minors h x" if b: "(b, ns) \<in> set (Ps @ Qs)" "x \<in> set ns" for b ns x
  proof -
    have bm: "(b, ns) \<in> set ?Ms" using b by auto
    have "b \<noteq> a" using na imageI [OF b(1), of fst] by auto
    then have "apart h b a" by (rule heap_ok_apart [OF h bm a])
    moreover have "unat a + msize h a < 2 ^ 64" "msize h a = unat (j_size j)" "40 \<le> msize h a"
      using ok j major_size by (auto simp: major_ok_def msize_def)
    ultimately have "\<not> touches a (unat (j_size j)) x"
      using major_okD [OF heap_ok_major [OF h bm] b(2)] by (subst touches_iff) (auto simp: apart_def)
    then show ?thesis by (simp add: released_def wipe_def)
  qed
  have "major_ok ?h b ns" if b: "(b, ns) \<in> set (Ps @ Qs)" for b ns
  proof -
    have "hbytes ?h = hbytes h" by (simp add: released_def)
    then have "major_ok ?h b ns = major_ok h b ns"
      using mi [OF b] imageI [OF b, of fst] by (intro major_ok_cong core) auto
    then show ?thesis using heap_ok_major [OF h, of b ns] b by auto
  qed
  moreover have "dll j_prev j_next (majors ?h) NULL NULL (map fst (Ps @ Qs))"
    using jl.relink_dll [OF d dist, of "last0 NULL (map fst Ps)" "hd0 NULL (map fst Qs)"] notin
    by (simp add: released_def dll_append del: set_map)
  moreover have "pairwise (apart ?h) (fst ` set (Ps @ Qs))"
    using h ms unfolding heap_ok_def pairwise_def apart_def by simp
  moreover have "l_memRoot ?h = hd0 NULL (map fst (Ps @ Qs))"
    using h dist by (cases Ps) (auto simp: heap_ok_def released_def)
  moreover have "l_bestBet ?h \<in> insert NULL (fst ` set (Ps @ Qs))"
    using h by (auto simp: heap_ok_def released_def)
  ultimately show "heap_ok ?h (Ps @ Qs)"
    using dist by (auto simp: heap_ok_def)
  have "(\<Union>(a, ms) \<in> set ?Ms. set ms) = (\<Union>(a, ms) \<in> set (Ps @ Qs). set ms)" by auto
  moreover have "breq ?h x = breq h x" if x: "x \<in> (\<Union>(a, ms) \<in> set (Ps @ Qs). set ms)" for x
  proof -
    obtain b ns where "(b, ns) \<in> set (Ps @ Qs)" "x \<in> set ns" using x by blast
    then show ?thesis by (simp only: breq_def mi)
  qed
  ultimately show "live ?h (Ps @ Qs) = live h ?Ms"
    unfolding live_def by (metis (mono_tags, lifting) image_cong)
qed


text \<open>What the heap relies on when it gives an empty major block back: that the call returns.\<close>

definition pages_returnable :: "heap \<Rightarrow> blocks \<Rightarrow> bool" where
  "pages_returnable h Ms \<longleftrightarrow> (\<forall>a \<in> fst ` set Ms.
     liballoc_free (space h) (kernel_vma_context h) a (j_pages (the (majors h a))) \<noteq> None)"

lemma free_minor_ok:
  assumes h: "heap_ok h Ms" and Ms: "Ms = Ps @ (a, xs @ m # ys) # Qs" and n: "minors h m = Some n" and r: "pages_returnable h Ms"
  shows "\<exists>h' Ms'. free_minor m n h = Some h' \<and> heap_ok h' Ms' \<and> live h' Ms' = live h Ms - {(user_ptr m, breq h m)} \<and> hbytes h' = hbytes h"
proof -
  let ?g = "freed a xs ys m n h"
  have am: "(a, xs @ m # ys) \<in> set Ms" by (simp add: Ms)
  have ok: "major_ok h a (xs @ m # ys)" by (rule heap_ok_major [OF h am])
  obtain j where j: "majors h a = Some j" using ok by (auto simp: major_ok_def)
  note eq = free_minor_eq [OF ok n j]
  note g = freed_ok [OF h [unfolded Ms] n, folded Ms]
  have hb: "hbytes ?g = hbytes h" by (simp add: freed_def)
  show ?thesis
  proof (cases "xs @ ys = []")
    case False
    obtain x where "update_bet a (the (majors ?g a)) ?g = Some (?g\<lparr>l_bestBet := x\<rparr>)"
      and x: "x \<in> insert NULL (fst ` set (Ps @ (a, xs @ ys) # Qs))"
      using update_bet_ok [OF g(1), of a "xs @ ys"] by auto
    then have "free_minor m n h = Some (?g\<lparr>l_bestBet := x\<rparr>)"
      using eq [unfolded Let_def] False by (simp del: append_is_Nil_conv)
    then show ?thesis
      using bet_ok(1,2) [OF g(1) x] g(2) hb by auto
  next
    case True
    let ?j = "the (majors ?g a)"
    have jg: "majors ?g a = Some ?j" "j_pages ?j = j_pages j" by (auto simp: freed_def Let_def j)
    have "a \<in> fst ` set Ms" using imageI [OF am, of fst] by simp
    then obtain v where v: "liballoc_free (space ?g) (kernel_vma_context ?g) a (j_pages ?j) = Some v"
      using r j jg(2) by (auto simp: pages_returnable_def freed_def)
    have ge: "heap_ok ?g (Ps @ (a, []) # Qs)" using g(1) True by simp
    have "c \<noteq> NULL" if c: "c \<in> fst ` set (Ps @ (a, []) # Qs)" for c
    proof -
      obtain ms where "(c, ms) \<in> set (Ps @ (a, []) # Qs)" using c by force
      from heap_ok_major [OF ge this] show ?thesis by (simp add: major_ok_def)
    qed
    then have "release_major a ?j ?g = Some (released a (map fst Ps) (map fst Qs) ?j v ?g)"
      using ge v jg(1) by (intro release_major_eq) (auto simp: heap_ok_def)
    then have "free_minor m n h = Some (released a (map fst Ps) (map fst Qs) ?j v ?g)"
      using eq [unfolded Let_def] True by (simp del: append_is_Nil_conv)
    then show ?thesis
      using released_ok [OF ge jg(1), of v] g(2) True hb by (auto simp: released_def)
  qed
qed

lemma kfree_ok:
  assumes h: "heap_ok h Ms" and l: "\<not> liballoc_lock_var h" and p: "(p, n) \<in> live h Ms" and r: "pages_returnable h Ms"
  shows "\<exists>h' Ms'. kfree p h = Some h' \<and> heap_ok h' Ms' \<and> live h' Ms' = live h Ms - {(p, n)} \<and> hbytes h' = hbytes h \<and> \<not> liballoc_lock_var h'"
proof -
  let ?h = "h\<lparr>liballoc_lock_var := True\<rparr>"
  obtain a ms m where m: "(a, ms) \<in> set Ms" "m \<in> set ms" "p = user_ptr m" "n = breq h m"
    using p by (rule liveE)
  obtain xs ys where ms: "ms = xs @ m # ys" using split_list [OF m(2)] by blast
  obtain Ps Qs where Ms: "Ms = Ps @ (a, xs @ m # ys) # Qs" using split_list [OF m(1)] ms by blast
  have ok: "minor_ok h a m" using heap_ok_major [OF h m(1)] m(2) by (simp add: major_ok_def)
  then obtain k where k: "minors h m = Some k" "n_magic k = LIBALLOC_MAGIC"
    and tag: "hbytes h (tag m) = ucast (align_diff (m + HDR) + ALIGN_INFO)" by (auto simp: minor_ok_def)
  have nz: "p \<noteq> NULL"
    using user_ptr_bounds(6) [OF major_okD(4,3) [OF heap_ok_major [OF h m(1)] m(2)]] m(3) by simp
  have "l_bestBet ?h \<in> insert NULL (fst ` set Ms)" using h by (simp add: heap_ok_def)
  note v = view_ok [of ?h h Ms, OF _ _ _ _ _ _ this h, simplified]
  have ret: "pages_returnable ?h Ms" using r by (simp add: pages_returnable_def)
  obtain h' Ms' where f: "free_minor m k ?h = Some h'" "heap_ok h' Ms'" "live h' Ms' = live ?h Ms - {(user_ptr m, breq ?h m)}" "hbytes h' = hbytes ?h"
    using free_minor_ok [OF v(1) Ms _ ret, of k] k by auto
  have "kfree p h = Some (liballoc_unlock h')"
    using l k nz f(1) UNALIGN_eq [OF tag] m(3) by (simp add: kfree_def liballoc_lock_def)
  moreover have "heap_ok (liballoc_unlock h') Ms'" "live (liballoc_unlock h') Ms' = live h' Ms'"
    using f(2) heap_ok_fields [of "liballoc_unlock h'" h' Ms'] by (auto simp: liballoc_unlock_def heap_ok_def)
  moreover have "breq ?h m = n" using m(4) by (simp add: breq_def)
  ultimately show ?thesis
    using f v(2) m(3) by (auto simp: liballoc_unlock_def)
qed



section \<open>Properties\<close>

lemma live_disjoint:
  assumes h: "heap_ok h Ms" and p: "(p, n) \<in> live h Ms" and q: "(q, k) \<in> live h Ms" and ne: "(p, n) \<noteq> (q, k)"
  shows "unat p + n \<le> unat q \<or> unat q + k \<le> unat p"
proof -
  obtain a ms x where x: "(a, ms) \<in> set Ms" "x \<in> set ms" "p = user_ptr x" "n = breq h x" using p by (rule liveE)
  obtain b ns y where y: "(b, ns) \<in> set Ms" "y \<in> set ns" "q = user_ptr y" "k = breq h y" using q by (rule liveE)
  have "x \<noteq> y" using ne x y by auto
  then show ?thesis
    using blocks_apart [OF h x(1,2) y(1,2)] live_extent [OF h x(1,2)] live_extent [OF h y(1,2)] x y by auto
qed

text \<open>A client that writes inside its block does not touch what the heap keeps in memory.\<close>

lemma write_block_ok:
  assumes h: "heap_ok h Ms" and p: "(p, n) \<in> live h Ms" and i: "i < n"
  shows "heap_ok (h\<lparr>hbytes := (hbytes h)(p + of_nat i := v)\<rparr>) Ms" "live (h\<lparr>hbytes := (hbytes h)(p + of_nat i := v)\<rparr>) Ms = live h Ms"
proof -
  let ?h = "h\<lparr>hbytes := (hbytes h)(p + of_nat i := v)\<rparr>"
  obtain a ms x where x: "(a, ms) \<in> set Ms" "x \<in> set ms" "p = user_ptr x" "n = breq h x" using p by (rule liveE)
  have u: "unat (p + of_nat i) = unat p + i"
    using live_extent [OF h x(1,2)] major_okD(4) [OF heap_ok_major [OF h x(1)] x(2)] x i
    by (subst unat_plus_no_wrap) (simp_all add: unat_of_nat)
  have "hbytes ?h (tag y) = hbytes h (tag y)" if y: "(b, ns) \<in> set Ms" "y \<in> set ns" for b ns y
  proof -
    note t = user_ptr_bounds [OF major_okD(4,3) [OF heap_ok_major [OF h y(1)] y(2)]]
    have "unat (p + of_nat i) \<noteq> unat (tag y)"
    proof (cases "x = y")
      case True
      then show ?thesis using u t x by simp
    next
      case False
      then show ?thesis
        using blocks_apart [OF h x(1,2) y] live_extent [OF h x(1,2)] live_extent [OF h y] x i t u by auto
    qed
    then have "tag y \<noteq> p + of_nat i" by auto
    then show ?thesis by simp
  qed
  then have "major_ok ?h b ns = major_ok h b ns" if "(b, ns) \<in> set Ms" for b ns
    using that by (intro major_ok_cong) auto
  moreover have "apart ?h = apart h" by (intro ext) (simp add: apart_def msize_def)
  ultimately show "heap_ok ?h Ms" using h by (auto simp: heap_ok_def)
  show "live ?h Ms = live h Ms" by (simp add: live_def breq_def)
qed

text \<open>The steps of a client: it allocates, frees a block it has, or writes a byte of one.\<close>

inductive client :: "heap \<times> (u64 \<times> nat) set \<Rightarrow> heap \<times> (u64 \<times> nat) set \<Rightarrow> bool" where
  do_alloc: "kmalloc req h = Some (p, h') \<Longrightarrow> unat req < 2 ^ 31 \<Longrightarrow> (\<And>Ms. heap_ok h Ms \<Longrightarrow> source_ok h Ms (req + 32)) \<Longrightarrow>
    client (h, L) (h', if p = NULL then L else insert (p, unat req) L)"
| do_free: "(p, n) \<in> L \<Longrightarrow> kfree p h = Some h' \<Longrightarrow> (\<And>Ms. heap_ok h Ms \<Longrightarrow> pages_returnable h Ms) \<Longrightarrow> client (h, L) (h', L - {(p, n)})"
| do_write: "(p, n) \<in> L \<Longrightarrow> i < n \<Longrightarrow> client (h, L) (h\<lparr>hbytes := (hbytes h)(p + of_nat i := v)\<rparr>, L)"

definition consistent :: "heap \<times> (u64 \<times> nat) set \<Rightarrow> bool" where
  "consistent hL \<longleftrightarrow> (\<exists>Ms. heap_ok (fst hL) Ms \<and> live (fst hL) Ms = snd hL) \<and> \<not> liballoc_lock_var (fst hL)"

lemma client_consistent: "client s t \<Longrightarrow> consistent s \<Longrightarrow> consistent t"
proof (induction rule: client.induct)
  case (do_alloc req h p h' L)
  then obtain Ms where Ms: "heap_ok h Ms" "live h Ms = L" "\<not> liballoc_lock_var h" by (auto simp: consistent_def)
  then obtain Ms' where "alloc_ok h Ms (req + 32) req p h' Ms'" "\<not> liballoc_lock_var h'"
    using kmalloc_ok [OF Ms(1,3) do_alloc(2) do_alloc(3) [OF Ms(1)]] do_alloc(1) by auto
  with Ms(2) show ?case by (auto simp: consistent_def alloc_ok_def split: if_splits)
next
  case (do_free p n L h h')
  then obtain Ms where Ms: "heap_ok h Ms" "live h Ms = L" "\<not> liballoc_lock_var h" by (auto simp: consistent_def)
  then show ?case
    using kfree_ok [OF Ms(1,3) _ do_free(3) [OF Ms(1)], of p n] do_free(1,2) by (auto simp: consistent_def)
next
  case (do_write p n L i h v)
  then obtain Ms where "heap_ok h Ms" "live h Ms = L" "\<not> liballoc_lock_var h" by (auto simp: consistent_def)
  with do_write write_block_ok [of h Ms p n i v] show ?case by (auto simp: consistent_def)
qed

lemma clients_consistent: "client\<^sup>*\<^sup>* s t \<Longrightarrow> consistent s \<Longrightarrow> consistent t"
  by (induction rule: rtranclp_induct) (auto intro: client_consistent)



text \<open>
  C6: Freeing a live block succeeds and removes exactly that block from the live ones, wherever it is in
  the lists and also when its major block becomes empty and goes back; no memory changes and the lock is free.
\<close>

theorem kfree_correct:
  assumes "heap_ok h Ms" and "\<not> liballoc_lock_var h" and "(p, n) \<in> live h Ms" and "pages_returnable h Ms"
  shows "\<exists>h' Ms'. kfree p h = Some h' \<and> heap_ok h' Ms' \<and> live h' Ms' = live h Ms - {(p, n)} \<and>
    hbytes h' = hbytes h \<and> \<not> liballoc_lock_var h'"
  using kfree_ok [OF assms] .


text \<open>A heap with one major block of 16 pages and one live block of 64 bytes, and no way to get more pages.\<close>

definition small_heap :: "heap \<Rightarrow> heap" where
  "small_heap h = h\<lparr>
     majors := [0x10000 \<mapsto> \<lparr>j_prev = NULL, j_next = NULL, j_pages = 16, j_size = 0x10000, j_usage = 176, j_first = 0x10028\<rparr>],
     minors := [0x10028 \<mapsto> \<lparr>n_prev = NULL, n_next = NULL, n_block = 0x10000, n_magic = LIBALLOC_MAGIC, n_size = 96, n_req = 64\<rparr>],
     l_memRoot := 0x10000, l_bestBet := NULL, hbytes := (\<lambda>_. 0)(0x10050 := 16), kernel_vma_context := NULL, liballoc_lock_var := False\<rparr>"

definition small_blocks :: blocks where
  "small_blocks = [(0x10000, [0x10028])]"

lemma small_align: "align_diff (0x10028 + HDR) = 0" "tag 0x10028 = 0x10050" "user_ptr 0x10028 = 0x10060"
  by (simp_all add: align_diff_def tag_def user_ptr_def HDR_def ALIGN_INFO_def ALIGNMENT_def)

lemma small_heap_ok: "heap_ok (small_heap h) small_blocks"
  by (simp add: heap_ok_def small_heap_def small_blocks_def major_ok_def minor_ok_def msize_def bsize_def small_align ALIGN_INFO_def)

lemma small_heap_live: "live (small_heap h) small_blocks = {(0x10060, 64)}"
  by (simp add: live_def small_heap_def small_blocks_def breq_def small_align)

lemma small_heap_source: "source_ok (small_heap h) Ms sz" "pages_returnable (small_heap h) Ms" "\<not> liballoc_lock_var (small_heap h)"
  by (simp_all add: source_ok_def pages_returnable_def small_heap_def liballoc_alloc_def liballoc_free_def vma_alloc_def vma_free_def)


theorem kfree_correct_witness:
  "\<forall>h. \<exists>h' Ms'. kfree 0x10060 (small_heap h) = Some h' \<and> heap_ok h' Ms' \<and> live h' Ms' = {}"
proof
  fix h
  show "\<exists>h' Ms'. kfree 0x10060 (small_heap h) = Some h' \<and> heap_ok h' Ms' \<and> live h' Ms' = {}"
    using kfree_correct [OF small_heap_ok small_heap_source(3) _ small_heap_source(2), of "0x10060" 64 h]
    by (auto simp: small_heap_live)
qed


end
