(* ===== verification/Vfs_Core.thy ===== *)
theory Vfs_Core
  imports Mem_Lib
begin

text \<open>
  The core of the virtual file system, \<open>kernel/src/dev/vfs.h\<close> and \<open>vfs.c\<close>: vnodes and mounts,
  the search for a name among the children of a directory, the resolution of paths, and the
  permission check.

  Vnodes, mounts and the file systems' private records are kept in one map per struct type, from
  addresses to records; access to an address that is not in the map is a fault. File contents and
  user buffers are bytes of the kernel memory. A C string is an HOL string without the terminating
  zero, and \<open>None\<close> where the pointer may be \<open>NULL\<close>.

  The heap answers calls of \<open>kmalloc\<close> from the list \<open>answers\<close>, the addresses that the next calls
  will return; \<open>NULL\<close> or the end of the list is a call that finds no memory. What the properties
  need of these addresses is stated with them. \<open>now\<close> is what the clock macro
  \<open>GET_CURRENT_UNIX_TIME\<close> yields.
\<close>

section \<open>Data\<close>

type_synonym i32 = "32 word"

definition VNODE_DIR :: u32 where "VNODE_DIR = 1"
definition VNODE_FILE :: u32 where "VNODE_FILE = 2"
definition VNODE_DEV :: u32 where "VNODE_DEV = 3"

definition VNODE_FLAG_MOUNTPOINT :: u32 where "VNODE_FLAG_MOUNTPOINT = 1"

definition VNODE_MODE_RUSR :: u32 where "VNODE_MODE_RUSR = 0x100"
definition VNODE_MODE_WUSR :: u32 where "VNODE_MODE_WUSR = 0x80"
definition VNODE_MODE_XUSR :: u32 where "VNODE_MODE_XUSR = 0x40"
definition VNODE_MODE_RGRP :: u32 where "VNODE_MODE_RGRP = 0x20"
definition VNODE_MODE_WGRP :: u32 where "VNODE_MODE_WGRP = 0x10"
definition VNODE_MODE_XGRP :: u32 where "VNODE_MODE_XGRP = 0x08"
definition VNODE_MODE_ROTH :: u32 where "VNODE_MODE_ROTH = 0x04"
definition VNODE_MODE_WOTH :: u32 where "VNODE_MODE_WOTH = 0x02"
definition VNODE_MODE_XOTH :: u32 where "VNODE_MODE_XOTH = 0x01"

lemmas mode_defs = VNODE_MODE_RUSR_def VNODE_MODE_WUSR_def VNODE_MODE_XUSR_def
  VNODE_MODE_RGRP_def VNODE_MODE_WGRP_def VNODE_MODE_XGRP_def
  VNODE_MODE_ROTH_def VNODE_MODE_WOTH_def VNODE_MODE_XOTH_def

lemmas vnode_type_defs = VNODE_DIR_def VNODE_FILE_def VNODE_DEV_def

text \<open>The two operation tables a vnode's \<open>ops\<close> can point to.\<close>

datatype vnode_ops = ramfs_ops | devfs_ops

record vnode =
  v_parent :: u64
  v_next :: u64
  v_child :: u64
  v_mount :: u64
  v_type :: u32
  v_name :: "string option"
  v_size :: u64
  v_data :: u64
  v_uid :: u32
  v_gid :: u32
  v_mode :: u32
  v_ctime :: u32
  v_atime :: u32
  v_mtime :: u32
  v_ops :: "vnode_ops option"
  v_flags :: u32
  v_locked :: bool

text \<open>A vnode of zero bytes, as \<open>memset\<close> leaves it.\<close>

definition zero_vnode :: vnode where
  "zero_vnode = \<lparr>v_parent = 0, v_next = 0, v_child = 0, v_mount = 0, v_type = 0, v_name = None, v_size = 0,
     v_data = 0, v_uid = 0, v_gid = 0, v_mode = 0, v_ctime = 0, v_atime = 0, v_mtime = 0, v_ops = None,
     v_flags = 0, v_locked = False\<rparr>"

record mount =
  m_root :: u64
  m_next :: u64
  m_prev :: u64
  m_mountpoint :: string
  m_type :: string

record ramfs_data =
  r_data :: u64
  r_size :: u64

text \<open>The functions a device registers work on the kernel memory and return an \<open>int\<close>.\<close>

type_synonym dev_fn = "u64 \<Rightarrow> u64 \<Rightarrow> u64 \<Rightarrow> mem \<Rightarrow> (i32 \<times> mem) option"

record dev =
  d_read :: dev_fn
  d_write :: dev_fn

record vfs =
  vnodes :: "u64 \<rightharpoonup> vnode"
  mounts :: "u64 \<rightharpoonup> mount"
  rdatas :: "u64 \<rightharpoonup> ramfs_data"
  devs :: "u64 \<rightharpoonup> dev"
  bytes :: mem
  answers :: "u64 list"
  now :: u32
  root_mount :: u64
  devfs_root :: u64


section \<open>Access to the heap\<close>

definition vfs_kmalloc :: "vfs \<Rightarrow> u64 \<times> vfs" where
  "vfs_kmalloc s = (case answers s of [] \<Rightarrow> (NULL, s) | a # as \<Rightarrow> (a, s\<lparr>answers := as\<rparr>))"

definition vnode_upd :: "u64 \<Rightarrow> (vnode \<Rightarrow> vnode) \<Rightarrow> vfs \<Rightarrow> vfs option" where
  "vnode_upd p f s = do { v \<leftarrow> vnodes s p; Some (s\<lparr>vnodes := (vnodes s)(p \<mapsto> f v)\<rparr>) }"

text \<open>A lock that is already held is never released while the caller spins on it.\<close>

definition spinlock_acquire :: "u64 \<Rightarrow> vfs \<Rightarrow> vfs option" where
  "spinlock_acquire p s =
     do { v \<leftarrow> vnodes s p;
          if v_locked v then None else Some (s\<lparr>vnodes := (vnodes s)(p \<mapsto> v\<lparr>v_locked := True\<rparr>)\<rparr>) }"

definition spinlock_release :: "u64 \<Rightarrow> vfs \<Rightarrow> vfs option" where
  "spinlock_release p = vnode_upd p (v_locked_update (\<lambda>_. False))"


section \<open>Searching a directory\<close>

partial_function (option) lookup_chain :: "vfs \<Rightarrow> u64 \<Rightarrow> string \<Rightarrow> u64 option" where
  "lookup_chain s current name =
     (if current = NULL then Some NULL
      else do { v \<leftarrow> vnodes s current;
                n \<leftarrow> v_name v;
                if n = name then Some current else lookup_chain s (v_next v) name })"

definition vfs_lookup :: "vfs \<Rightarrow> u64 \<Rightarrow> string \<Rightarrow> u64 option" where
  "vfs_lookup s parent name = do { v \<leftarrow> vnodes s parent; lookup_chain s (v_child v) name }"


section \<open>Resolving paths\<close>

text \<open>
  One round of the loops that cut a component off a path: at most 255 characters up to a slash, and
  what is left of the path.
\<close>

definition component :: "string \<Rightarrow> string \<times> string" where
  "component path =
     (let w = take 255 (takeWhile (\<lambda>c. c \<noteq> CHR ''/'') path) in (w, drop (length w) path))"

definition skip_slash :: "string \<Rightarrow> string" where
  "skip_slash path = (case path of c # cs \<Rightarrow> if c = CHR ''/'' then cs else path | [] \<Rightarrow> path)"

lemma skip_slash_length: "length (skip_slash path) \<le> length path"
  by (cases path) (simp_all add: skip_slash_def)

lemma component_shorter:
  assumes "path \<noteq> []"
  shows "length (skip_slash (snd (component path))) < length path"
proof (cases path)
  case (Cons c cs)
  show ?thesis
  proof (cases "c = CHR ''/''")
    case True
    with Cons show ?thesis by (simp add: component_def skip_slash_def)
  next
    case False
    define w where "w = take 255 (takeWhile (\<lambda>c. c \<noteq> CHR ''/'') path)"
    have "0 < length w"
      using Cons False by (simp add: w_def)
    moreover have "length (skip_slash (drop (length w) path)) \<le> length path - length w"
      using skip_slash_length [of "drop (length w) path"] by simp
    moreover have "0 < length path" using Cons by simp
    ultimately have "length (skip_slash (drop (length w) path)) < length path" by linarith
    then show ?thesis
      by (simp add: component_def w_def Let_def)
  qed
qed (use assms in simp)

function lazy_walk :: "vfs \<Rightarrow> u64 \<Rightarrow> string \<Rightarrow> u64 option" where
  "lazy_walk s current path =
     (if path = [] then Some current
      else do {
        next \<leftarrow> vfs_lookup s current (fst (component path));
        if next = NULL then Some NULL
        else do { v \<leftarrow> vnodes s next;
                  if v_type v \<noteq> VNODE_DIR then Some next
                  else lazy_walk s next (skip_slash (snd (component path))) } })"
  by pat_completeness auto
termination
  by (relation "measure (\<lambda>(_, _, path). length path)") (auto dest: component_shorter)

declare lazy_walk.simps [simp del]

partial_function (option) vfs_lazy_lookup :: "vfs \<Rightarrow> u64 \<Rightarrow> string option \<Rightarrow> u64 option" where
  "vfs_lazy_lookup s mount path =
     (if mount = NULL then Some NULL
      else case path of
        None \<Rightarrow> Some NULL
      | Some p \<Rightarrow>
          if p = [] \<or> hd p \<noteq> CHR ''/'' then Some NULL
          else do {
            m \<leftarrow> mounts s mount;
            if m_root m = NULL then Some NULL
            else do {
              r \<leftarrow> lazy_walk s (m_root m) (tl p);
              if r = NULL
              then if m_next m \<noteq> NULL then vfs_lazy_lookup s (m_next m) path else Some NULL
              else Some r } })"

function lazy_walk_last :: "vfs \<Rightarrow> u64 \<Rightarrow> string \<Rightarrow> u64 option" where
  "lazy_walk_last s current path =
     (if path = [] then Some current
      else do {
        next \<leftarrow> vfs_lookup s current (fst (component path));
        if next = NULL then Some current
        else lazy_walk_last s next (skip_slash (snd (component path))) })"
  by pat_completeness auto
termination
  by (relation "measure (\<lambda>(_, _, path). length path)") (auto dest: component_shorter)

declare lazy_walk_last.simps [simp del]

definition vfs_lazy_lookup_last :: "vfs \<Rightarrow> u64 \<Rightarrow> string option \<Rightarrow> u64 option" where
  "vfs_lazy_lookup_last s mount path =
     (if mount = NULL then Some NULL
      else case path of
        None \<Rightarrow> Some NULL
      | Some p \<Rightarrow>
          if p = [] \<or> hd p \<noteq> CHR ''/'' then Some NULL
          else do {
            m \<leftarrow> mounts s mount;
            if m_root m = NULL then Some NULL else lazy_walk_last s (m_root m) (tl p) })"

text \<open>
  The macro \<open>FILENAME_FROM_PATH\<close> (the same text as \<open>VFS_GET_LAST_IN_PATH\<close>): what follows the last
  slash. If nothing does, it is \<open>/\<close> for the path \<open>/\<close> and else the two last characters.
\<close>

definition FILENAME_FROM_PATH :: "string \<Rightarrow> string" where
  "FILENAME_FROM_PATH path =
     (if CHR ''/'' \<notin> set path then path
      else
        let f = rev (takeWhile (\<lambda>c. c \<noteq> CHR ''/'') (rev path)) in
        if f \<noteq> [] then f else if path = ''/'' then ''/'' else drop (length path - 2) path)"


section \<open>Permissions\<close>

definition vfs_am_i_allowed :: "vfs \<Rightarrow> u64 \<Rightarrow> u64 \<Rightarrow> u64 \<Rightarrow> u64 \<Rightarrow> bool option" where
  "vfs_am_i_allowed s p uid gid action =
     (if p = NULL then Some False
      else do {
        v \<leftarrow> vnodes s p;
        let has = (\<lambda>bit. v_mode v AND bit \<noteq> 0);
        let usr = (if action = 0 then has VNODE_MODE_XUSR
                   else if action = 1 then has VNODE_MODE_RUSR
                   else if action = 2 then has VNODE_MODE_WUSR else False);
        let grp = (if action = 0 then has VNODE_MODE_XGRP
                   else if action = 1 then has VNODE_MODE_RGRP
                   else if action = 2 then has VNODE_MODE_WGRP else False);
        let oth = (if action = 0 then has VNODE_MODE_XOTH
                   else if action = 1 then has VNODE_MODE_ROTH
                   else if action = 2 then has VNODE_MODE_WOTH else False);
        Some (if ucast (v_uid v) = uid \<and> usr then True
              else if ucast (v_gid v) = gid \<and> grp then True
              else oth) })"

definition vfs_type_to_str :: "u32 \<Rightarrow> string" where
  "vfs_type_to_str t =
     (if t = VNODE_FILE then ''FILE'' else if t = VNODE_DIR then ''DIR''
      else if t = VNODE_DEV then ''DEV'' else ''UNKNOWN'')"

end
