(* ===== verification/Fs_Ops.thy ===== *)
theory Fs_Ops
  imports Vfs_Core
begin

text \<open>
  The operation tables of the two file systems: \<open>ramfs_read\<close>, \<open>ramfs_write\<close> and \<open>ramfs_create\<close>
  of \<open>kernel/src/fs/ramfs.c\<close>, and \<open>devfs_read\<close>, \<open>devfs_write\<close> and \<open>devfs_create\<close> of
  \<open>kernel/src/fs/devfs.c\<close>. The contents of a file are the \<open>r_size\<close> bytes from \<open>r_data\<close> on.
\<close>

section \<open>The RAM file system\<close>

definition ramfs_read :: "vfs \<Rightarrow> u64 \<Rightarrow> u64 \<Rightarrow> u64 \<Rightarrow> u64 \<Rightarrow> (i32 \<times> vfs) option" where
  "ramfs_read s p buf sz offset =
     (if p = NULL then Some (-1, s)
      else do {
        v \<leftarrow> vnodes s p;
        if v_type v \<noteq> VNODE_FILE then Some (-1, s)
        else if v_data v = NULL then Some (0, s)
        else do {
          d \<leftarrow> rdatas s (v_data v);
          if offset \<ge> r_size d then Some (0, s)
          else
            let to_read = (if sz > r_size d - offset then r_size d - offset else sz) in
            if buf = NULL then Some (-1, s)
            else Some (ucast to_read, s\<lparr>bytes := memcpy (bytes s) buf (r_data d + offset) to_read\<rparr>) } })"

definition ramfs_write :: "vfs \<Rightarrow> u64 \<Rightarrow> u64 \<Rightarrow> u64 \<Rightarrow> u64 \<Rightarrow> (i32 \<times> vfs) option" where
  "ramfs_write s p buf sz offset =
     (if p = NULL then Some (-1, s)
      else do {
        v \<leftarrow> vnodes s p;
        if v_type v \<noteq> VNODE_FILE then Some (-1, s)
        else if v_data v = NULL then Some (-1, s)
        else do {
          d \<leftarrow> rdatas s (v_data v);
          let grow = (offset \<ge> r_size d \<and> offset + sz > r_size d);
          let (new_data, s1) = (if grow then vfs_kmalloc s else (r_data d, s));
          if grow \<and> new_data = NULL then Some (-1, s1)
          else do {
            let s2 = (if grow
                      then s1\<lparr>bytes := memcpy (bytes s1) new_data (r_data d) (r_size d),
                              rdatas := (rdatas s1)(v_data v \<mapsto> \<lparr>r_data = new_data, r_size = offset + sz\<rparr>),
                              vnodes := (vnodes s1)(p \<mapsto> v\<lparr>v_size := offset + sz\<rparr>)\<rparr>
                      else s1);
            if buf = NULL then Some (-1, s2)
            else do {
              v2 \<leftarrow> vnodes s2 p;
              d2 \<leftarrow> rdatas s2 (v_data v);
              let n = (if v_size v2 > offset + sz then v_size v2 else offset + sz);
              Some (ucast sz,
                    s2\<lparr>bytes := memcpy (bytes s2) (r_data d2 + offset) buf sz,
                       vnodes := (vnodes s2)(p \<mapsto> v2\<lparr>v_size := n\<rparr>),
                       rdatas := (rdatas s2)(v_data v \<mapsto> d2\<lparr>r_size := n\<rparr>)\<rparr>) } } } })"

text \<open>\<open>strdup\<close> of a name: a copy in memory of its own, or \<open>NULL\<close>.\<close>

definition dup_name :: "vfs \<Rightarrow> string \<Rightarrow> string option \<times> vfs" where
  "dup_name s name = (let (a, s') = vfs_kmalloc s in (if a = NULL then None else Some name, s'))"

text \<open>The walk to the last of the siblings that follow a vnode.\<close>

partial_function (option) last_sibling :: "vfs \<Rightarrow> u64 \<Rightarrow> u64 option" where
  "last_sibling s current =
     do { v \<leftarrow> vnodes s current;
          if v_next v = NULL then Some current else last_sibling s (v_next v) }"

definition link_child :: "u64 \<Rightarrow> u64 \<Rightarrow> vfs \<Rightarrow> vfs option" where
  "link_child self new s =
     do { v \<leftarrow> vnodes s self;
          if v_child v = NULL then vnode_upd self (v_child_update (\<lambda>_. new)) s
          else do { l \<leftarrow> last_sibling s (v_child v); vnode_upd l (v_next_update (\<lambda>_. new)) s } }"

definition ramfs_create :: "vfs \<Rightarrow> u64 \<Rightarrow> string option \<Rightarrow> u32 \<Rightarrow> (u64 \<times> vfs) option" where
  "ramfs_create s self name type =
     do {
       s1 \<leftarrow> spinlock_release self s;
       case name of
         None \<Rightarrow> Some (NULL, s1)
       | Some n \<Rightarrow> do {
           found \<leftarrow> vfs_lookup s1 self n;
           if found \<noteq> NULL then Some (NULL, s1)
           else do {
             s2 \<leftarrow> spinlock_acquire self s1;
             let (new, s3) = vfs_kmalloc s2;
             if new = NULL then Some (NULL, s3)
             else do {
               let (nm, s4) = dup_name s3 n;
               sv \<leftarrow> vnodes s4 self;
               let v = zero_vnode\<lparr>v_name := nm, v_type := type, v_parent := self, v_mount := v_mount sv,
                         v_mode := (if type \<noteq> VNODE_DEV
                                    then VNODE_MODE_RUSR OR VNODE_MODE_WUSR OR VNODE_MODE_RGRP OR VNODE_MODE_ROTH
                                    else VNODE_MODE_RUSR OR VNODE_MODE_WUSR OR VNODE_MODE_RGRP)\<rparr>;
               let (data, s5) = vfs_kmalloc s4;
               if data = NULL then Some (NULL, s5)
               else do {
                 let s6 = s5\<lparr>rdatas := (rdatas s5)(data \<mapsto> \<lparr>r_data = 0, r_size = 0\<rparr>),
                            vnodes := (vnodes s5)(new \<mapsto> v\<lparr>v_data := data, v_ops := Some ramfs_ops\<rparr>)\<rparr>;
                 s7 \<leftarrow> link_child self new s6;
                 Some (new, s7) } } } } }"


section \<open>The device file system\<close>

definition devfs_read :: "vfs \<Rightarrow> u64 \<Rightarrow> u64 \<Rightarrow> u64 \<Rightarrow> u64 \<Rightarrow> (i32 \<times> vfs) option" where
  "devfs_read s p buf sz offset =
     do { v \<leftarrow> vnodes s p; d \<leftarrow> devs s (v_data v);
          (r, m) \<leftarrow> d_read d buf sz offset (bytes s); Some (r, s\<lparr>bytes := m\<rparr>) }"

definition devfs_write :: "vfs \<Rightarrow> u64 \<Rightarrow> u64 \<Rightarrow> u64 \<Rightarrow> u64 \<Rightarrow> (i32 \<times> vfs) option" where
  "devfs_write s p buf sz offset =
     do { v \<leftarrow> vnodes s p; d \<leftarrow> devs s (v_data v);
          (r, m) \<leftarrow> d_write d buf sz offset (bytes s); Some (r, s\<lparr>bytes := m\<rparr>) }"

text \<open>
  \<open>devfs_create\<close> copies the name through the pointer \<open>new_vnode->name\<close> before anything has been
  stored there. The model ends the call at that point.
\<close>

definition devfs_create :: "vfs \<Rightarrow> u64 \<Rightarrow> string \<Rightarrow> u32 \<Rightarrow> (u64 \<times> vfs) option" where
  "devfs_create s self name type =
     do {
       s1 \<leftarrow> spinlock_release self s;
       found \<leftarrow> vfs_lookup s1 self name;
       if found \<noteq> NULL then Some (NULL, s1)
       else do {
         s2 \<leftarrow> spinlock_acquire self s1;
         let (new, s3) = vfs_kmalloc s2;
         if new = NULL then Some (NULL, s3) else None } }"

end
