(* ===== verification/Vfs.thy ===== *)
theory Vfs
  imports Fs_Ops
begin

text \<open>
  The operations that clients of the virtual file system call, \<open>kernel/src/dev/vfs.c\<close>: they take
  the vnode's lock and dispatch to its operation table. Also mounting, deletion, and the start-up of
  the VFS and of the device file system (\<open>kernel/src/fs/devfs.c\<close>).
\<close>

section \<open>Reading, writing, creating\<close>

definition vfs_read :: "vfs \<Rightarrow> u64 \<Rightarrow> u64 \<Rightarrow> u64 \<Rightarrow> u64 \<Rightarrow> (i32 \<times> vfs) option" where
  "vfs_read s p buf sz offset =
     do {
       s1 \<leftarrow> spinlock_acquire p s;
       v \<leftarrow> vnodes s1 p;
       if v_type v = VNODE_DIR then do { s2 \<leftarrow> spinlock_release p s1; Some (-1, s2) }
       else case v_ops v of
         None \<Rightarrow> do { s2 \<leftarrow> spinlock_release p s1; Some (-1, s2) }
       | Some ops \<Rightarrow> do {
           (ret, s2) \<leftarrow> (case ops of ramfs_ops \<Rightarrow> ramfs_read s1 p buf sz offset
                                  | devfs_ops \<Rightarrow> devfs_read s1 p buf sz offset);
           s3 \<leftarrow> spinlock_release p s2;
           Some (ret, s3) } }"

definition vfs_write :: "vfs \<Rightarrow> u64 \<Rightarrow> u64 \<Rightarrow> u64 \<Rightarrow> u64 \<Rightarrow> (i32 \<times> vfs) option" where
  "vfs_write s p buf sz offset =
     do {
       s1 \<leftarrow> spinlock_acquire p s;
       v \<leftarrow> vnodes s1 p;
       if v_type v = VNODE_DIR then do { s2 \<leftarrow> spinlock_release p s1; Some (-1, s2) }
       else case v_ops v of
         None \<Rightarrow> do { s2 \<leftarrow> spinlock_release p s1; Some (-1, s2) }
       | Some ops \<Rightarrow> do {
           (ret, s2) \<leftarrow> (case ops of ramfs_ops \<Rightarrow> ramfs_write s1 p buf sz offset
                                  | devfs_ops \<Rightarrow> devfs_write s1 p buf sz offset);
           s3 \<leftarrow> spinlock_release p s2;
           s4 \<leftarrow> vnode_upd p (v_mtime_update (\<lambda>_. now s3)) s3;
           Some (ret, s4) } }"

definition vfs_chown :: "vfs \<Rightarrow> u64 \<Rightarrow> u32 \<Rightarrow> (i32 \<times> vfs) option" where
  "vfs_chown s p uid =
     do { s1 \<leftarrow> spinlock_acquire p s;
          s2 \<leftarrow> vnode_upd p (v_uid_update (\<lambda>_. uid)) s1;
          s3 \<leftarrow> spinlock_release p s2;
          Some (0, s3) }"

definition vfs_chmod :: "vfs \<Rightarrow> u64 \<Rightarrow> u32 \<Rightarrow> (i32 \<times> vfs) option" where
  "vfs_chmod s p mode =
     do { s1 \<leftarrow> spinlock_acquire p s;
          s2 \<leftarrow> vnode_upd p (v_mode_update (\<lambda>_. mode)) s1;
          s3 \<leftarrow> spinlock_release p s2;
          Some (0, s3) }"

definition vfs_create_vnode :: "vfs \<Rightarrow> u64 \<Rightarrow> string option \<Rightarrow> u32 \<Rightarrow> (u64 \<times> vfs) option" where
  "vfs_create_vnode s parent name type =
     do {
       s1 \<leftarrow> spinlock_acquire parent s;
       v \<leftarrow> vnodes s1 parent;
       if v_type v \<noteq> VNODE_DIR then do { s2 \<leftarrow> spinlock_release parent s1; Some (NULL, s2) }
       else case v_ops v of
         None \<Rightarrow> do { s2 \<leftarrow> spinlock_release parent s1; Some (NULL, s2) }
       | Some ops \<Rightarrow> do {
           (ret, s2) \<leftarrow> (case ops of
               ramfs_ops \<Rightarrow> ramfs_create s1 parent name type
             | devfs_ops \<Rightarrow> do { n \<leftarrow> name; devfs_create s1 parent n type });
           s3 \<leftarrow> spinlock_release parent s2;
           if ret = NULL then Some (ret, s3)
           else do {
             s4 \<leftarrow> vnode_upd ret (\<lambda>v. v\<lparr>v_ctime := now s3, v_mtime := now s3, v_atime := now s3\<rparr>) s3;
             Some (ret, s4) } } }"


section \<open>The path of a vnode\<close>

text \<open>
  \<open>_vfs_get_full_path\<close> walks to the root twice, first to sum up the length of the path and then to
  fill a buffer from its end; it gives up after 1000 names or when the rest of the length is absurd.
  The buffer is the string of the bytes written so far. \<open>vfs_get_full_path\<close>, which the other parts
  call, returns a fixed text.
\<close>

function path_length :: "vfs \<Rightarrow> u64 \<Rightarrow> u64 \<Rightarrow> nat \<Rightarrow> u64 option option" where
  "path_length s current path_len name_count =
     (if current = NULL then Some (Some path_len)
      else do {
        v \<leftarrow> vnodes s current;
        if v_parent v = current then Some (Some path_len)
        else do {
          n \<leftarrow> v_name v;
          if name_count + 1 > 1000 then Some None
          else path_length s (v_parent v) (path_len + of_nat (length n) + 1) (name_count + 1) } })"
  by pat_completeness auto
termination
  by (relation "measure (\<lambda>(_, _, _, name_count). 1000 - name_count)") auto

declare path_length.simps [simp del]

partial_function (option) path_build :: "vfs \<Rightarrow> u64 \<Rightarrow> u64 \<Rightarrow> string \<Rightarrow> string option option" where
  "path_build s current path_len full_path =
     (if current = NULL then Some (Some full_path)
      else do {
        v \<leftarrow> vnodes s current;
        if v_parent v = current then Some (Some full_path)
        else do {
          n \<leftarrow> v_name v;
          let len1 = path_len - of_nat (length n);
          let (len2, path2) = (if len1 > 0 then (len1 - 1, CHR ''/'' # n @ full_path) else (len1, n @ full_path));
          if len2 > 1000000 then Some None
          else path_build s (v_parent v) len2 path2 } })"

definition get_full_path :: "vfs \<Rightarrow> u64 \<Rightarrow> (string option \<times> vfs) option" where
  "get_full_path s p =
     (if p = NULL then Some (None, s)
      else do {
        v \<leftarrow> vnodes s p;
        if v_parent v = p
        then let (a, s1) = vfs_kmalloc s in Some (if a = NULL then None else Some ''/'', s1)
        else do {
          len \<leftarrow> path_length s p 0 0;
          case len of
            None \<Rightarrow> Some (None, s)
          | Some path_len \<Rightarrow>
              let (a, s1) = vfs_kmalloc s in
              if a = NULL then Some (None, s1)
              else do {
                r \<leftarrow> path_build s1 p path_len [];
                case r of
                  None \<Rightarrow> Some (None, s1)
                | Some full_path \<Rightarrow>
                    if full_path = [] \<or> hd full_path \<noteq> CHR ''/''
                    then let (b, s2) = vfs_kmalloc s1 in Some (if b = NULL then None else Some (CHR ''/'' # full_path), s2)
                    else Some (Some full_path, s1) } } })"

definition vfs_get_full_path :: "u64 \<Rightarrow> string" where
  "vfs_get_full_path p = ''{vfs_get_full_path is not supported}''"


section \<open>Deleting\<close>

text \<open>
  \<open>vfs_delete_node\<close> and its loop over the children, as one function: on \<open>Inl p\<close> it deletes the
  vnode \<open>p\<close>, on \<open>Inr c\<close> the vnode \<open>c\<close> and its later siblings.
\<close>

partial_function (option) vfs_delete :: "u64 + u64 \<Rightarrow> vfs \<Rightarrow> vfs option" where
  "vfs_delete w s =
     (case w of
        Inr c \<Rightarrow>
          if c = NULL then Some s
          else do { v \<leftarrow> vnodes s c;
                    s1 \<leftarrow> vfs_delete (Inl c) s;
                    vfs_delete (Inr (v_next v)) s1 }
      | Inl p \<Rightarrow>
          if p = NULL then Some s
          else do {
            s1 \<leftarrow> spinlock_acquire p s;
            v \<leftarrow> vnodes s1 p;
            s2 \<leftarrow> (if v_type v = VNODE_DIR then vfs_delete (Inr (v_child v)) s1 else Some s1);
            v2 \<leftarrow> vnodes s2 p;
            s3 \<leftarrow> (if v_parent v2 = NULL then Some s2
                  else do { pv \<leftarrow> vnodes s2 (v_parent v2);
                            if v_child pv = p
                            then vnode_upd (v_parent v2) (v_child_update (\<lambda>_. NULL)) s2
                            else Some s2 });
            Some (s3\<lparr>rdatas := (rdatas s3)(v_data v2 := None), devs := (devs s3)(v_data v2 := None),
                     vnodes := (vnodes s3)(p := None)\<rparr>) })"

definition vfs_delete_node :: "vfs \<Rightarrow> u64 \<Rightarrow> vfs option" where
  "vfs_delete_node s p = vfs_delete (Inl p) s"


section \<open>Mounting\<close>

text \<open>The check that no mount in the list has the given mount point.\<close>

partial_function (option) mountpoint_used :: "vfs \<Rightarrow> u64 \<Rightarrow> string \<Rightarrow> bool option" where
  "mountpoint_used s current path =
     (if current = NULL then Some False
      else do { m \<leftarrow> mounts s current;
                if m_mountpoint m = path then Some True else mountpoint_used s (m_next m) path })"

partial_function (option) last_mount :: "vfs \<Rightarrow> u64 \<Rightarrow> u64 option" where
  "last_mount s current =
     do { m \<leftarrow> mounts s current;
          if m_next m = NULL then Some current else last_mount s (m_next m) }"

definition mount_upd :: "u64 \<Rightarrow> (mount \<Rightarrow> mount) \<Rightarrow> vfs \<Rightarrow> vfs option" where
  "mount_upd p f s = do { m \<leftarrow> mounts s p; Some (s\<lparr>mounts := (mounts s)(p \<mapsto> f m)\<rparr>) }"

definition vfs_mount :: "vfs \<Rightarrow> string \<Rightarrow> string \<Rightarrow> (u64 \<times> vfs) option" where
  "vfs_mount s path type =
     do {
       used \<leftarrow> mountpoint_used s (root_mount s) path;
       if used then Some (NULL, s)
       else do {
         p \<leftarrow> vfs_lazy_lookup s (root_mount s) (Some path);
         ok \<leftarrow> (if p = NULL then Some False else do { v \<leftarrow> vnodes s p; Some (v_type v = VNODE_DIR) });
         if \<not> ok then Some (NULL, s)
         else do {
           let (new, s1) = vfs_kmalloc s;
           if new = NULL then Some (NULL, s1)
           else do {
             let (mp, s2) = vfs_kmalloc s1;
             if mp = NULL then Some (NULL, s2)
             else do {
               let (tp, s3) = vfs_kmalloc s2;
               if tp = NULL then Some (NULL, s3)
               else do {
                 l \<leftarrow> last_mount s3 (root_mount s3);
                 s4 \<leftarrow> mount_upd l (m_next_update (\<lambda>_. new)) s3;
                 Some (new, s4\<lparr>mounts := (mounts s4)(new \<mapsto>
                   \<lparr>m_root = NULL, m_next = NULL, m_prev = l, m_mountpoint = path, m_type = type\<rparr>)\<rparr>) } } } } } }"

definition vfs_umount :: "vfs \<Rightarrow> u64 \<Rightarrow> vfs option" where
  "vfs_umount s mount =
     (if mount = NULL then Some s
      else do {
        m \<leftarrow> mounts s mount;
        let (_, s1) = vfs_kmalloc s;
        s2 \<leftarrow> (if m_prev m \<noteq> NULL then mount_upd (m_prev m) (m_next_update (\<lambda>_. m_next m)) s1 else Some s1);
        s3 \<leftarrow> (if m_next m \<noteq> NULL then mount_upd (m_next m) (m_prev_update (\<lambda>_. m_prev m)) s2 else Some s2);
        Some (s3\<lparr>mounts := (mounts s3)(mount := None)\<rparr>) })"

text \<open>\<open>junk\<close> is what the memory of the root vnode holds before it is written; \<open>next\<close> keeps its value.\<close>

definition vfs_init :: "vnode \<Rightarrow> vfs \<Rightarrow> vfs" where
  "vfs_init junk s =
     (let (m, s1) = vfs_kmalloc s in
      if m = NULL then s1
      else let (r, s2) = vfs_kmalloc s1 in
      if r = NULL then s2
      else let (n, s3) = vfs_kmalloc s2 in
      if n = NULL then s3
      else let (mp, s4) = vfs_kmalloc s3 in
      if mp = NULL then s4
      else let (tp, s5) = vfs_kmalloc s4 in
      if tp = NULL then s5
      else
        s5\<lparr>vnodes := (vnodes s5)(r \<mapsto> zero_vnode\<lparr>v_name := Some ''/'', v_type := VNODE_DIR, v_mount := m,
              v_parent := r, v_next := v_next junk,
              v_mode := VNODE_MODE_RUSR OR VNODE_MODE_WUSR OR VNODE_MODE_XUSR OR
                        VNODE_MODE_RGRP OR VNODE_MODE_XGRP OR VNODE_MODE_ROTH OR VNODE_MODE_XOTH\<rparr>),
           mounts := (mounts s5)(m \<mapsto>
              \<lparr>m_root = r, m_next = NULL, m_prev = NULL, m_mountpoint = '''', m_type = ''rootfs''\<rparr>),
           root_mount := m\<rparr>)"


section \<open>Devices\<close>

text \<open>\<open>None\<close> stands for a \<open>NULL\<close> pointer among the arguments.\<close>

definition devfs_add_dev :: "vfs \<Rightarrow> string option \<Rightarrow> dev_fn option \<Rightarrow> dev_fn option \<Rightarrow> (i32 \<times> vfs) option" where
  "devfs_add_dev s name read write =
     (case (name, read, write) of
        (Some n, Some rd, Some wr) \<Rightarrow> do {
          m \<leftarrow> mounts s (devfs_root s);
          (dev, s1) \<leftarrow> vfs_create_vnode s (m_root m) (Some n) VNODE_DEV;
          if dev = NULL then Some (-1, s1)
          else do {
            s2 \<leftarrow> vnode_upd dev (v_ops_update (\<lambda>_. Some devfs_ops)) s1;
            let (device, s3) = vfs_kmalloc s2;
            if device = NULL then do { s4 \<leftarrow> vfs_delete_node s3 dev; Some (-1, s4) }
            else do {
              s4 \<leftarrow> vnode_upd dev (v_data_update (\<lambda>_. device)) s3;
              Some (0, s4\<lparr>devs := (devs s4)(device \<mapsto> \<lparr>d_read = rd, d_write = wr\<rparr>)\<rparr>) } } }
      | _ \<Rightarrow> Some (-1, s))"

definition devfs_init :: "vfs \<Rightarrow> vfs option" where
  "devfs_init s =
     do {
       rm \<leftarrow> mounts s (root_mount s);
       (dir, s1) \<leftarrow> vfs_create_vnode s (m_root rm) (Some ''dev'') VNODE_DIR;
       if dir = NULL then None
       else do {
         s2 \<leftarrow> vnode_upd dir (v_flags_update (\<lambda>_. VNODE_FLAG_MOUNTPOINT)) s1;
         (m, s3) \<leftarrow> vfs_mount s2 ''/dev'' ''devfs'';
         if m = NULL then Some s3
         else do {
           s4 \<leftarrow> mount_upd m (m_root_update (\<lambda>_. dir)) (s3\<lparr>devfs_root := m\<rparr>);
           vnode_upd dir (v_mount_update (\<lambda>_. m)) s4 } } }"

end
