(* ===== verification/Ramfs_Init.thy ===== *)
theory Ramfs_Init
  imports Vfs
begin

text \<open>
  Unpacking the initial RAM disk, \<open>ramfs_init\<close> and \<open>ramfs_init_ustar\<close> of
  \<open>kernel/src/fs/ramfs.c\<close>. The archive is a sequence of 512-byte headers, each followed by the
  file's contents padded to 512 bytes, in the kernel memory at \<open>data\<close>; names are cut up in place by
  \<open>strtok\<close>, whose static pointer is passed along as \<open>tk\<close>.

  \<open>literals\<close> holds the addresses of the string literals that the code passes to the string
  functions.
\<close>

record literals =
  lit_slash :: u64
  lit_dot_slash :: u64
  lit_dot :: u64

definition USTAR_HEADER_SIZE :: u64 where
  "USTAR_HEADER_SIZE = 512"

text \<open>Addresses of the fields of \<open>ustar_header_t\<close>; the name comes first.\<close>

definition hdr_mode :: "u64 \<Rightarrow> u64" where "hdr_mode h = h + 100"
definition hdr_size :: "u64 \<Rightarrow> u64" where "hdr_size h = h + 124"
definition hdr_mtime :: "u64 \<Rightarrow> u64" where "hdr_mtime h = h + 136"
definition hdr_typeflag :: "u64 \<Rightarrow> u64" where "hdr_typeflag h = h + 156"

partial_function (option) string_at :: "mem \<Rightarrow> u64 \<Rightarrow> string option" where
  "string_at m p =
     (if m p = 0 then Some []
      else do { r \<leftarrow> string_at m (p + 1); Some (char_of (unat (m p)) # r) })"

definition octal :: "vfs \<Rightarrow> u64 \<Rightarrow> u32 option" where
  "octal s a = do { (n, _) \<leftarrow> strtol (bytes s) a 8; Some (word_of_int n) }"

text \<open>
  The loop over the components of an entry's name. It stops with the current parent and the token
  it is at; \<open>Inl\<close> is the early return of the whole function.
\<close>

partial_function (option) walk_tokens ::
    "literals \<Rightarrow> u64 \<Rightarrow> bool \<Rightarrow> vfs \<Rightarrow> u64 \<Rightarrow> u64 \<Rightarrow> u64 \<Rightarrow> (vfs + vfs \<times> u64 \<times> u64 \<times> u64) option" where
  "walk_tokens lits h dir s tk cur_parent token =
     (if token = NULL then Some (Inr (s, tk, cur_parent, token))
      else do {
        name \<leftarrow> string_at (bytes s) token;
        subdir \<leftarrow> vfs_lookup s cur_parent name;
        if subdir = NULL \<and> \<not> dir then Some (Inr (s, tk, cur_parent, token))
        else do {
          r \<leftarrow> (if subdir = NULL
               then do {
                 (node, s1) \<leftarrow> vfs_create_vnode s cur_parent (Some name) VNODE_DIR;
                 if node = NULL then Some (Inl s1)
                 else do {
                   mode \<leftarrow> octal s1 (hdr_mode h);
                   mtime \<leftarrow> octal s1 (hdr_mtime h);
                   s2 \<leftarrow> vnode_upd node (\<lambda>v. v\<lparr>v_ops := Some ramfs_ops, v_mode := mode, v_ctime := mtime\<rparr>) s1;
                   Some (Inr s2) } }
               else Some (Inr s));
          case r of
            Inl s1 \<Rightarrow> Some (Inl s1)
          | Inr s1 \<Rightarrow> do {
              (m, tk', token') \<leftarrow> strtok (bytes s1) tk NULL (lit_slash lits);
              walk_tokens lits h dir (s1\<lparr>bytes := m\<rparr>) tk' subdir token' } } })"

text \<open>The part that creates a file and copies its contents; the flag is false on an early return.\<close>

definition unpack_file :: "u64 \<Rightarrow> u64 \<Rightarrow> u32 \<Rightarrow> string \<Rightarrow> vfs \<Rightarrow> (bool \<times> vfs) option" where
  "unpack_file h cur_parent file_size filename s =
     do {
       (file, s1) \<leftarrow> vfs_create_vnode s cur_parent (Some filename) VNODE_FILE;
       if file = NULL then Some (False, s1)
       else do {
         let (rd, s2) = vfs_kmalloc s1;
         if rd = NULL then Some (False, s2)
         else do {
           let (content, s3) = vfs_kmalloc s2;
           if content = NULL then Some (False, s3)
           else do {
             let s4 = s3\<lparr>bytes := memcpy (bytes s3) content (h + USTAR_HEADER_SIZE) (ucast file_size),
                        rdatas := (rdatas s3)(rd \<mapsto> \<lparr>r_data = content, r_size = ucast file_size\<rparr>)\<rparr>;
             mode \<leftarrow> octal s4 (hdr_mode h);
             mtime \<leftarrow> octal s4 (hdr_mtime h);
             s5 \<leftarrow> vnode_upd file (\<lambda>v. v\<lparr>v_ops := Some ramfs_ops, v_data := rd, v_size := ucast file_size,
                     v_mode := mode, v_ctime := mtime\<rparr>) s4;
             Some (True, s5) } } } }"

definition next_header :: "u64 \<Rightarrow> u32 \<Rightarrow> u64" where
  "next_header offset file_size = offset + ucast (512 + ((file_size + 511) AND NOT 511))"

partial_function (option) ustar_loop ::
    "literals \<Rightarrow> u64 \<Rightarrow> u64 \<Rightarrow> u64 \<Rightarrow> vfs \<Rightarrow> u64 \<Rightarrow> u64 \<Rightarrow> vfs option" where
  "ustar_loop lits mount data limit s tk offset =
     (if \<not> offset < limit then Some s
      else
        let h = data + offset in
        if bytes s h = 0 then Some s
        else do {
          file_size \<leftarrow> octal s (hdr_size h);
          let dir = (bytes s (hdr_typeflag h) = 53);
          let name = (if strncmp (bytes s) h (lit_dot_slash lits) 2 = 0 then h + 2 else h);
          len \<leftarrow> strlen (bytes s) name;
          c \<leftarrow> strcmp (bytes s) name (lit_dot lits);
          if len = 0 \<or> c = 0 then ustar_loop lits mount data limit s tk (next_header offset file_size)
          else do {
            (m, tk1, token) \<leftarrow> strtok (bytes s) tk name (lit_slash lits);
            mt \<leftarrow> mounts s mount;
            r \<leftarrow> walk_tokens lits h dir (s\<lparr>bytes := m\<rparr>) tk1 (m_root mt) token;
            case r of
              Inl s1 \<Rightarrow> Some s1
            | Inr (s1, tk2, cur_parent, token2) \<Rightarrow>
                if dir then ustar_loop lits mount data limit s1 tk2 (next_header offset file_size)
                else do {
                  (m3, tk3, filename) \<leftarrow> strtok (bytes s1) tk2 token2 (lit_slash lits);
                  let s2 = s1\<lparr>bytes := m3\<rparr>;
                  fname \<leftarrow> (if filename = NULL then Some [] else string_at (bytes s2) filename);
                  (ok, s3) \<leftarrow> (if fname \<noteq> [] then unpack_file h cur_parent file_size fname s2
                              else Some (True, s2));
                  if ok then ustar_loop lits mount data limit s3 tk3 (next_header offset file_size)
                  else Some s3 } } })"

definition ramfs_init_ustar :: "literals \<Rightarrow> u64 \<Rightarrow> vfs \<Rightarrow> u64 \<Rightarrow> u64 \<Rightarrow> u64 \<Rightarrow> vfs option" where
  "ramfs_init_ustar lits tk s mount data limit =
     (if mount = NULL \<or> data = NULL \<or> limit < USTAR_HEADER_SIZE then None
      else ustar_loop lits mount data limit s tk 0)"

definition RAMFS_TYPE_USTAR :: i32 where
  "RAMFS_TYPE_USTAR = 1"

definition ramfs_init :: "literals \<Rightarrow> u64 \<Rightarrow> vfs \<Rightarrow> u64 \<Rightarrow> i32 \<Rightarrow> u64 \<Rightarrow> u64 \<Rightarrow> vfs option" where
  "ramfs_init lits tk s mount type data limit =
     (if mount = NULL then None
      else do {
        m \<leftarrow> mounts s mount;
        s1 \<leftarrow> vnode_upd (m_root m) (v_ops_update (\<lambda>_. Some ramfs_ops)) s;
        s2 \<leftarrow> mount_upd mount (m_type_update (\<lambda>_. ''ramfs'')) s1;
        if type = RAMFS_TYPE_USTAR then ramfs_init_ustar lits tk s2 mount data limit else Some s2 })"

end
