(* ===== verification/Vfs_Tree.thy ===== *)
theory Vfs_Tree
  imports Vfs
begin

text \<open>
  What the directory operations of the virtual file system do to the tree. The children of a
  directory are a linked list in the vnode heap; \<open>chain\<close> relates the first pointer to the list of
  the addresses, and the operations are described on that list.
\<close>

section \<open>Lists of siblings\<close>

fun chain :: "vfs \<Rightarrow> u64 \<Rightarrow> u64 list \<Rightarrow> bool" where
  "chain s p [] \<longleftrightarrow> p = NULL"
| "chain s p (q # qs) \<longleftrightarrow>
     p = q \<and> p \<noteq> NULL \<and> (\<exists>v. vnodes s p = Some v \<and> v_name v \<noteq> None \<and> chain s (v_next v) qs)"

definition name_of :: "vfs \<Rightarrow> u64 \<Rightarrow> string" where
  "name_of s p = the (v_name (the (vnodes s p)))"

text \<open>The part of a vnode that matters for the list of siblings.\<close>

definition link_part :: "vfs \<Rightarrow> u64 \<Rightarrow> (u64 \<times> string option) option" where
  "link_part s p = map_option (\<lambda>v. (v_next v, v_name v)) (vnodes s p)"

definition child_named :: "vfs \<Rightarrow> u64 list \<Rightarrow> string \<Rightarrow> u64" where
  "child_named s ps n = (case List.find (\<lambda>q. name_of s q = n) ps of None \<Rightarrow> NULL | Some q \<Rightarrow> q)"

lemma chain_link_part: "chain s p (q # qs) \<longleftrightarrow> p = q \<and> p \<noteq> NULL \<and> (\<exists>r n. link_part s p = Some (r, Some n) \<and> chain s r qs)"
  by (auto simp: link_part_def)

lemma chain_cong:
  "chain s p ps \<Longrightarrow> \<forall>q\<in>set ps. link_part t q = link_part s q \<Longrightarrow> chain t p ps"
  by (induction ps arbitrary: p) (auto simp: chain_link_part simp del: chain.simps(2))

lemma name_of_cong: "link_part t q = link_part s q \<Longrightarrow> q \<in> dom (vnodes s) \<Longrightarrow> name_of t q = name_of s q"
  by (auto simp: link_part_def name_of_def)

lemma chain_dom: "chain s p ps \<Longrightarrow> set ps \<subseteq> dom (vnodes s)"
  by (induction ps arbitrary: p) auto

lemma chain_not_NULL: "chain s p ps \<Longrightarrow> NULL \<notin> set ps"
  by (induction ps arbitrary: p) auto

lemma chain_head: "chain s p ps \<Longrightarrow> p = NULL \<longleftrightarrow> ps = []"
  by (cases ps) auto

lemma chain_unique: "chain s p ps \<Longrightarrow> chain s p qs \<Longrightarrow> ps = qs"
proof (induction ps arbitrary: p qs)
  case Nil
  then show ?case by (cases qs) auto
next
  case (Cons q ps)
  then show ?case by (cases qs) auto
qed

lemma chain_append: "chain s p (ps @ q # qs) \<Longrightarrow> chain s q (q # qs)"
  by (induction ps arbitrary: p) auto

lemma chain_distinct: "chain s p ps \<Longrightarrow> distinct ps"
proof (induction ps arbitrary: p)
  case (Cons q qs)
  have "q \<notin> set qs"
  proof
    assume "q \<in> set qs"
    then obtain us vs where "qs = us @ q # vs"
      by (auto dest: split_list)
    then have "chain s p ((q # us) @ q # vs)"
      using Cons.prems by (simp only: append_Cons)
    then have "chain s q (q # vs)"
      by (rule chain_append)
    moreover have "chain s q (q # qs)"
      using Cons.prems by auto
    ultimately have "q # vs = q # qs"
      by (rule chain_unique)
    with \<open>qs = us @ q # vs\<close> show False by simp
  qed
  with Cons show ?case by auto
qed simp

lemma lookup_chain_find:
  assumes "chain s p ps"
  shows "lookup_chain s p n = Some (child_named s ps n)"
  using assms
proof (induction ps arbitrary: p)
  case Nil
  then show ?case by (subst lookup_chain.simps) (simp add: child_named_def)
next
  case (Cons q qs)
  then show ?case
    by (subst lookup_chain.simps) (auto simp: child_named_def name_of_def)
qed

lemma last_sibling_last:
  assumes "chain s p ps" and "ps \<noteq> []"
  shows "last_sibling s p = Some (last ps)"
  using assms
proof (induction ps arbitrary: p)
  case (Cons q qs)
  then show ?case
    by (subst last_sibling.simps) (use chain_head in auto)
qed simp

lemma chain_snoc:
  assumes c: "chain s p ps" and n: "ps \<noteq> []" and new: "new \<noteq> NULL" "new \<notin> set ps"
    and t: "\<forall>q\<in>set (butlast ps). link_part t q = link_part s q"
    and l: "link_part t (last ps) = map_option (\<lambda>(_, m). (new, m)) (link_part s (last ps))"
    and w: "link_part t new = Some (NULL, Some m)"
  shows "chain t p (ps @ [new])"
  using assms
proof (induction ps arbitrary: p)
  case (Cons q qs)
  show ?case
  proof (cases "qs = []")
    case True
    with Cons.prems show ?thesis
      by (auto simp: chain_link_part simp del: chain.simps(2))
  next
    case False
    from Cons.prems(1) obtain r k where r: "p = q" "p \<noteq> NULL" "link_part s q = Some (r, Some k)" "chain s r qs"
      by (auto simp: chain_link_part simp del: chain.simps(2))
    have "chain t r (qs @ [new])"
      using Cons.prems False r(4) by (intro Cons.IH) auto
    moreover have "link_part t q = Some (r, Some k)"
      using Cons.prems(5) False r(3) by simp
    ultimately show ?thesis
      using r(1,2) by (simp add: chain_link_part del: chain.simps(2))
  qed
qed simp


section \<open>Directories\<close>

definition dir_list :: "vfs \<Rightarrow> u64 \<Rightarrow> u64 list \<Rightarrow> bool" where
  "dir_list s d ps \<longleftrightarrow> (\<exists>v. vnodes s d = Some v \<and> v_type v = VNODE_DIR \<and> chain s (v_child v) ps)"

lemma vfs_lookup_dir: "dir_list s d ps \<Longrightarrow> vfs_lookup s d n = Some (child_named s ps n)"
  by (auto simp: dir_list_def vfs_lookup_def lookup_chain_find)

lemma child_named_NULL:
  assumes "chain s p ps"
  shows "child_named s ps n = NULL \<longleftrightarrow> n \<notin> name_of s ` set ps"
proof (cases "List.find (\<lambda>q. name_of s q = n) ps")
  case None
  then have "n \<notin> name_of s ` set ps"
    by (auto simp: find_None_iff)
  with None show ?thesis by (simp add: child_named_def)
next
  case (Some q)
  then have "q \<in> set ps" "name_of s q = n"
    by (auto simp: find_Some_iff)
  with Some show ?thesis
    using chain_not_NULL [OF assms] by (auto simp: child_named_def)
qed

lemma child_named_cong:
  assumes "\<forall>q\<in>set ps. name_of t q = name_of s q"
  shows "child_named t ps n = child_named s ps n"
proof -
  have "List.find (\<lambda>q. name_of t q = n) ps = List.find (\<lambda>q. name_of s q = n) ps"
    using assms by (intro find_cong) auto
  then show ?thesis by (simp add: child_named_def)
qed

lemma child_named_snoc:
  "child_named s (ps @ [q]) n =
     (if n \<in> name_of s ` set ps then child_named s ps n else if name_of s q = n then q else NULL)"
  by (induction ps) (auto simp: child_named_def split: option.splits)


section \<open>Creating\<close>

text \<open>What a new file system object looks like.\<close>

definition fresh_vnode :: "vfs \<Rightarrow> u64 \<Rightarrow> string \<Rightarrow> u32 \<Rightarrow> u64 \<Rightarrow> vnode \<Rightarrow> bool" where
  "fresh_vnode s d n type data v \<longleftrightarrow>
     v_name v = Some n \<and> v_type v = type \<and> v_parent v = d \<and> v_next v = NULL \<and> v_child v = NULL \<and>
     v_size v = 0 \<and> v_data v = data \<and> v_ops v = Some ramfs_ops \<and> \<not> v_locked v \<and> v_ctime v = now s \<and>
     v_mode v = (if type = VNODE_DEV then 0x1A0 else 0x1A4)"

lemma link_part_simps [simp]:
  "link_part (s\<lparr>vnodes := (vnodes s)(p \<mapsto> v)\<rparr>) q = (if q = p then Some (v_next v, v_name v) else link_part s q)"
  "link_part (s\<lparr>rdatas := r\<rparr>) q = link_part s q" "link_part (s\<lparr>answers := a\<rparr>) q = link_part s q"
  by (simp_all add: link_part_def)

lemma link_child_chain:
  assumes v: "vnodes s d = Some v" and c: "chain s (v_child v) ps"
    and new: "new \<noteq> NULL" "new \<notin> set ps" "new \<noteq> d" and w: "vnodes s new = Some w" "v_next w = NULL" "v_name w = Some n"
  shows "\<exists>t u. link_child d new s = Some t \<and> t = s\<lparr>vnodes := vnodes t\<rparr> \<and> vnodes t d = Some u \<and> chain t (v_child u) (ps @ [new]) \<and>
    u = v\<lparr>v_child := v_child u, v_next := v_next u\<rparr> \<and> vnodes t new = Some w \<and>
    (\<forall>q. q \<notin> {d} \<union> set ps \<longrightarrow> vnodes t q = vnodes s q) \<and>
    (\<forall>q\<in>set ps. name_of t q = name_of s q)"
proof (cases "ps = []")
  case True
  let ?t = "s\<lparr>vnodes := (vnodes s)(d \<mapsto> v\<lparr>v_child := new\<rparr>)\<rparr>"
  have "link_child d new s = Some ?t"
    using assms True by (simp add: link_child_def vnode_upd_def)
  then show ?thesis
    using assms True by (intro exI [of _ ?t]) auto
next
  case False
  let ?l = "last ps"
  obtain x where x: "vnodes s ?l = Some x"
    using chain_dom [OF c] False by (meson domD last_in_set subsetD)
  let ?t = "s\<lparr>vnodes := (vnodes s)(?l \<mapsto> x\<lparr>v_next := new\<rparr>)\<rparr>"
  have l: "link_child d new s = Some ?t"
    using v c False x chain_head [OF c] last_sibling_last [OF c False] by (simp add: link_child_def vnode_upd_def)
  have ln: "new \<noteq> ?l"
    using new(2) False by auto
  have ch: "chain ?t (v_child v) (ps @ [new])"
  proof (rule chain_snoc [OF c False new(1,2)])
    show "\<forall>q\<in>set (butlast ps). link_part ?t q = link_part s q"
      using chain_distinct [OF c] False by (auto simp: distinct_butlast dest: in_set_butlastD)
        (metis append_butlast_last_id distinct_append not_distinct_conv_prefix snoc_eq_iff_butlast)
    show "link_part ?t ?l = map_option (\<lambda>(_, m). (new, m)) (link_part s ?l)"
      using x by (simp add: link_part_def)
    show "link_part ?t new = Some (NULL, Some n)"
      using w ln by (simp add: link_part_def)
  qed
  have nm: "\<forall>q\<in>set ps. name_of ?t q = name_of s q"
    using x by (simp add: name_of_def)
  show ?thesis
  proof (cases "d = ?l")
    case True
    with v x have "x = v" by simp
    with l ch nm show ?thesis
      using True v w ln False by (intro exI [of _ ?t] exI [of _ "v\<lparr>v_next := new\<rparr>"]) auto
  next
    case neq: False
    with l ch nm show ?thesis
      using v w ln False by (intro exI [of _ ?t] exI [of _ v]) auto
  qed
qed


lemma acquire_release:
  assumes "vnodes s d = Some v" and "\<not> v_locked v"
  shows "spinlock_acquire d s = Some (s\<lparr>vnodes := (vnodes s)(d \<mapsto> v\<lparr>v_locked := True\<rparr>)\<rparr>)"
    and "spinlock_release d (s\<lparr>vnodes := (vnodes s)(d \<mapsto> v\<lparr>v_locked := True\<rparr>)\<rparr>) = Some s"
proof -
  have "v\<lparr>v_locked := False\<rparr> = v"
    using assms(2) by (cases v) simp
  then show "spinlock_release d (s\<lparr>vnodes := (vnodes s)(d \<mapsto> v\<lparr>v_locked := True\<rparr>)\<rparr>) = Some s"
    using assms(1) by (simp add: spinlock_release_def vnode_upd_def map_upd_triv)
qed (use assms in \<open>simp add: spinlock_acquire_def\<close>)

lemma release_unlocked:
  assumes "vnodes s d = Some v" and "\<not> v_locked v"
  shows "spinlock_release d s = Some s"
proof -
  have "v\<lparr>v_locked := False\<rparr> = v"
    using assms(2) by (cases v) simp
  then show ?thesis
    using assms(1) by (simp add: spinlock_release_def vnode_upd_def map_upd_triv)
qed

lemma ramfs_create_new:
  assumes v: "vnodes s d = Some v" "\<not> v_locked v" and c: "chain s (v_child v) ps"
    and n: "n \<notin> name_of s ` set ps"
    and a: "answers s = new # nm # data # rest" "new \<noteq> NULL" "nm \<noteq> NULL" "data \<noteq> NULL"
  shows "ramfs_create (s\<lparr>vnodes := (vnodes s)(d \<mapsto> v\<lparr>v_locked := True\<rparr>)\<rparr>) d (Some n) type =
    do { t \<leftarrow> link_child d new (s\<lparr>answers := rest, rdatas := (rdatas s)(data \<mapsto> \<lparr>r_data = 0, r_size = 0\<rparr>),
           vnodes := (vnodes s)(d \<mapsto> v\<lparr>v_locked := True\<rparr>, new \<mapsto> zero_vnode\<lparr>v_name := Some n, v_type := type, v_parent := d,
             v_mount := v_mount v, v_mode := (if type \<noteq> VNODE_DEV then 0x1A4 else 0x1A0), v_data := data, v_ops := Some ramfs_ops\<rparr>)\<rparr>);
         Some (new, t) }"
proof -
  have l: "vfs_lookup s d n = Some NULL"
    using v(1) n child_named_NULL [OF c] by (simp add: vfs_lookup_def lookup_chain_find [OF c])
  show ?thesis
    using v a l unfolding ramfs_create_def acquire_release(2) [OF v]
    by (simp add: acquire_release(1) [OF v] vfs_kmalloc_def dup_name_def mode_defs)
qed

lemma vfs_create_new:
  assumes v: "vnodes s d = Some v" "v_type v = VNODE_DIR" "v_ops v = Some ramfs_ops" "\<not> v_locked v"
    and c: "chain s (v_child v) ps" and n: "n \<notin> name_of s ` set ps"
    and a: "answers s = new # nm # data # rest" "new \<noteq> NULL" "nm \<noteq> NULL" "data \<noteq> NULL" "new \<notin> dom (vnodes s)"
  shows "\<exists>t w. vfs_create_vnode s d (Some n) type = Some (new, t) \<and> dir_list t d (ps @ [new]) \<and>
      vnodes t new = Some w \<and> fresh_vnode s d n type data w \<and> (\<forall>q\<in>set ps. name_of t q = name_of s q) \<and>
      (\<forall>q. q \<notin> {d, new} \<union> set ps \<longrightarrow> vnodes t q = vnodes s q) \<and>
      (\<exists>u. vnodes t d = Some u \<and> \<not> v_locked u)"
proof -
  let ?w = "zero_vnode\<lparr>v_name := Some n, v_type := type, v_parent := d, v_mount := v_mount v,
    v_mode := (if type \<noteq> VNODE_DEV then 0x1A4 else 0x1A0), v_data := data, v_ops := Some ramfs_ops\<rparr>"
  let ?s = "s\<lparr>answers := rest, rdatas := (rdatas s)(data \<mapsto> \<lparr>r_data = 0, r_size = 0\<rparr>),
    vnodes := (vnodes s)(d \<mapsto> v\<lparr>v_locked := True\<rparr>, new \<mapsto> ?w)\<rparr>"
  have dn: "new \<noteq> d" "new \<notin> set ps"
    using v(1) a(5) chain_dom [OF c] by auto
  have cs: "chain ?s (v_child v) ps"
    by (rule chain_cong [OF c]) (use v(1) dn in \<open>auto simp: link_part_def\<close>)
  obtain t u where t: "link_child d new ?s = Some t" "t = ?s\<lparr>vnodes := vnodes t\<rparr>" "vnodes t d = Some u"
    "chain t (v_child u) (ps @ [new])" "u = v\<lparr>v_locked := True, v_child := v_child u, v_next := v_next u\<rparr>" "vnodes t new = Some ?w"
    "\<forall>q. q \<notin> {d} \<union> set ps \<longrightarrow> vnodes t q = vnodes ?s q" "\<forall>q\<in>set ps. name_of t q = name_of ?s q"
    using link_child_chain [of ?s d "v\<lparr>v_locked := True\<rparr>" ps new ?w n] cs a dn by (auto simp: zero_vnode_def)
  let ?u = "u\<lparr>v_locked := False\<rparr>" and ?x = "?w\<lparr>v_ctime := now s, v_mtime := now s, v_atime := now s\<rparr>"
  let ?t = "t\<lparr>vnodes := (vnodes t)(d \<mapsto> ?u, new \<mapsto> ?x)\<rparr>"
  have nw: "now t = now s"
    using arg_cong [OF t(2), of now] by simp
  have e: "vfs_create_vnode s d (Some n) type = Some (new, ?t)"
    using v a t(1,3,6) dn nw
    by (simp add: vfs_create_vnode_def acquire_release(1) [OF v(1,4)] ramfs_create_new [OF v(1,4) c n a(1-4)]
        spinlock_release_def vnode_upd_def)
  have ct: "chain ?t (v_child u) (ps @ [new])"
    by (rule chain_cong [OF t(4)]) (use t(3,6) dn in \<open>auto simp: link_part_def\<close>)
  have nm: "\<forall>q\<in>set ps. name_of ?t q = name_of s q"
    using t(3,8) dn v(1) by (auto simp: name_of_def)
  have dl: "dir_list ?t d (ps @ [new])"
    using ct arg_cong [OF t(5), of v_type] v(2) dn by (auto simp: dir_list_def)
  have fr: "fresh_vnode s d n type data ?x"
    by (simp add: fresh_vnode_def zero_vnode_def)
  have ot: "\<forall>q. q \<notin> {d, new} \<union> set ps \<longrightarrow> vnodes ?t q = vnodes s q"
    using t(7) by auto
  show ?thesis
    using e dl nm fr ot dn by (auto intro!: exI [of _ ?t])
qed

lemma lookup_after_create:
  assumes v: "vnodes s d = Some v" and c: "chain s (v_child v) ps" and n: "n \<notin> name_of s ` set ps"
    and dl: "dir_list t d (ps @ [new])" and nn: "name_of t new = n" and nm: "\<forall>q\<in>set ps. name_of t q = name_of s q"
  shows "vfs_lookup t d m = (if m = n then Some new else vfs_lookup s d m)"
proof -
  have "vfs_lookup t d m = Some (child_named t (ps @ [new]) m)"
    by (rule vfs_lookup_dir [OF dl])
  moreover have "vfs_lookup s d m = Some (child_named s ps m)"
    using v by (simp add: vfs_lookup_def lookup_chain_find [OF c])
  moreover have "name_of t ` set ps = name_of s ` set ps"
    using nm by (intro image_cong) auto
  ultimately show ?thesis
    using n nn child_named_cong [OF nm, of m] child_named_NULL [OF c, of m] by (auto simp: child_named_snoc)
qed


text \<open>A file system with the root directory and one empty directory \<open>bin\<close> in it.\<close>

definition small_vfs :: vfs where
  "small_vfs = \<lparr>vnodes = [0x1000 \<mapsto> zero_vnode\<lparr>v_parent := 0x1000, v_child := 0x2000, v_mount := 0x500, v_type := VNODE_DIR,
       v_name := Some ''/'', v_ops := Some ramfs_ops\<rparr>,
     0x2000 \<mapsto> zero_vnode\<lparr>v_parent := 0x1000, v_mount := 0x500, v_type := VNODE_DIR, v_name := Some ''bin'', v_ops := Some ramfs_ops\<rparr>],
     mounts = [0x500 \<mapsto> \<lparr>m_root = 0x1000, m_next = 0, m_prev = 0, m_mountpoint = [], m_type = ''rootfs''\<rparr>],
     rdatas = Map.empty, devs = Map.empty, bytes = (\<lambda>_. 0), answers = [0x3000, 0x3100, 0x3200], now = 7,
     root_mount = 0x500, devfs_root = 0\<rparr>"




section \<open>Paths\<close>

definition valid_name :: "string \<Rightarrow> bool" where
  "valid_name n \<longleftrightarrow> n \<noteq> [] \<and> CHR ''/'' \<notin> set n \<and> length n \<le> 255"

text \<open>A path as text, and what is left of it after the first slash.\<close>

definition path_text :: "string list \<Rightarrow> string" where
  "path_text ns = (if ns = [] then ''/'' else concat (map ((#) (CHR ''/'')) ns))"

fun join :: "string list \<Rightarrow> string" where
  "join [] = []"
| "join [n] = n"
| "join (n # ns) = n @ CHR ''/'' # join ns"

lemma path_text_join: "path_text ns = CHR ''/'' # join ns"
  by (induction ns rule: join.induct) (simp_all add: path_text_def)

lemma join_Cons: "join (n # ns) = n @ (if ns = [] then [] else CHR ''/'' # join ns)"
  by (cases ns) simp_all

lemma component_join:
  assumes "valid_name n"
  shows "component (join (n # ns)) = (n, if ns = [] then [] else CHR ''/'' # join ns)"
proof -
  have "takeWhile (\<lambda>c. c \<noteq> CHR ''/'') (join (n # ns)) = n"
    using assms by (auto simp: join_Cons valid_name_def takeWhile_eq_all_conv) (subst takeWhile_append2, auto)
  then show ?thesis
    using assms by (simp add: component_def Let_def valid_name_def) (simp add: join_Cons)
qed

lemma skip_slash_join: "skip_slash (if ns = [] then [] else CHR ''/'' # join ns) = join ns"
  by (simp add: skip_slash_def)

text \<open>The resolution of a path given as a list of names.\<close>

fun resolve :: "vfs \<Rightarrow> u64 \<Rightarrow> string list \<Rightarrow> u64 option" where
  "resolve s d [] = Some d"
| "resolve s d (n # ns) =
     do {
       c \<leftarrow> vfs_lookup s d n;
       if c = NULL then Some NULL
       else do { v \<leftarrow> vnodes s c; if v_type v \<noteq> VNODE_DIR then Some c else resolve s c ns } }"

lemma lazy_walk_resolve:
  assumes "\<forall>n\<in>set ns. valid_name n"
  shows "lazy_walk s d (join ns) = resolve s d ns"
  using assms
proof (induction ns arbitrary: d)
  case Nil
  then show ?case by (simp add: lazy_walk.simps)
next
  case (Cons n ns)
  then have "valid_name n" and ne: "join (n # ns) \<noteq> []"
    by (simp_all add: valid_name_def join_Cons)
  with Cons show ?case
    by (subst lazy_walk.simps) (simp add: component_join skip_slash_join del: join.simps cong: if_cong)
qed

text \<open>The vnode \<open>p\<close> hangs below the directory \<open>d\<close> under the names \<open>ns\<close>.\<close>

definition child_of :: "vfs \<Rightarrow> u64 \<Rightarrow> string \<Rightarrow> u64 \<Rightarrow> bool" where
  "child_of s d n c \<longleftrightarrow> valid_name n \<and> vfs_lookup s d n = Some c \<and> c \<noteq> NULL \<and> c \<noteq> d \<and>
     (\<exists>v w. vnodes s d = Some v \<and> v_type v = VNODE_DIR \<and> vnodes s c = Some w \<and> v_name w = Some n \<and> v_parent w = d)"

fun node_at :: "vfs \<Rightarrow> u64 \<Rightarrow> string list \<Rightarrow> u64 \<Rightarrow> bool" where
  "node_at s d [] p \<longleftrightarrow> p = d"
| "node_at s d (n # ns) p \<longleftrightarrow> (\<exists>c. child_of s d n c \<and> node_at s c ns p)"

lemma node_at_snoc: "node_at s d (ns @ [n]) p \<longleftrightarrow> (\<exists>e. node_at s d ns e \<and> child_of s e n p)"
  by (induction ns arbitrary: d) auto

lemma node_at_names: "node_at s d ns p \<Longrightarrow> \<forall>n\<in>set ns. valid_name n"
  by (induction ns arbitrary: d) (auto simp: child_of_def)

lemma resolve_node_at: "node_at s d ns p \<Longrightarrow> resolve s d ns = Some p"
proof (induction ns arbitrary: d)
  case (Cons n ns)
  then obtain c where c: "child_of s d n c" "node_at s c ns p" by auto
  show ?case
  proof (cases ns)
    case Nil
    with c show ?thesis by (auto simp: child_of_def)
  next
    case (Cons m ms)
    with c(2) obtain v where "vnodes s c = Some v" "v_type v = VNODE_DIR"
      by (auto simp: child_of_def)
    with c Cons.IH show ?thesis by (auto simp: child_of_def)
  qed
qed simp


text \<open>Both loops of \<open>_vfs_get_full_path\<close> on a vnode below the root.\<close>

definition root_vnode :: "vfs \<Rightarrow> u64 \<Rightarrow> bool" where
  "root_vnode s r \<longleftrightarrow> r \<noteq> NULL \<and> (\<exists>v. vnodes s r = Some v \<and> v_parent v = r)"

lemma path_length_node_at:
  assumes "node_at s r ns p" and "root_vnode s r" and "k + length ns \<le> 1000"
  shows "path_length s p len k = Some (Some (len + of_nat (length (concat (map ((#) (CHR ''/'')) ns)))))"
  using assms
proof (induction ns arbitrary: p len k rule: rev_induct)
  case Nil
  then show ?case by (subst path_length.simps) (auto simp: root_vnode_def)
next
  case (snoc n ns)
  then obtain e where e: "node_at s r ns e" "child_of s e n p"
    by (auto simp: node_at_snoc)
  have "path_length s p len k = path_length s e (len + of_nat (length n) + 1) (k + 1)"
    using e(2) snoc.prems(3) by (subst path_length.simps) (auto simp: child_of_def)
  also have "\<dots> = Some (Some (len + of_nat (length n) + 1 + of_nat (length (concat (map ((#) (CHR ''/'')) ns)))))"
    using snoc e by (intro snoc.IH) auto
  finally show ?case by (simp add: algebra_simps)
qed

lemma path_build_node_at:
  assumes "node_at s r ns p" and "root_vnode s r"
    and "len = of_nat (length (concat (map ((#) (CHR ''/'')) ns)))" and "length (concat (map ((#) (CHR ''/'')) ns)) \<le> 1000000"
  shows "path_build s p len path = Some (Some (concat (map ((#) (CHR ''/'')) ns) @ path))"
  using assms
proof (induction ns arbitrary: p len path rule: rev_induct)
  case Nil
  then show ?case by (subst path_build.simps) (auto simp: root_vnode_def)
next
  case (snoc n ns)
  let ?k = "length (concat (map ((#) (CHR ''/'')) ns))"
  from snoc obtain e where e: "node_at s r ns e" "child_of s e n p"
    by (auto simp: node_at_snoc)
  have len: "len - of_nat (length n) = of_nat ?k + 1" "(of_nat ?k + 1 :: u64) > 0" "\<not> (of_nat ?k :: u64) > 1000000"
    using snoc.prems(3,4) by (simp_all add: word_less_nat_alt unat_word_ariths unsigned_of_nat take_bit_nat_eq_self not_less)
  have "path_build s p len path = path_build s e (of_nat ?k) (CHR ''/'' # n @ path)"
    using e(2) len by (subst path_build.simps) (auto simp: child_of_def)
  also have "\<dots> = Some (Some (concat (map ((#) (CHR ''/'')) ns) @ CHR ''/'' # n @ path))"
    using snoc e by (intro snoc.IH) auto
  finally show ?case by simp
qed

lemma lookup_chain_heap:
  "lookup_chain s p n = Some q \<Longrightarrow> \<forall>t. vnodes t = vnodes s \<longrightarrow> lookup_chain t p n = Some q"
proof (induction rule: lookup_chain.raw_induct [rotated, consumes 1])
  case (1 f s p n q)
  show ?case
  proof (intro allI impI)
    fix t :: vfs
    assume t: "vnodes t = vnodes s"
    show "lookup_chain t p n = Some q"
    proof (cases "p = NULL")
      case True
      with 1(2) show ?thesis by (subst lookup_chain.simps) simp
    next
      case False
      with 1(2) obtain v m where v: "vnodes s p = Some v" "v_name v = Some m"
        "if m = n then q = p else f s (v_next v) n = Some q"
        by (auto simp: bind_eq_Some_conv split: if_splits)
      have "lookup_chain t (v_next v) n = Some q" if "m \<noteq> n"
      proof -
        from v(3) that have "f s (v_next v) n = Some q" by simp
        from 1(1) [OF this] t show ?thesis by blast
      qed
      with v False t show ?thesis by (subst lookup_chain.simps) (simp split: if_splits)
    qed
  qed
qed

lemma node_at_heap:
  assumes "node_at s r ns p" and "vnodes t = vnodes s"
  shows "node_at t r ns p"
proof -
  have "child_of t d n c" if "child_of s d n c" for d n c
    using that assms(2) by (auto simp: child_of_def vfs_lookup_def intro: lookup_chain_heap [rule_format])
  then show ?thesis
    using assms(1)
  proof (induction ns arbitrary: r)
    case (Cons n ns)
    from Cons.prems(2) obtain c where "child_of s r n c" "node_at s c ns p" by auto
    then have "child_of t r n c" "node_at t c ns p"
      using Cons.IH [OF Cons.prems(1)] Cons.prems(1) by simp_all
    then show ?case by auto
  qed simp
qed

lemma lazy_lookup_node_at:
  assumes "mounts s m = Some mo" and "m \<noteq> NULL" and "m_root mo = r" and "root_vnode s r"
    and "node_at s r ns p" and "p \<noteq> NULL"
  shows "vfs_lazy_lookup s m (Some (path_text ns)) = Some p"
  using assms lazy_walk_resolve [OF node_at_names [OF assms(5)], of s r] resolve_node_at [OF assms(5)]
  by (subst vfs_lazy_lookup.simps) (simp add: path_text_join root_vnode_def)

lemma full_path_node_at:
  assumes r: "root_vnode s r" and n: "node_at s r ns p" "p \<noteq> NULL"
    and b: "length ns \<le> 1000" "length (path_text ns) \<le> 1000000"
    and a: "answers s = a # as" "a \<noteq> NULL"
  shows "get_full_path s p = Some (Some (path_text ns), s\<lparr>answers := as\<rparr>)"
proof (cases ns rule: rev_cases)
  case Nil
  with r n a show ?thesis
    by (auto simp: get_full_path_def root_vnode_def vfs_kmalloc_def path_text_def)
next
  case (snoc ms k)
  then obtain e where "child_of s e k p"
    using n(1) by (auto simp: node_at_snoc)
  then obtain v where v: "vnodes s p = Some v" "v_parent v \<noteq> p"
    by (auto simp: child_of_def)
  let ?t = "s\<lparr>answers := as\<rparr>"
  have t: "node_at ?t r ns p" "root_vnode ?t r"
    using node_at_heap [OF n(1), of ?t] r by (simp_all add: root_vnode_def)
  have x: "path_text ns = concat (map ((#) (CHR ''/'')) ns)"
    using snoc by (simp add: path_text_def)
  have l: "path_length s p 0 0 = Some (Some (of_nat (length (path_text ns))))"
    using path_length_node_at [OF n(1) r, of 0 0] b(1) x by simp
  have "path_build ?t p (of_nat (length (path_text ns))) [] = Some (Some (path_text ns))"
    using path_build_node_at [OF t refl, of "[]"] b(2) x by simp
  with v l n(2) a show ?thesis
    by (simp add: get_full_path_def vfs_kmalloc_def path_text_join)
qed

text \<open>
  C11: The path of a vnode and the resolution of paths are inverse to each other. For a vnode that
  hangs in the tree of a mount under proper names (non-empty, without a slash, of at most 255
  characters), \<open>_vfs_get_full_path\<close> returns the names with a slash before each, and
  \<open>vfs_lazy_lookup\<close> resolves that text to the vnode; the bounds are the ones that the code has.
\<close>

theorem full_path_roundtrip:
  assumes "mounts s m = Some mo" and "m \<noteq> NULL" and "root_vnode s (m_root mo)" and "node_at s (m_root mo) ns p" and "p \<noteq> NULL"
    and "length ns \<le> 1000" and "length (path_text ns) \<le> 1000000" and "answers s = a # as" and "a \<noteq> NULL"
  shows "\<exists>t. get_full_path s p = Some (Some (path_text ns), t) \<and> vfs_lazy_lookup t m (Some (path_text ns)) = Some p"
proof -
  let ?t = "s\<lparr>answers := as\<rparr>"
  have "get_full_path s p = Some (Some (path_text ns), ?t)"
    by (rule full_path_node_at [OF assms(3-9)])
  moreover have "vfs_lazy_lookup ?t m (Some (path_text ns)) = Some p"
    using assms node_at_heap [OF assms(4), of ?t] by (intro lazy_lookup_node_at [of _ _ mo]) (auto simp: root_vnode_def)
  ultimately show ?thesis by blast
qed

theorem full_path_roundtrip_witness:
  "\<exists>t. get_full_path small_vfs 0x2000 = Some (Some ''/bin'', t) \<and> vfs_lazy_lookup t 0x500 (Some ''/bin'') = Some 0x2000"
proof -
  have "vfs_lookup small_vfs 0x1000 ''bin'' = Some 0x2000"
    by (simp add: vfs_lookup_def small_vfs_def zero_vnode_def lookup_chain.simps)
  then have "node_at small_vfs 0x1000 [''bin''] 0x2000"
    by (simp add: child_of_def valid_name_def) (simp add: small_vfs_def zero_vnode_def)
  then show ?thesis
    using full_path_roundtrip [of small_vfs "0x500" "the (mounts small_vfs 0x500)" "[''bin'']" "0x2000" "0x3000" "[0x3100, 0x3200]"]
    by (simp add: root_vnode_def path_text_def) (simp add: small_vfs_def zero_vnode_def)
qed

end
