(* ===== verification/Ramfs.thy ===== *)
theory Ramfs
  imports Vfs_Tree
begin

text \<open>
  The contents of files in the RAM file system: what \<open>vfs_read\<close> and \<open>vfs_write\<close> do to the
  sequence of bytes that a file holds (\<open>kernel/src/fs/ramfs.c\<close>).
\<close>

section \<open>Blocks of memory as lists of bytes\<close>

definition chunk :: "mem \<Rightarrow> u64 \<Rightarrow> nat \<Rightarrow> u8 list" where
  "chunk m a n = map (\<lambda>i. m (a + of_nat i)) [0..<n]"

lemma length_chunk [simp]: "length (chunk m a n) = n"
  by (simp add: chunk_def)

lemma nth_chunk [simp]: "i < n \<Longrightarrow> chunk m a n ! i = m (a + of_nat i)"
  by (simp add: chunk_def)

lemma take_chunk: "take k (chunk m a n) = chunk m a (min k n)"
  by (rule nth_equalityI) simp_all

lemma drop_chunk: "drop k (chunk m a n) = chunk m (a + of_nat k) (n - k)"
  by (rule nth_equalityI) (simp_all add: algebra_simps)

lemma chunk_append: "chunk m a (k + n) = chunk m a k @ chunk m (a + of_nat k) n"
  by (rule nth_equalityI) (auto simp: nth_append algebra_simps of_nat_diff)

lemma chunk_cong:
  assumes "n \<le> 2 ^ 64" and "\<And>x. x \<in> region a n \<Longrightarrow> m x = m' x"
  shows "chunk m a n = chunk m' a n"
  by (rule nth_equalityI) (use assms in_region_offset [of _ n a] in auto)

lemma memcpy_disjoint:
  assumes "region d (unat n) \<inter> region s (unat n) = {}"
  shows "memcpy m d s n = block_copy m d s (unat n)"
proof (cases "n = 0")
  case True
  then show ?thesis by (simp add: memcpy_def block_copy_def)
next
  case False
  then have "d \<in> region d (unat n)"
    by (simp add: region_def unat_gt_0)
  with assms have "d \<notin> region s (unat n)" by blast
  then have "unat n \<le> unat (d - s)"
    by (simp add: region_def)
  moreover have "unat n \<le> 2 ^ 64"
    using unat_lt_64 [of n] by simp
  ultimately show ?thesis
    by (simp add: memcpy_def memcpy_loop_copy)
qed

lemma memcpy_chunk:
  assumes "region d (unat n) \<inter> region s (unat n) = {}"
  shows "chunk (memcpy m d s n) d (unat n) = chunk m s (unat n)"
proof (rule nth_equalityI)
  fix i assume "i < length (chunk (memcpy m d s n) d (unat n))"
  then have "i < unat n" by simp
  moreover have "unat (of_nat i :: u64) = i"
    using \<open>i < unat n\<close> unat_lt_64 [of n] by (simp add: unat_of_nat)
  ultimately show "chunk (memcpy m d s n) d (unat n) ! i = chunk m s (unat n) ! i"
    by (simp add: memcpy_disjoint [OF assms] block_copy_def)
qed simp

lemma memcpy_other:
  assumes "region d (unat n) \<inter> region s (unat n) = {}" and "region d (unat n) \<inter> region a k = {}" and "k \<le> 2 ^ 64"
  shows "chunk (memcpy m d s n) a k = chunk m a k"
  by (rule chunk_cong [OF assms(3)])
    (use assms(2) in \<open>auto simp: memcpy_disjoint [OF assms(1)] block_copy_def region_def\<close>)

lemma region_join:
  assumes "x \<in> region a n" and "n \<le> 2 ^ 64" and "k \<le> n"
  shows "x \<in> region a k \<or> x \<in> region (a + of_nat k) (n - k)"
proof -
  from assms(1) obtain i where i: "i < n" "x = a + of_nat i"
    by (rule region_offset_cases)
  show ?thesis
  proof (cases "i < k")
    case True
    then show ?thesis using i assms in_region_offset [of i k a] by simp
  next
    case False
    then have "x = a + of_nat k + of_nat (i - k)"
      using i(2) by (simp add: of_nat_diff)
    then show ?thesis
      using False i(1) assms in_region_offset [of "i - k" "n - k" "a + of_nat k"] by simp
  qed
qed

lemma region_split_disjoint:
  assumes "k + n \<le> 2 ^ 64"
  shows "region a k \<inter> region (a + of_nat k) n = {}"
proof (rule ccontr)
  assume "\<not> ?thesis"
  then obtain x where x: "x \<in> region a k" "x \<in> region (a + of_nat k) n" by blast
  then obtain i j where "i < k" "x = a + of_nat i" "j < n" "x = a + of_nat k + of_nat j"
    by (metis region_offset_cases)
  then have "(of_nat i :: u64) = of_nat (k + j)" "i < 2 ^ 64" "k + j < 2 ^ 64"
    using assms by (simp_all add: algebra_simps)
  then have "i = k + j"
    by (simp add: word_unat_eq_iff unat_of_nat del: of_nat_add)
  with \<open>i < k\<close> show False by simp
qed


section \<open>Files\<close>

text \<open>The vnode \<open>p\<close> is an unlocked file of the RAM file system that holds the bytes \<open>c\<close>.\<close>

definition file_holds :: "vfs \<Rightarrow> u64 \<Rightarrow> u8 list \<Rightarrow> bool" where
  "file_holds s p c \<longleftrightarrow> p \<noteq> NULL \<and>
     (\<exists>v d. vnodes s p = Some v \<and> v_type v = VNODE_FILE \<and> v_ops v = Some ramfs_ops \<and> \<not> v_locked v \<and> v_data v \<noteq> NULL \<and>
        rdatas s (v_data v) = Some d \<and> v_size v = r_size d \<and> c = chunk (bytes s) (r_data d) (unat (r_size d)))"

text \<open>Where the contents of the file lie.\<close>

definition file_data :: "vfs \<Rightarrow> u64 \<Rightarrow> u64" where
  "file_data s p = r_data (the (rdatas s (v_data (the (vnodes s p)))))"

text \<open>What the permission check looks at.\<close>

definition access_of :: "vfs \<Rightarrow> u64 \<Rightarrow> (u32 \<times> u32 \<times> u32) option" where
  "access_of s p = map_option (\<lambda>v. (v_mode v, v_uid v, v_gid v)) (vnodes s p)"

lemma file_holds_length:
  assumes "file_holds s p c"
  shows "length c < 2 ^ 64"
  using assms unat_lt_64 by (auto simp: file_holds_def)

text \<open>Writing a block into a list of bytes.\<close>

definition splice :: "'a list \<Rightarrow> nat \<Rightarrow> 'a list \<Rightarrow> 'a list" where
  "splice c off b = take off c @ b @ drop (off + length b) c"

text \<open>The two kinds of writes that stay within the memory of the file: into it, and at its end.\<close>

definition write_ok :: "vfs \<Rightarrow> u64 \<Rightarrow> u8 list \<Rightarrow> u64 \<Rightarrow> u64 \<Rightarrow> u64 \<Rightarrow> bool" where
  "write_ok s p c buf n off \<longleftrightarrow> buf \<noteq> NULL \<and> unat off + unat n < 2 ^ 64 \<and>
     (if unat off + unat n \<le> length c
      then region (file_data s p + off) (unat n) \<inter> region buf (unat n) = {}
      else unat off = length c \<and>
        (\<exists>new rest. answers s = new # rest \<and> new \<noteq> NULL \<and>
           region new (unat off + unat n) \<inter> region (file_data s p) (length c) = {} \<and>
           region new (unat off + unat n) \<inter> region buf (unat n) = {}))"

lemma in_place_splice:
  assumes k: "off + unat n \<le> k" "k \<le> 2 ^ 64" and d: "region (a + of_nat off) (unat n) \<inter> region b (unat n) = {}"
  shows "chunk (memcpy m (a + of_nat off) b n) a k = splice (chunk m a k) off (chunk m b (unat n))"
proof -
  let ?m = "memcpy m (a + of_nat off) b n"
  obtain r where r: "k = off + unat n + r"
    using k(1) le_Suc_ex by blast
  have "region (a + of_nat off) (unat n) \<inter> region a off = {}"
    using region_split_disjoint [of off "unat n" a] k r by auto
  then have 1: "chunk ?m a off = chunk m a off"
    using k r by (intro memcpy_other [OF d]) auto
  have "region (a + of_nat off) (unat n) \<inter> region (a + of_nat off + of_nat (unat n)) r = {}"
    using region_split_disjoint [of "unat n" r "a + of_nat off"] k r by auto
  then have 2: "chunk ?m (a + of_nat off + of_nat (unat n)) r = chunk m (a + of_nat off + of_nat (unat n)) r"
    using k r by (intro memcpy_other [OF d]) auto
  have "chunk ?m a k = chunk ?m a off @ chunk ?m (a + of_nat off) (unat n) @ chunk ?m (a + of_nat off + of_nat (unat n)) r"
    by (simp add: r chunk_append add.assoc)
  with 1 2 show ?thesis
    by (simp add: splice_def memcpy_chunk [OF d] take_chunk drop_chunk r algebra_simps)
qed


lemma unat_plus_64: "unat a + unat b < 2 ^ 64 \<Longrightarrow> unat (a + b :: u64) = unat a + unat b"
  by (rule unat_plus_no_wrap) simp

lemma ramfs_write_in_place:
  assumes p: "p \<noteq> NULL" "vnodes s p = Some v" "v_type v = VNODE_FILE" "v_data v \<noteq> NULL" "rdatas s (v_data v) = Some d"
    and z: "v_size v = r_size d" and b: "buf \<noteq> NULL" and f: "unat off + unat n \<le> unat (r_size d)"
  shows "ramfs_write s p buf n off = Some (ucast n, s\<lparr>bytes := memcpy (bytes s) (r_data d + off) buf n\<rparr>)"
proof -
  have u: "unat (off + n) = unat off + unat n"
    using f unat_lt_64 [of "r_size d"] by (intro unat_plus_64) simp
  have g: "(off \<ge> r_size d \<and> off + n > r_size d) = False" "(if v_size v > off + n then v_size v else off + n) = r_size d"
    using f u z by (auto simp: word_le_nat_alt word_less_nat_alt word_unat_eq_iff)
  have "v\<lparr>v_size := r_size d\<rparr> = v" "d\<lparr>r_size := r_size d\<rparr> = d"
    using z by (cases v, simp, cases d, simp)
  then show ?thesis
    using p b g(2) by (simp add: ramfs_write_def Let_def g(1) map_upd_triv) (use g(1) in blast)
qed

lemma ramfs_write_append:
  assumes p: "p \<noteq> NULL" "vnodes s p = Some v" "v_type v = VNODE_FILE" "v_data v \<noteq> NULL" "rdatas s (v_data v) = Some d"
    and b: "buf \<noteq> NULL" and f: "off = r_size d" "n \<noteq> 0" "unat off + unat n < 2 ^ 64"
    and a: "answers s = new # rest" "new \<noteq> NULL"
  shows "ramfs_write s p buf n off = Some (ucast n, s\<lparr>answers := rest,
    bytes := memcpy (memcpy (bytes s) new (r_data d) off) (new + off) buf n,
    rdatas := (rdatas s)(v_data v \<mapsto> \<lparr>r_data = new, r_size = off + n\<rparr>), vnodes := (vnodes s)(p \<mapsto> v\<lparr>v_size := off + n\<rparr>)\<rparr>)"
proof -
  have "off + n > r_size d"
    using f unat_plus_64 [of off n] by (simp add: word_less_nat_alt unat_gt_0)
  then show ?thesis
    using p b f(1) a by (simp add: ramfs_write_def vfs_kmalloc_def Let_def)
qed

lemma append_chunk:
  assumes "unat off + unat n < 2 ^ 64" and "region new (unat off + unat n) \<inter> region a (unat off) = {}"
    and "region new (unat off + unat n) \<inter> region buf (unat n) = {}"
  shows "chunk (memcpy (memcpy m new a off) (new + off) buf n) new (unat (off + n)) =
    chunk m a (unat off) @ chunk m buf (unat n)"
proof -
  let ?m = "memcpy m new a off"
  have s1: "region new (unat off) \<subseteq> region new (unat off + unat n)"
    by (rule region_mono) simp
  have s2: "region (new + of_nat (unat off)) (unat n) \<subseteq> region new (unat off + unat n)"
    by (rule region_sub) (use assms(1) in simp_all)
  have d1: "region new (unat off) \<inter> region a (unat off) = {}" and d2: "region new (unat off) \<inter> region buf (unat n) = {}"
    and d3: "region (new + off) (unat n) \<inter> region buf (unat n) = {}"
    using assms s1 s2 by auto
  have d4: "region (new + off) (unat n) \<inter> region new (unat off) = {}"
    using region_split_disjoint [of "unat off" "unat n" new] assms(1) by auto
  have "chunk ?m buf (unat n) = chunk m buf (unat n)"
    using unat_lt_64 [of n] by (intro memcpy_other [OF d1 d2]) simp
  moreover have "chunk (memcpy ?m (new + off) buf n) new (unat off) = chunk m a (unat off)"
    using memcpy_other [OF d3 d4] unat_lt_64 [of off] memcpy_chunk [OF d1] by simp
  ultimately show ?thesis
    by (simp add: unat_plus_64 [OF assms(1)] chunk_append memcpy_chunk [OF d3])
qed

lemma vfs_write_ramfs:
  assumes v: "vnodes s p = Some v" "v_type v = VNODE_FILE" "v_ops v = Some ramfs_ops" "\<not> v_locked v"
    and w: "ramfs_write (s\<lparr>vnodes := (vnodes s)(p \<mapsto> v\<lparr>v_locked := True\<rparr>)\<rparr>) p buf n off = Some (r, t)"
    and t: "vnodes t p = Some x"
  shows "vfs_write s p buf n off = Some (r, t\<lparr>vnodes := (vnodes t)(p \<mapsto> x\<lparr>v_locked := False, v_mtime := now t\<rparr>)\<rparr>)"
  using v w t
  by (simp add: vfs_write_def acquire_release(1) [OF v(1,4)] vnode_type_defs spinlock_release_def vnode_upd_def)

lemma vfs_write_file:
  assumes f: "file_holds s p c" and w: "write_ok s p c buf n off"
  shows "\<exists>t. vfs_write s p buf n off = Some (ucast n, t) \<and>
    file_holds t p (splice c (unat off) (chunk (bytes s) buf (unat n))) \<and>
    file_data t p = (if unat off + unat n \<le> length c then file_data s p else hd (answers s)) \<and> access_of t p = access_of s p"
proof -
  from f obtain v d where v: "p \<noteq> NULL" "vnodes s p = Some v" "v_type v = VNODE_FILE" "v_ops v = Some ramfs_ops" "\<not> v_locked v"
    "v_data v \<noteq> NULL" "rdatas s (v_data v) = Some d" "v_size v = r_size d" "c = chunk (bytes s) (r_data d) (unat (r_size d))"
    by (auto simp: file_holds_def)
  let ?v = "v\<lparr>v_locked := True\<rparr>" and ?b = "chunk (bytes s) buf (unat n)"
  let ?s = "s\<lparr>vnodes := (vnodes s)(p \<mapsto> ?v)\<rparr>"
  have l: "length c = unat (r_size d)" and fd: "file_data s p = r_data d"
    using v by (simp_all add: file_data_def)
  from w have b: "buf \<noteq> NULL" "unat off + unat n < 2 ^ 64" by (simp_all add: write_ok_def)
  show ?thesis
  proof (cases "unat off + unat n \<le> unat (r_size d)")
    case True
    let ?m = "memcpy (bytes s) (r_data d + off) buf n"
    have "ramfs_write ?s p buf n off = Some (ucast n, ?s\<lparr>bytes := memcpy (bytes ?s) (r_data d + off) buf n\<rparr>)"
      by (rule ramfs_write_in_place [of _ _ ?v]) (use v b True in simp_all)
    note e = vfs_write_ramfs [OF v(2-5) this, of ?v]
    have "chunk ?m (r_data d) (unat (r_size d)) = splice c (unat off) ?b"
      using in_place_splice [of "unat off" n "unat (r_size d)" "r_data d" buf "bytes s"] True w l fd v(9)
        unat_lt_64 [of "r_size d"] by (simp add: write_ok_def)
    with e show ?thesis
      using v True by (simp add: file_holds_def) (simp add: file_data_def access_of_def)
  next
    case False
    with w l fd obtain new rest where a: "off = r_size d" "answers s = new # rest" "new \<noteq> NULL"
      "region new (unat off + unat n) \<inter> region (r_data d) (unat off) = {}" "region new (unat off + unat n) \<inter> region buf (unat n) = {}"
      by (auto simp: write_ok_def word_unat_eq_iff)
    from False a(1) have n: "n \<noteq> 0" by auto
    note e = vfs_write_ramfs [OF v(2-5) ramfs_write_append [of p ?s ?v d buf off n new rest], of "?v\<lparr>v_size := off + n\<rparr>"]
    have "splice c (unat off) ?b = c @ ?b"
      using l a(1) by (simp add: splice_def)
    with append_chunk [OF b(2) a(4,5), of "bytes s"] e show ?thesis
      using v a b n False by (simp add: file_holds_def) (simp add: file_data_def access_of_def)
  qed
qed


lemma vfs_read_ramfs:
  assumes f: "file_holds s p c" and b: "buf \<noteq> NULL" and o: "unat off < length c"
    and d: "region buf (unat n) \<inter> region (file_data s p) (length c) = {}"
  shows "\<exists>t (k :: u64). vfs_read s p buf n off = Some (ucast k, t) \<and> unat k = min (unat n) (length c - unat off) \<and>
    chunk (bytes t) buf (unat k) = take (unat n) (drop (unat off) c) \<and> file_holds t p c \<and> vnodes t = vnodes s"
proof -
  from f obtain v e where v: "p \<noteq> NULL" "vnodes s p = Some v" "v_type v = VNODE_FILE" "v_ops v = Some ramfs_ops" "\<not> v_locked v"
    "v_data v \<noteq> NULL" "rdatas s (v_data v) = Some e" "v_size v = r_size e" "c = chunk (bytes s) (r_data e) (unat (r_size e))"
    by (auto simp: file_holds_def)
  have l: "length c = unat (r_size e)" and fd: "file_data s p = r_data e"
    using v by (simp_all add: file_data_def)
  define k where "k = (if n > r_size e - off then r_size e - off else n)"
  have r: "unat (r_size e - off) = unat (r_size e) - unat off"
    using o l by (simp add: unat_minus_no_wrap word_le_nat_alt)
  have k: "unat k = min (unat n) (length c - unat off)"
    using r l by (auto simp: k_def word_less_nat_alt)
  let ?m = "memcpy (bytes s) buf (r_data e + off) k"
  have z: "unat (r_size e) \<le> 2 ^ 64"
    using unat_lt_64 [of "r_size e"] by simp
  have "region (r_data e + of_nat (unat off)) (unat k) \<subseteq> region (r_data e) (unat (r_size e))"
    using k l o z by (intro region_sub) auto
  then have d1: "region buf (unat k) \<inter> region (r_data e + off) (unat k) = {}"
    using d fd l k region_mono [of "unat k" "unat n" buf] by fastforce
  have d2: "region buf (unat k) \<inter> region (r_data e) (unat (r_size e)) = {}"
    using d fd l k region_mono [of "unat k" "unat n" buf] by fastforce
  have u: "v\<lparr>v_locked := False\<rparr> = v"
    using v(5) by (cases v) simp
  have "\<not> off \<ge> r_size e"
    using o l by (simp add: word_le_nat_alt)
  then have "vfs_read s p buf n off = Some (ucast k, s\<lparr>bytes := ?m\<rparr>)"
    using v b u acquire_release(1) [OF v(2,5)]
    by (simp add: vfs_read_def ramfs_read_def vnode_type_defs k_def [symmetric] Let_def)
      (simp add: spinlock_release_def vnode_upd_def map_upd_triv)
  moreover have "chunk ?m buf (unat k) = take (unat n) (drop (unat off) c)"
    using memcpy_chunk [OF d1] k l v(9) by (simp add: drop_chunk take_chunk)
  moreover have "chunk ?m (r_data e) (unat (r_size e)) = c"
    using memcpy_other [OF d1 d2 z] v(9) by simp
  moreover have "file_holds (s\<lparr>bytes := ?m\<rparr>) p c"
    using calculation(3) v by (simp add: file_holds_def)
  ultimately show ?thesis
    using k by (intro exI [of _ "s\<lparr>bytes := ?m\<rparr>"] exI [of _ k]) simp
qed

text \<open>
  C9: What has been written is read back. A write of \<open>n\<close> bytes that lies within the file, or starts at
  its end and finds memory for the longer file, returns \<open>n\<close>, puts the bytes of the buffer at the
  offset and leaves the rest of the contents as it was; a read of \<open>n\<close> bytes at the same offset into a buffer outside the file's memory returns \<open>n\<close> and fills the buffer with
  the bytes that were written; the contents of the file stay as they are.
\<close>

theorem read_after_write:
  assumes f: "file_holds s p c" and w: "write_ok s p c buf n off" and n: "n \<noteq> 0" and b: "out \<noteq> NULL"
    and d: "region out (unat n) \<inter> region (if unat off + unat n \<le> length c then file_data s p else hd (answers s))
      (max (length c) (unat off + unat n)) = {}"
  shows "\<exists>t u. vfs_write s p buf n off = Some (ucast n, t) \<and> vfs_read t p out n off = Some (ucast n, u) \<and>
    chunk (bytes u) out (unat n) = chunk (bytes s) buf (unat n) \<and>
    file_holds u p (splice c (unat off) (chunk (bytes s) buf (unat n)))"
proof -
  let ?b = "chunk (bytes s) buf (unat n)" and ?c = "splice c (unat off) (chunk (bytes s) buf (unat n))"
  obtain t where t: "vfs_write s p buf n off = Some (ucast n, t)" "file_holds t p ?c"
    "file_data t p = (if unat off + unat n \<le> length c then file_data s p else hd (answers s))"
    using vfs_write_file [OF f w] by blast
  have o: "unat off \<le> length c"
    using w by (auto simp: write_ok_def split: if_splits)
  have l: "length ?c = max (length c) (unat off + unat n)"
    using o by (simp add: splice_def)
  have "0 < unat n"
    using n by (simp add: unat_gt_0)
  then have "unat off < length ?c"
    using l by simp
  moreover have "region out (unat n) \<inter> region (file_data t p) (length ?c) = {}"
    using d l t(3) by simp
  ultimately obtain u and k :: u64 where u: "vfs_read t p out n off = Some (ucast k, u)" "unat k = min (unat n) (length ?c - unat off)"
    "chunk (bytes u) out (unat k) = take (unat n) (drop (unat off) ?c)" "file_holds u p ?c"
    using vfs_read_ramfs [OF t(2) b, of off n] by blast
  have "unat k = unat n"
    using u(2) l by simp
  then have k: "k = n"
    by (simp add: word_unat_eq_iff)
  moreover have "take (unat n) (drop (unat off) ?c) = ?b"
    using o by (simp add: splice_def)
  ultimately show ?thesis
    using t(1) u by auto
qed

text \<open>A file system with one file of two bytes, at \<open>0x8000\<close>.\<close>

definition file_vfs :: vfs where
  "file_vfs = small_vfs\<lparr>vnodes := [0x2000 \<mapsto> zero_vnode\<lparr>v_type := VNODE_FILE, v_name := Some ''motd'', v_ops := Some ramfs_ops,
     v_data := 0x2100, v_size := 2\<rparr>], rdatas := [0x2100 \<mapsto> \<lparr>r_data = 0x8000, r_size = 2\<rparr>], bytes := (\<lambda>a. ucast a)\<rparr>"

lemma chunk_Suc: "chunk m a 0 = []" "chunk m a (Suc n) = chunk m a n @ [m (a + of_nat n)]"
  by (simp_all add: chunk_def)

lemma region_Suc:
  assumes "n < 2 ^ 64"
  shows "region a (Suc n) = insert (a + of_nat n) (region a n)"
proof -
  have "unat (x - a) = n \<longleftrightarrow> x = a + of_nat n" for x
  proof -
    have "unat (x - a) = n \<longleftrightarrow> x - a = of_nat n"
      using assms by (simp add: word_unat_eq_iff unat_of_nat)
    then show ?thesis by (auto simp: algebra_simps)
  qed
  then show ?thesis by (auto simp: region_def less_Suc_eq)
qed

lemma region_0 [simp]: "region a 0 = {}"
  by (simp add: region_def)

lemma small_regions: "region a (Suc 0) = {a}" "region a 2 = {a, a + 1}" "region a 3 = {a, a + 1, a + 2}"
proof -
  show 1: "region a (Suc 0) = {a}"
    using region_Suc [of 0 a] by simp
  have "region a 2 = region a (Suc 1)"
    by (simp add: numeral_2_eq_2)
  also have "\<dots> = insert (a + of_nat 1) (region a 1)"
    by (rule region_Suc) simp
  finally show 2: "region a 2 = {a, a + 1}"
    by (auto simp: 1)
  have "region a 3 = region a (Suc 2)"
    by (simp add: numeral_3_eq_3)
  also have "\<dots> = insert (a + of_nat 2) (region a 2)"
    by (rule region_Suc) simp
  finally show "region a 3 = {a, a + 1, a + 2}"
    by (auto simp: 2)
qed

lemma small_chunks: "chunk m a (Suc 0) = [m a]" "chunk m a 2 = [m a, m (a + 1)]"
  by (simp_all add: chunk_def numeral_2_eq_2)

lemmas small_blocks = small_regions small_chunks

lemma file_vfs_holds: "file_holds file_vfs 0x2000 [0, 1]" "file_data file_vfs 0x2000 = 0x8000"
  by (simp_all add: file_holds_def file_data_def file_vfs_def zero_vnode_def small_blocks)

lemma file_vfs_simps:
  "answers file_vfs = [0x3000, 0x3100, 0x3200]" "chunk (bytes file_vfs) 0x9001 2 = [1, 2]" "chunk (bytes file_vfs) 0x9001 (Suc 0) = [1]"
  by (simp_all add: file_vfs_def small_vfs_def small_blocks)

theorem read_after_write_witness:
  "\<exists>t u. vfs_write file_vfs 0x2000 0x9001 1 2 = Some (1, t) \<and> vfs_read t 0x2000 0xA000 1 2 = Some (1, u) \<and>
     chunk (bytes u) 0xA000 1 = [1] \<and> file_holds u 0x2000 [0, 1, 1]"
proof -
  have r: "region 0x3000 3 \<inter> region 0x8000 2 = {}" "region 0x3000 3 \<inter> region 0x9001 1 = {}" "region 0xA000 1 \<inter> region 0x3000 3 = {}"
    by (simp_all add: small_blocks)
  then have "write_ok file_vfs 0x2000 [0, 1] 0x9001 1 2"
    by (simp add: write_ok_def file_vfs_holds file_vfs_simps numeral_2_eq_2 [symmetric])
  then show ?thesis
    using read_after_write [OF file_vfs_holds(1), of "0x9001" 1 2 "0xA000"] r
    by (simp add: splice_def file_vfs_simps numeral_3_eq_3 [symmetric])
qed

end
