(* ===== verification/Vfs_Locks.thy ===== *)
theory Vfs_Locks
  imports Vfs
begin

text \<open>
  Permissions, and the locks of the vnodes: the operations of the virtual file system
  (\<open>kernel/src/dev/vfs.c\<close>) as a step relation, and that no sequence of them leaves a lock behind.
\<close>

section \<open>Permissions\<close>

text \<open>
  The mode has three groups of three bits, for the owner, the group and the others, each with a bit
  to read, to write and to execute. A caller may act if one of the groups that apply has the bit.
\<close>

definition action_bit :: "u64 \<Rightarrow> nat" where
  "action_bit action = (if action = 1 then 2 else if action = 2 then 1 else 0)"

definition mode_allows :: "vnode \<Rightarrow> u64 \<Rightarrow> u64 \<Rightarrow> u64 \<Rightarrow> bool" where
  "mode_allows v uid gid action \<longleftrightarrow> action \<le> 2 \<and>
     (\<exists>c \<in> (if ucast (v_uid v) = uid then {2} else {}) \<union> (if ucast (v_gid v) = gid then {1} else {}) \<union> {0}.
        bit (v_mode v) (3 * c + action_bit action))"

lemma mode_bits:
  "v AND VNODE_MODE_RUSR \<noteq> 0 \<longleftrightarrow> bit v 8" "v AND VNODE_MODE_WUSR \<noteq> 0 \<longleftrightarrow> bit v 7" "v AND VNODE_MODE_XUSR \<noteq> 0 \<longleftrightarrow> bit v 6"
  "v AND VNODE_MODE_RGRP \<noteq> 0 \<longleftrightarrow> bit v 5" "v AND VNODE_MODE_WGRP \<noteq> 0 \<longleftrightarrow> bit v 4" "v AND VNODE_MODE_XGRP \<noteq> 0 \<longleftrightarrow> bit v 3"
  "v AND VNODE_MODE_ROTH \<noteq> 0 \<longleftrightarrow> bit v 2" "v AND VNODE_MODE_WOTH \<noteq> 0 \<longleftrightarrow> bit v 1" "v AND VNODE_MODE_XOTH \<noteq> 0 \<longleftrightarrow> bit v 0"
  using and_exp_eq_0_iff_not_bit [of v 8] and_exp_eq_0_iff_not_bit [of v 7] and_exp_eq_0_iff_not_bit [of v 6]
    and_exp_eq_0_iff_not_bit [of v 5] and_exp_eq_0_iff_not_bit [of v 4] and_exp_eq_0_iff_not_bit [of v 3]
    and_exp_eq_0_iff_not_bit [of v 2] and_exp_eq_0_iff_not_bit [of v 1] and_exp_eq_0_iff_not_bit [of v 0]
  by (simp_all add: mode_defs)

lemma action_cases:
  fixes action :: u64
  shows "action \<le> 2 \<longleftrightarrow> action = 0 \<or> action = 1 \<or> action = 2"
  by (auto simp: word_le_nat_alt word_unat_eq_iff)

text \<open>
  C31: \<open>vfs_am_i_allowed\<close> decides the reading of the mode bits above, for every action, and never
  allows an unknown action or an access to a missing vnode.
\<close>

theorem vfs_am_i_allowed_correct:
  "vfs_am_i_allowed s p uid gid action =
     (if p = NULL then Some False
      else case vnodes s p of None \<Rightarrow> None | Some v \<Rightarrow> Some (mode_allows v uid gid action))"
proof (cases "vnodes s p")
  case (Some v)
  then show ?thesis
    by (auto simp: vfs_am_i_allowed_def mode_allows_def mode_bits action_cases action_bit_def Let_def)
qed (simp add: vfs_am_i_allowed_def)


section \<open>Locks\<close>

definition locked :: "vfs \<Rightarrow> u64 set" where
  "locked s = {p. \<exists>v. vnodes s p = Some v \<and> v_locked v}"

text \<open>One call of the interface that returns.\<close>

inductive vfs_step :: "vfs \<Rightarrow> vfs \<Rightarrow> bool" where
  read: "vfs_read s p buf n off = Some (r, t) \<Longrightarrow> vfs_step s t"
| "write": "vfs_write s p buf n off = Some (r, t) \<Longrightarrow> vfs_step s t"
| chown: "vfs_chown s p uid = Some (r, t) \<Longrightarrow> vfs_step s t"
| chmod: "vfs_chmod s p mode = Some (r, t) \<Longrightarrow> vfs_step s t"
| create: "vfs_create_vnode s p name type = Some (r, t) \<Longrightarrow> vfs_step s t"
| delete: "vfs_delete_node s p = Some t \<Longrightarrow> vfs_step s t"
| mount: "vfs_mount s path kind = Some (m, t) \<Longrightarrow> vfs_step s t"
| umount: "vfs_umount s m = Some t \<Longrightarrow> vfs_step s t"
| add_dev: "devfs_add_dev s name rd wr = Some (r, t) \<Longrightarrow> vfs_step s t"

lemma locked_put [simp]:
  "locked (s\<lparr>vnodes := (vnodes s)(p \<mapsto> v)\<rparr>) = (if v_locked v then insert p (locked s) else locked s - {p})"
  by (auto simp: locked_def split: if_splits)

lemma locked_fields [simp]:
  "locked (s\<lparr>answers := a\<rparr>) = locked s" "locked (s\<lparr>rdatas := rd\<rparr>) = locked s" "locked (s\<lparr>bytes := b\<rparr>) = locked s"
  "locked (s\<lparr>mounts := m\<rparr>) = locked s" "locked (s\<lparr>devs := d\<rparr>) = locked s"
  by (simp_all add: locked_def)

lemma locked_keep:
  "vnodes s p = Some v \<Longrightarrow> v_locked w = v_locked v \<Longrightarrow> (if v_locked w then insert p (locked s) else locked s - {p}) = locked s"
  by (auto simp: locked_def)

lemma locked_acquire: "spinlock_acquire p s = Some t \<Longrightarrow> p \<notin> locked s \<and> locked t = insert p (locked s)"
  by (auto simp: spinlock_acquire_def bind_eq_Some_conv split: if_splits) (simp add: locked_def)

lemma locked_release: "spinlock_release p s = Some t \<Longrightarrow> locked t = locked s - {p}"
  by (auto simp: spinlock_release_def vnode_upd_def bind_eq_Some_conv)

lemma locked_upd:
  assumes "vnode_upd p f s = Some t" and "\<And>v. v_locked (f v) = v_locked v"
  shows "locked t = locked s"
proof -
  from assms(1) obtain v where "vnodes s p = Some v" "t = s\<lparr>vnodes := (vnodes s)(p \<mapsto> f v)\<rparr>"
    by (auto simp: vnode_upd_def bind_eq_Some_conv)
  then show ?thesis using locked_keep [of s p v "f v"] assms(2) by simp
qed

lemma locked_kmalloc: "locked (snd (vfs_kmalloc s)) = locked s" "vnodes (snd (vfs_kmalloc s)) = vnodes s"
  by (simp_all add: vfs_kmalloc_def split: list.splits)

lemma locked_mount_upd: "mount_upd p f s = Some t \<Longrightarrow> locked t = locked s"
  by (auto simp: mount_upd_def bind_eq_Some_conv)

lemma locked_same_vnodes: "vnodes t = vnodes s \<Longrightarrow> locked t = locked s"
  by (simp add: locked_def)

lemma ramfs_read_vnodes:
  assumes "ramfs_read s p buf n off = Some (r, t)"
  shows "vnodes t = vnodes s"
proof (cases "p = NULL")
  case True
  with assms show ?thesis by (simp add: ramfs_read_def)
next
  case p: False
  with assms obtain v where v: "vnodes s p = Some v"
    by (auto simp: ramfs_read_def bind_eq_Some_conv)
  show ?thesis
  proof (cases "v_type v \<noteq> VNODE_FILE \<or> v_data v = NULL")
    case True
    with assms p v show ?thesis by (auto simp: ramfs_read_def split: if_splits)
  next
    case ok: False
    with assms p v obtain d where d: "rdatas s (v_data v) = Some d"
      by (auto simp: ramfs_read_def bind_eq_Some_conv)
    define k where "k = (if n > r_size d - off then r_size d - off else n)"
    have "ramfs_read s p buf n off = (if off \<ge> r_size d then Some (0, s) else if buf = NULL then Some (-1, s)
        else Some (ucast k, s\<lparr>bytes := memcpy (bytes s) buf (r_data d + off) k\<rparr>))"
      using p v ok d by (simp add: ramfs_read_def k_def Let_def)
    with assms show ?thesis by (auto split: if_splits)
  qed
qed

lemma devfs_vnodes:
  "devfs_read s p buf n off = Some (r, t) \<Longrightarrow> vnodes t = vnodes s"
  "devfs_write s p buf n off = Some (r, t) \<Longrightarrow> vnodes t = vnodes s"
  by (auto simp: devfs_read_def devfs_write_def bind_eq_Some_conv split: prod.splits)

lemma ramfs_write_vnodes:
  assumes "ramfs_write s p buf n off = Some (r, t)"
  shows "vnodes t = vnodes s \<or> (\<exists>v k. vnodes s p = Some v \<and> vnodes t = (vnodes s)(p \<mapsto> v\<lparr>v_size := k\<rparr>))"
proof (cases "p = NULL")
  case True
  with assms show ?thesis by (simp add: ramfs_write_def)
next
  case p: False
  with assms obtain v where v: "vnodes s p = Some v"
    by (auto simp: ramfs_write_def bind_eq_Some_conv)
  show ?thesis
  proof (cases "v_type v \<noteq> VNODE_FILE \<or> v_data v = NULL")
    case True
    with assms p v show ?thesis by (auto simp: ramfs_write_def split: if_splits)
  next
    case ok: False
    with assms p v obtain d where d: "rdatas s (v_data v) = Some d"
      by (auto simp: ramfs_write_def bind_eq_Some_conv)
    obtain a s1 where k: "vfs_kmalloc s = (a, s1)" by fastforce
    then have k1: "vnodes s1 = vnodes s"
      using locked_kmalloc(2) [of s] by simp
    show ?thesis
    proof (cases "off \<ge> r_size d \<and> off + n > r_size d")
      case True
      with assms p v ok d k k1 show ?thesis
        by (auto simp: ramfs_write_def Let_def split: if_splits)
    next
      case False
      with assms p v ok d show ?thesis
        by (simp add: ramfs_write_def Let_def split: if_splits) auto
    qed
  qed
qed

lemma locked_ramfs_write: "ramfs_write s p buf n off = Some (r, t) \<Longrightarrow> locked t = locked s"
  by (drule ramfs_write_vnodes) (auto simp: locked_def split: if_splits)


lemma locked_bracket:
  "spinlock_acquire p s = Some s1 \<Longrightarrow> locked s2 \<subseteq> locked s1 \<Longrightarrow> spinlock_release p s2 = Some t \<Longrightarrow> locked t \<subseteq> locked s"
  using locked_acquire [of p s s1] locked_release [of p s2 t] by auto

lemma locked_vfs_read:
  assumes "vfs_read s p buf n off = Some (r, t)"
  shows "locked t \<subseteq> locked s"
proof -
  from assms obtain s1 v where s1: "spinlock_acquire p s = Some s1" "vnodes s1 p = Some v"
    by (auto simp: vfs_read_def bind_eq_Some_conv)
  show ?thesis
  proof (cases "v_type v = VNODE_DIR \<or> v_ops v = None")
    case True
    with assms s1 have "spinlock_release p s1 = Some t"
      by (auto simp: vfs_read_def bind_eq_Some_conv split: if_splits)
    with s1(1) show ?thesis by (auto dest: locked_bracket)
  next
    case False
    then obtain ops where ops: "v_ops v = Some ops" by auto
    with False assms s1 obtain s2 where s2: "spinlock_release p s2 = Some t"
      "(case ops of ramfs_ops \<Rightarrow> ramfs_read s1 p buf n off | devfs_ops \<Rightarrow> devfs_read s1 p buf n off) = Some (r, s2)"
      by (auto simp: vfs_read_def bind_eq_Some_conv)
    then have "vnodes s2 = vnodes s1"
      by (cases ops) (auto dest: ramfs_read_vnodes devfs_vnodes)
    with s1(1) s2(1) show ?thesis by (auto dest: locked_bracket locked_same_vnodes)
  qed
qed

lemma locked_vfs_write:
  assumes "vfs_write s p buf n off = Some (r, t)"
  shows "locked t \<subseteq> locked s"
proof -
  from assms obtain s1 v where s1: "spinlock_acquire p s = Some s1" "vnodes s1 p = Some v"
    by (auto simp: vfs_write_def bind_eq_Some_conv)
  show ?thesis
  proof (cases "v_type v = VNODE_DIR \<or> v_ops v = None")
    case True
    with assms s1 have "spinlock_release p s1 = Some t"
      by (auto simp: vfs_write_def bind_eq_Some_conv split: if_splits)
    with s1(1) show ?thesis by (auto dest: locked_bracket)
  next
    case False
    then obtain ops where ops: "v_ops v = Some ops" by auto
    with False assms s1 obtain s2 s3 where s2: "spinlock_release p s2 = Some s3"
      "(case ops of ramfs_ops \<Rightarrow> ramfs_write s1 p buf n off | devfs_ops \<Rightarrow> devfs_write s1 p buf n off) = Some (r, s2)"
      "vnode_upd p (v_mtime_update (\<lambda>_. now s3)) s3 = Some t"
      by (auto simp: vfs_write_def bind_eq_Some_conv)
    then have "locked s2 = locked s1"
      by (cases ops) (auto dest: locked_ramfs_write devfs_vnodes(2) [THEN locked_same_vnodes])
    moreover have "locked t = locked s3"
      by (rule locked_upd [OF s2(3)]) simp
    ultimately show ?thesis
      using locked_bracket [OF s1(1) _ s2(1)] by simp
  qed
qed

lemma locked_update:
  assumes "do { s1 \<leftarrow> spinlock_acquire p s; s2 \<leftarrow> vnode_upd p f s1; s3 \<leftarrow> spinlock_release p s2; Some (r, s3) } = Some (r', t)"
    and "\<And>v. v_locked (f v) = v_locked v"
  shows "locked t \<subseteq> locked s"
proof -
  from assms(1) obtain s1 s2 where "spinlock_acquire p s = Some s1" "vnode_upd p f s1 = Some s2" "spinlock_release p s2 = Some t"
    by (auto simp: bind_eq_Some_conv)
  then show ?thesis
    using locked_upd [of p f s1 s2] assms(2) by (auto dest: locked_bracket)
qed

lemma locked_vfs_chown: "vfs_chown s p uid = Some (r, t) \<Longrightarrow> locked t \<subseteq> locked s"
  unfolding vfs_chown_def by (erule locked_update) simp

lemma locked_vfs_chmod: "vfs_chmod s p mode = Some (r, t) \<Longrightarrow> locked t \<subseteq> locked s"
  unfolding vfs_chmod_def by (erule locked_update) simp


lemma locked_field_upd:
  "vnode_upd p (v_child_update g) s = Some t \<Longrightarrow> locked t = locked s"
  "vnode_upd p (v_next_update g) s = Some t \<Longrightarrow> locked t = locked s"
  "vnode_upd p (v_ops_update h) s = Some t \<Longrightarrow> locked t = locked s"
  "vnode_upd p (v_data_update g) s = Some t \<Longrightarrow> locked t = locked s"
  by (erule locked_upd, simp)+

lemma locked_link_child: "link_child d new s = Some t \<Longrightarrow> locked t = locked s"
  by (auto simp: link_child_def bind_eq_Some_conv split: if_splits dest: locked_field_upd)

lemma locked_ramfs_create:
  assumes "ramfs_create s d name type = Some (r, t)"
  shows "locked t \<subseteq> insert d (locked s)"
proof (cases name)
  case None
  with assms show ?thesis by (auto simp: ramfs_create_def bind_eq_Some_conv dest: locked_release)
next
  case name: (Some n)
  with assms obtain s1 found where s1: "spinlock_release d s = Some s1" "vfs_lookup s1 d n = Some found"
    by (auto simp: ramfs_create_def bind_eq_Some_conv)
  show ?thesis
  proof (cases "found = NULL")
    case False
    with assms s1 name show ?thesis by (auto simp: ramfs_create_def bind_eq_Some_conv dest: locked_release)
  next
    case True
    with assms s1 name obtain s2 where s2: "spinlock_acquire d s1 = Some s2"
      by (auto simp: ramfs_create_def bind_eq_Some_conv)
    have l2: "locked s2 = insert d (locked s)"
      using locked_release [OF s1(1)] locked_acquire [OF s2] by auto
    obtain new s3 where s3: "vfs_kmalloc s2 = (new, s3)" "locked s3 = locked s2"
      using locked_kmalloc(1) [of s2] by (metis prod.collapse)
    obtain nm s4 where s4: "dup_name s3 n = (nm, s4)" "locked s4 = locked s3"
      using locked_kmalloc(1) [of s3] by (auto simp: dup_name_def case_prod_beta Let_def)
    obtain data s5 where s5: "vfs_kmalloc s4 = (data, s5)" "locked s5 = locked s4"
      using locked_kmalloc(1) [of s4] by (metis prod.collapse)
    show ?thesis
    proof (cases "new = NULL"; cases "data = NULL")
      assume "new = NULL"
      with assms s1 name \<open>found = NULL\<close> s2 s3 l2 show ?thesis
        by (auto simp: ramfs_create_def)
      with assms s1 name \<open>found = NULL\<close> s2 s3 l2 show ?thesis
        by (auto simp: ramfs_create_def)
    next
      assume "new \<noteq> NULL" "data = NULL"
      with assms s1 name \<open>found = NULL\<close> s2 s3 s4 s5 l2 show ?thesis
        by (auto simp: ramfs_create_def bind_eq_Some_conv)
    next
      assume "new \<noteq> NULL" "data \<noteq> NULL"
      with assms s1 name \<open>found = NULL\<close> s2 s3 s4 s5 obtain v s6 where "link_child d new s6 = Some t" "\<not> v_locked v"
        "s6 = s5\<lparr>rdatas := (rdatas s5)(data \<mapsto> \<lparr>r_data = 0, r_size = 0\<rparr>), vnodes := (vnodes s5)(new \<mapsto> v)\<rparr>"
        by (auto simp: ramfs_create_def bind_eq_Some_conv zero_vnode_def)
      then have "locked t \<subseteq> locked s5"
        using locked_link_child [of d new s6 t] by (auto simp: locked_def split: if_splits)
      with s3 s4 s5 l2 show ?thesis by simp
    qed
  qed
qed

lemma locked_devfs_create:
  assumes "devfs_create s d name type = Some (r, t)"
  shows "locked t \<subseteq> insert d (locked s)"
proof -
  from assms obtain s1 found where s1: "spinlock_release d s = Some s1" "vfs_lookup s1 d name = Some found"
    by (auto simp: devfs_create_def bind_eq_Some_conv)
  note l = locked_release [OF s1(1)]
  show ?thesis
  proof (cases "found = NULL")
    case True
    with assms s1 obtain s2 where s2: "spinlock_acquire d s1 = Some s2"
      by (auto simp: devfs_create_def bind_eq_Some_conv)
    obtain new s3 where s3: "vfs_kmalloc s2 = (new, s3)" "locked s3 = locked s2"
      using locked_kmalloc(1) [of s2] by (metis prod.collapse)
    with assms s1 s2 True have "t = s3"
      by (auto simp: devfs_create_def split: if_splits)
    with l s3 show ?thesis
      using locked_acquire [OF s2] by auto
  next
    case False
    with assms s1 l show ?thesis by (auto simp: devfs_create_def)
  qed
qed

lemma locked_vfs_create:
  assumes "vfs_create_vnode s p name type = Some (r, t)"
  shows "locked t \<subseteq> locked s"
proof -
  from assms obtain s1 v where s1: "spinlock_acquire p s = Some s1" "vnodes s1 p = Some v"
    by (auto simp: vfs_create_vnode_def bind_eq_Some_conv)
  note l1 = locked_acquire [OF s1(1)]
  show ?thesis
  proof (cases "v_type v \<noteq> VNODE_DIR \<or> v_ops v = None")
    case True
    with assms s1 have "spinlock_release p s1 = Some t"
      by (auto simp: vfs_create_vnode_def bind_eq_Some_conv split: if_splits)
    with s1(1) show ?thesis by (auto dest: locked_bracket)
  next
    case False
    then obtain ops where ops: "v_ops v = Some ops" by auto
    with False assms s1 obtain s2 s3 where s2: "spinlock_release p s2 = Some s3"
      "(case ops of ramfs_ops \<Rightarrow> ramfs_create s1 p name type | devfs_ops \<Rightarrow> do { n \<leftarrow> name; devfs_create s1 p n type }) = Some (r, s2)"
      "t = s3 \<or> vnode_upd r (\<lambda>v. v\<lparr>v_ctime := now s3, v_mtime := now s3, v_atime := now s3\<rparr>) s3 = Some t"
      by (auto simp: vfs_create_vnode_def bind_eq_Some_conv split: if_splits)
    have "locked s2 \<subseteq> insert p (locked s1)"
      using s2(2) by (cases ops) (auto simp: bind_eq_Some_conv dest!: locked_ramfs_create locked_devfs_create)
    moreover have "locked t = locked s3"
      using s2(3) by (auto dest: locked_upd)
    ultimately show ?thesis
      using locked_release [OF s2(1)] l1 by auto
  qed
qed


lemma locked_vfs_delete: "vfs_delete w s = Some t \<Longrightarrow> locked t \<subseteq> locked s"
proof (induction rule: vfs_delete.raw_induct [rotated, consumes 1])
  case (1 f w s t)
  show ?case
  proof (cases w)
    case (Inr c)
    show ?thesis
    proof (cases "c = NULL")
      case True
      with 1(2) Inr show ?thesis by simp
    next
      case False
      with 1(2) Inr obtain v s1 where "vnodes s c = Some v" "f (Inl c) s = Some s1" "f (Inr (v_next v)) s1 = Some t"
        by (auto simp: bind_eq_Some_conv)
      then show ?thesis using 1(1) [of "Inl c" s s1] 1(1) [of "Inr (v_next v)" s1 t] by blast
    qed
  next
    case (Inl p)
    show ?thesis
    proof (cases "p = NULL")
      case True
      with 1(2) Inl show ?thesis by simp
    next
      case False
      with 1(2) Inl obtain s1 v s2 v2 s3 where s: "spinlock_acquire p s = Some s1"
        "vnodes s1 p = Some v" "(if v_type v = VNODE_DIR then f (Inr (v_child v)) s1 else Some s1) = Some s2"
        "vnodes s2 p = Some v2" "(if v_parent v2 = NULL then Some s2
          else do { pv \<leftarrow> vnodes s2 (v_parent v2);
                    if v_child pv = p then vnode_upd (v_parent v2) (v_child_update (\<lambda>_. NULL)) s2 else Some s2 }) = Some s3"
        "t = s3\<lparr>rdatas := (rdatas s3)(v_data v2 := None), devs := (devs s3)(v_data v2 := None), vnodes := (vnodes s3)(p := None)\<rparr>"
        by (auto simp: bind_eq_Some_conv)
      have "locked s2 \<subseteq> locked s1"
        using s(3) 1(1) by (auto split: if_splits)
      moreover have "locked s3 = locked s2"
        using s(5) by (auto simp: bind_eq_Some_conv split: if_splits dest: locked_field_upd)
      moreover have "locked t = locked s3 - {p}"
        using s(6) by (auto simp: locked_def)
      ultimately show ?thesis
        using locked_acquire [OF s(1)] by auto
    qed
  qed
qed

lemma locked_vfs_umount:
  assumes "vfs_umount s m = Some t"
  shows "locked t \<subseteq> locked s"
proof (cases "m = NULL")
  case True
  with assms show ?thesis by (simp add: vfs_umount_def)
next
  case False
  obtain a s1 where k: "vfs_kmalloc s = (a, s1)" "locked s1 = locked s"
    using locked_kmalloc(1) [of s] by (metis prod.collapse)
  from assms False k obtain mo s2 s3 where m: "mounts s m = Some mo"
    "(if m_prev mo \<noteq> NULL then mount_upd (m_prev mo) (m_next_update (\<lambda>_. m_next mo)) s1 else Some s1) = Some s2"
    "(if m_next mo \<noteq> NULL then mount_upd (m_next mo) (m_prev_update (\<lambda>_. m_prev mo)) s2 else Some s2) = Some s3"
    "t = s3\<lparr>mounts := (mounts s3)(m := None)\<rparr>"
    by (auto simp: vfs_umount_def bind_eq_Some_conv)
  then have "locked s2 = locked s1" "locked s3 = locked s2"
    by (auto split: if_splits dest!: locked_mount_upd)
  with k m(4) show ?thesis by simp
qed

lemma locked_vfs_mount:
  assumes "vfs_mount s path kind = Some (m, t)"
  shows "locked t = locked s"
proof -
  obtain a1 s1 where k1: "vfs_kmalloc s = (a1, s1)" "locked s1 = locked s"
    using locked_kmalloc(1) [of s] by (metis prod.collapse)
  obtain a2 s2 where k2: "vfs_kmalloc s1 = (a2, s2)" "locked s2 = locked s"
    using locked_kmalloc(1) [of s1] k1 by (metis prod.collapse)
  obtain a3 s3 where k3: "vfs_kmalloc s2 = (a3, s3)" "locked s3 = locked s"
    using locked_kmalloc(1) [of s2] k2 by (metis prod.collapse)
  from assms obtain used p where u: "mountpoint_used s (root_mount s) path = Some used"
    by (auto simp: vfs_mount_def bind_eq_Some_conv)
  show ?thesis
  proof (cases used)
    case True
    with assms u show ?thesis by (simp add: vfs_mount_def)
  next
    case False
    with assms u obtain p ok where p: "vfs_lazy_lookup s (root_mount s) (Some path) = Some p"
      "(if p = NULL then Some False else do { v \<leftarrow> vnodes s p; Some (v_type v = VNODE_DIR) }) = Some ok"
      by (auto simp: vfs_mount_def bind_eq_Some_conv split: if_splits)
    show ?thesis
    proof (cases "ok \<and> a1 \<noteq> NULL \<and> a2 \<noteq> NULL \<and> a3 \<noteq> NULL")
      case True
      with assms u False p k1 k2 k3 obtain l s4 where "mount_upd l (m_next_update (\<lambda>_. a1)) s3 = Some s4" "vnodes t = vnodes s4"
        by (auto simp: vfs_mount_def bind_eq_Some_conv)
      with k3 show ?thesis by (auto dest!: locked_mount_upd locked_same_vnodes)
    next
      case no: False
      with assms u False p k1 k2 k3 have "t = s \<or> t = s1 \<or> t = s2 \<or> t = s3"
        by (auto simp: vfs_mount_def split: if_splits)
      with k1 k2 k3 show ?thesis by auto
    qed
  qed
qed


lemma locked_devfs_add_dev:
  assumes "devfs_add_dev s name rd wr = Some (r, t)"
  shows "locked t \<subseteq> locked s"
proof (cases "name = None \<or> rd = None \<or> wr = None")
  case True
  with assms show ?thesis by (auto simp: devfs_add_dev_def split: option.splits)
next
  case False
  then obtain n f g where n: "name = Some n" "rd = Some f" "wr = Some g" by auto
  with assms obtain m dev s1 where m: "mounts s (devfs_root s) = Some m" "vfs_create_vnode s (m_root m) (Some n) VNODE_DEV = Some (dev, s1)"
    by (auto simp: devfs_add_dev_def bind_eq_Some_conv)
  note l1 = locked_vfs_create [OF m(2)]
  show ?thesis
  proof (cases "dev = NULL")
    case True
    with assms n m l1 show ?thesis by (simp add: devfs_add_dev_def)
  next
    case dev: False
    with assms n m obtain s2 where s2: "vnode_upd dev (v_ops_update (\<lambda>_. Some devfs_ops)) s1 = Some s2"
      by (auto simp: devfs_add_dev_def bind_eq_Some_conv)
    obtain a s3 where k: "vfs_kmalloc s2 = (a, s3)" "locked s3 = locked s2"
      using locked_kmalloc(1) [of s2] by (metis prod.collapse)
    show ?thesis
    proof (cases "a = NULL")
      case True
      with assms n m dev s2 k have "vfs_delete_node s3 dev = Some t"
        by (auto simp: devfs_add_dev_def bind_eq_Some_conv)
      then have "locked t \<subseteq> locked s3"
        unfolding vfs_delete_node_def by (rule locked_vfs_delete)
      with k l1 locked_field_upd(3) [OF s2] show ?thesis by auto
    next
      case False
      with assms n m dev s2 k obtain s4 where s4: "vnode_upd dev (v_data_update (\<lambda>_. a)) s3 = Some s4" "vnodes t = vnodes s4"
        by (auto simp: devfs_add_dev_def bind_eq_Some_conv)
      with k l1 locked_field_upd(3) [OF s2] locked_field_upd(4) [OF s4(1)] locked_same_vnodes [OF s4(2)] show ?thesis by auto
    qed
  qed
qed

lemma locked_vfs_step: "vfs_step s t \<Longrightarrow> locked t \<subseteq> locked s"
proof (induction rule: vfs_step.induct)
  case (delete s p t)
  then show ?case unfolding vfs_delete_node_def by (rule locked_vfs_delete)
next
  case (mount s path kind m t)
  then show ?case using locked_vfs_mount by blast
qed (blast dest: locked_vfs_read locked_vfs_write locked_vfs_chown locked_vfs_chmod locked_vfs_create
    locked_vfs_umount locked_devfs_add_dev)+

text \<open>
  C23: No sequence of calls of the virtual file system leaves a lock behind, whatever the calls return
  and whatever the registered device functions do: a vnode that is locked after the calls was locked
  before them. In particular, from a state without locks every vnode that exists can be locked again,
  so no call spins.
\<close>

theorem vfs_locks_released:
  assumes "vfs_step\<^sup>*\<^sup>* s t" and "locked s = {}" and "p \<in> dom (vnodes t)"
  shows "locked t = {} \<and> spinlock_acquire p t \<noteq> None"
proof -
  from assms(1) have "locked t \<subseteq> locked s"
    by (induction rule: rtranclp_induct) (use locked_vfs_step in blast)+
  with assms(2) have "locked t = {}" by simp
  with assms(3) show ?thesis
    by (auto simp: spinlock_acquire_def locked_def)
qed

theorem vfs_locks_released_witness:
  "\<exists>t. vfs_step\<^sup>*\<^sup>* \<lparr>vnodes = [0x1000 \<mapsto> zero_vnode], mounts = Map.empty, rdatas = Map.empty, devs = Map.empty,
      bytes = (\<lambda>_. 0), answers = [], now = 0, root_mount = 0, devfs_root = 0\<rparr> t \<and> locked t = {} \<and>
    vnodes t 0x1000 = Some (zero_vnode\<lparr>v_uid := 5\<rparr>)"
proof -
  let ?s = "\<lparr>vnodes = [0x1000 \<mapsto> zero_vnode], mounts = Map.empty, rdatas = Map.empty, devs = Map.empty,
      bytes = (\<lambda>_. 0), answers = [], now = 0, root_mount = 0, devfs_root = 0\<rparr>"
  let ?t = "?s\<lparr>vnodes := [0x1000 \<mapsto> zero_vnode\<lparr>v_uid := 5\<rparr>]\<rparr>"
  have "vfs_chown ?s 0x1000 5 = Some (0, ?t)"
    by (simp add: vfs_chown_def spinlock_acquire_def spinlock_release_def vnode_upd_def zero_vnode_def)
  then have "vfs_step ?s ?t" by (rule vfs_step.chown)
  then have r: "vfs_step\<^sup>*\<^sup>* ?s ?t" by blast
  moreover have "locked ?s = {}"
    by (simp add: locked_def zero_vnode_def)
  ultimately have "locked ?t = {}"
    using vfs_locks_released [of ?s ?t "0x1000"] by simp
  with r show ?thesis by (intro exI [of _ ?t]) simp
qed

end
