(* ===== verification/Scheduler.thy ===== *)
theory Scheduler
  imports Vma
begin

text \<open>
  The process scheduler, \<open>kernel/src/proc/scheduler.c\<close> and \<open>scheduler.h\<close>, with the register
  frame of \<open>kernel/src/sys/intr.h\<close>. The array \<open>procs\<close> maps process numbers to the addresses of
  process control blocks, which \<open>pcbs\<close> holds; an index of 2048 or more is outside the array.

  \<open>heap_answers\<close> are the addresses that the next calls of \<open>kmalloc\<close> and \<open>kcalloc\<close> return (a
  missing one is \<open>NULL\<close>) and \<open>heap_junk\<close> is what a fresh control block holds before it is
  written. \<open>scheduler_exit\<close> reads fields of the control block that it has just freed; the heap does
  not overwrite a freed block, so the model reads them before it drops the block.
\<close>

section \<open>Data\<close>

record register_ctx =
  es :: u64
  ds :: u64
  cr4 :: u64
  reg_cr3 :: u64
  cr2 :: u64
  cr0 :: u64
  r15 :: u64
  r14 :: u64
  r13 :: u64
  r12 :: u64
  r11 :: u64
  r10 :: u64
  r9 :: u64
  r8 :: u64
  rsi :: u64
  rdi :: u64
  rbp :: u64
  rdx :: u64
  rcx :: u64
  rbx :: u64
  rax :: u64
  vector :: u64
  err :: u64
  rip :: u64
  cs :: u64
  rflags :: u64
  rsp :: u64
  ss :: u64

datatype process_state = PROCESS_READY | PROCESS_RUNNING | PROCESS_WAITING | PROCESS_TERMINATED

record user =
  u_uid :: u64
  u_gid :: u64

record pcb =
  ctx :: register_ctx
  pid :: u64
  state :: process_state
  timeslice :: u64
  pagemap :: u64
  fd_table :: "nat \<Rightarrow> u64"
  fd_count :: u64
  errno :: u32
  whoami :: user
  vma_ctx :: u64
  in_syscall :: bool

definition PROC_DEFAULT_TIME :: u64 where "PROC_DEFAULT_TIME = 1"
definition PROC_MAX_PROCS :: u64 where "PROC_MAX_PROCS = 2048"
definition PROC_MAX_FDS :: u64 where "PROC_MAX_FDS = 1024"

record sched =
  vm :: vmm
  procs_ptr :: u64
  procs :: "nat \<Rightarrow> u64"
  pcbs :: "u64 \<rightharpoonup> pcb"
  count :: u64
  current_pid :: u64
  lock_held :: bool
  has_die_func :: bool
  heap_answers :: "u64 list"
  heap_junk :: pcb
  stdout_node :: u64

definition heap_alloc :: "sched \<Rightarrow> u64 \<times> sched" where
  "heap_alloc k = (case heap_answers k of [] \<Rightarrow> (NULL, k) | a # as \<Rightarrow> (a, k\<lparr>heap_answers := as\<rparr>))"

definition proc_at :: "sched \<Rightarrow> u64 \<Rightarrow> u64 option" where
  "proc_at k i = (if procs_ptr k \<noteq> NULL \<and> i < PROC_MAX_PROCS then Some (procs k (unat i)) else None)"

definition proc_set :: "u64 \<Rightarrow> u64 \<Rightarrow> sched \<Rightarrow> sched option" where
  "proc_set i p k =
     (if procs_ptr k \<noteq> NULL \<and> i < PROC_MAX_PROCS then Some (k\<lparr>procs := (procs k)(unat i := p)\<rparr>) else None)"

definition pcb_upd :: "u64 \<Rightarrow> (pcb \<Rightarrow> pcb) \<Rightarrow> sched \<Rightarrow> sched option" where
  "pcb_upd p f k = do { b \<leftarrow> pcbs k p; Some (k\<lparr>pcbs := (pcbs k)(p \<mapsto> f b)\<rparr>) }"


section \<open>File descriptors and identity\<close>

definition scheduler_get_current :: "sched \<Rightarrow> u64 option" where
  "scheduler_get_current k = (if procs_ptr k = NULL then Some NULL else proc_at k (current_pid k))"

text \<open>\<open>proc->fd_table[proc->fd_count++] = node\<close>.\<close>

definition fd_push :: "u64 \<Rightarrow> pcb \<Rightarrow> pcb" where
  "fd_push node b = b\<lparr>fd_table := (fd_table b)(unat (fd_count b) := node), fd_count := fd_count b + 1\<rparr>"

definition scheduler_proc_add_vnode :: "sched \<Rightarrow> u64 \<Rightarrow> u64 \<Rightarrow> (32 word \<times> sched) option" where
  "scheduler_proc_add_vnode k i node =
     (if i \<ge> count k then Some (-1, k)
      else do {
        p \<leftarrow> proc_at k i;
        if p = NULL then Some (-1, k)
        else if node = NULL then None
        else do {
          b \<leftarrow> pcbs k p;
          if fd_count b < PROC_MAX_FDS
          then do {
            k' \<leftarrow> pcb_upd p (fd_push node) k;
            Some (ucast (fd_count b), k') }
          else Some (-1, k) } })"

text \<open>The loop \<open>for (i = fd; i < fd_count - 1; i++) fd_table[i] = fd_table[i + 1]\<close>.\<close>

primrec shift_fds :: "nat \<Rightarrow> nat \<Rightarrow> (nat \<Rightarrow> u64) \<Rightarrow> (nat \<Rightarrow> u64)" where
  "shift_fds 0 i t = t"
| "shift_fds (Suc n) i t = shift_fds n (i + 1) (t(i := t (i + 1)))"

definition fd_drop :: "nat \<Rightarrow> pcb \<Rightarrow> pcb" where
  "fd_drop fd b =
     (let n = unat (fd_count b) - 1; t = shift_fds (n - fd) fd (fd_table b)
      in b\<lparr>fd_table := t(n := NULL), fd_count := fd_count b - 1\<rparr>)"

text \<open>
  \<open>fd\<close> is a signed \<open>int\<close>. A used slot beyond \<open>fd_count\<close> never occurs (the invariant below), and a
  count of 0 would make the loop bound wrap around; the model treats that as a fault.
\<close>

definition scheduler_proc_remove_vnode :: "sched \<Rightarrow> u64 \<Rightarrow> 32 word \<Rightarrow> (32 word \<times> sched) option" where
  "scheduler_proc_remove_vnode k i fd =
     (if i \<ge> count k then Some (-2, k)
      else do {
        p \<leftarrow> proc_at k i;
        if p = NULL then Some (-2, k)
        else do {
          b \<leftarrow> pcbs k p;
          if sint fd < 0 \<or> sint fd \<ge> 1024 \<or> fd_table b (unat fd) = NULL then Some (-1, k)
          else if fd_count b = 0 then None
          else do { k' \<leftarrow> pcb_upd p (fd_drop (unat fd)) k; Some (0, k') } } })"

definition scheduler_proc_change_whoami :: "sched \<Rightarrow> u64 \<Rightarrow> user \<Rightarrow> (32 word \<times> sched) option" where
  "scheduler_proc_change_whoami k i info =
     (if i \<ge> count k then Some (-2, k)
      else do {
        p \<leftarrow> proc_at k i;
        if p = NULL then Some (-2, k)
        else do { k' \<leftarrow> pcb_upd p (\<lambda>b. b\<lparr>whoami := info\<rparr>) k; Some (0, k') } })"

definition scheduler_set_final :: "bool \<Rightarrow> sched \<Rightarrow> sched" where
  "scheduler_set_final nonnull k = k\<lparr>has_die_func := nonnull\<rparr>"


section \<open>Spawning\<close>

definition scheduler_init :: "sched \<Rightarrow> sched" where
  "scheduler_init k =
     (let (a, k1) = heap_alloc k in
      if a = NULL then k1\<lparr>procs_ptr := NULL\<rparr> else k1\<lparr>procs_ptr := a, procs := \<lambda>_. NULL\<rparr>)"

partial_function (option) map_range_to_pagemap ::
    "u64 \<Rightarrow> u64 \<Rightarrow> u64 \<Rightarrow> u64 \<Rightarrow> u64 \<Rightarrow> u64 \<Rightarrow> pmm \<Rightarrow> pmm option" where
  "map_range_to_pagemap dest src start len flags offset s =
     (if offset < len
      then
        let phys = virt_to_phys s src (start + offset);
            s' = (if phys \<noteq> 0 then vmm_map s dest (start + offset) phys flags else s)
        in map_range_to_pagemap dest src start len flags (offset + PAGE_SIZE) s'
      else Some s)"

definition scheduler_spawn :: "sched \<Rightarrow> bool \<Rightarrow> u64 \<Rightarrow> u64 \<Rightarrow> (u64 \<times> sched) option" where
  "scheduler_spawn k user entry pm =
     (let (proc, k1) = heap_alloc k in
      if proc = NULL then Some (-1, k1)
      else
        let i = count k1;
            map_flags = (if user then VMM_PRESENT OR VMM_WRITE OR VMM_USER else VMM_PRESENT OR VMM_WRITE);
            (vctx, s1) = vma_create_context (frames (vm k1)) pm
        in do {
          (base, s2) \<leftarrow> vma_alloc s1 vctx 4 map_flags;
          let s3 = vmm_map s2 pm proc proc map_flags;
          s4 \<leftarrow> map_range_to_pagemap pm (kernel_pagemap (vm k1)) (procs_ptr k1) (8 * PROC_MAX_PROCS) map_flags 0 s3;
          s5 \<leftarrow> map_range_to_pagemap pm (kernel_pagemap (vm k1)) 0x1000 0x10000 map_flags 0 s4;
          let b = (heap_junk k1)\<lparr>pid := i, state := PROCESS_READY,
                ctx := (ctx (heap_junk k1))\<lparr>rip := entry, cs := (if user then 0x1B else 0x08),
                         ss := (if user then 0x23 else 0x10), rsp := base + (PAGE_SIZE * 4 - 1),
                         rflags := 0x202\<rparr>,
                pagemap := pm, vma_ctx := vctx, timeslice := PROC_DEFAULT_TIME, errno := 0,
                whoami := \<lparr>u_uid = 0, u_gid = 0\<rparr>, in_syscall := False, fd_count := 0,
                fd_table := (\<lambda>j. if j < 1024 then NULL else fd_table (heap_junk k1) j)\<rparr>;
          k2 \<leftarrow> proc_set i proc (k1\<lparr>count := count k1 + 1, vm := (vm k1)\<lparr>frames := s5\<rparr>,
                                     pcbs := (pcbs k1)(proc \<mapsto> b)\<rparr>);
          (_, k3) \<leftarrow> scheduler_proc_add_vnode k2 i (stdout_node k2);
          Some (i, k3) })"


section \<open>Switching\<close>

definition scheduler_tick :: "sched \<Rightarrow> register_ctx \<Rightarrow> (register_ctx \<times> sched) option" where
  "scheduler_tick k c =
     (if lock_held k then None
      else if count k = 0 then Some (c, k)
      else do {
        let k0 = k\<lparr>lock_held := True\<rparr>;
        p \<leftarrow> proc_at k0 (current_pid k0);
        k1 \<leftarrow> (if p = NULL then Some k0
              else do {
                b \<leftarrow> pcbs k0 p;
                if state b = PROCESS_RUNNING \<and> \<not> in_syscall b
                then
                  let t = timeslice b - 1 in
                  if t = 0
                  then do { k' \<leftarrow> pcb_upd p (\<lambda>b. b\<lparr>ctx := c, state := PROCESS_READY, timeslice := PROC_DEFAULT_TIME\<rparr>) k0;
                            Some (k'\<lparr>current_pid := (current_pid k' + 1) mod count k'\<rparr>) }
                  else pcb_upd p (\<lambda>b. b\<lparr>ctx := c, timeslice := t\<rparr>) k0
                else Some k0 });
        q \<leftarrow> proc_at k1 (current_pid k1);
        if q = NULL then None
        else do {
          b \<leftarrow> pcbs k1 q;
          case state b of
            PROCESS_READY \<Rightarrow>
              if pagemap b = NULL then None
              else do {
                k2 \<leftarrow> pcb_upd q (\<lambda>b. b\<lparr>state := PROCESS_RUNNING\<rparr>) k1;
                Some (ctx b, k2\<lparr>vm := vmm_switch_pagemap (vm k2) (pagemap b), lock_held := False\<rparr>) }
          | PROCESS_TERMINATED \<Rightarrow> do {
              k2 \<leftarrow> proc_set (pid b) NULL k1;
              let k3 = k2\<lparr>count := count k2 - 1\<rparr>;
              Some (c, if count k3 = 0 then k3\<lparr>lock_held := False\<rparr> else k3) }
          | _ \<Rightarrow> Some (c, k1\<lparr>lock_held := False\<rparr>) } })"

definition scheduler_exit :: "sched \<Rightarrow> sched option" where
  "scheduler_exit k =
     do {
       p \<leftarrow> proc_at k (current_pid k);
       if p = NULL then Some k
       else do {
         b \<leftarrow> pcbs k p;
         let k1 = k\<lparr>vm := vmm_destroy_pagemap (vm k) (pagemap b), pcbs := (pcbs k)(p := None)\<rparr>;
         k2 \<leftarrow> proc_set (pid b) NULL k1;
         let n = count k2 - 1;
         let k3 = k2\<lparr>count := n, current_pid := (if n = 0 then 0 else (current_pid k2 + 1) mod n)\<rparr>;
         if n = 0 then None else Some k3 } }"

end
