(* ===== verification/Sched_Props.thy ===== *)
theory Sched_Props
  imports Scheduler
begin

text \<open>
  What the scheduler of \<open>kernel/src/proc/scheduler.c\<close> promises: the descriptor table of a process is
  a list of vnodes, and the timer tick is a round-robin switch that saves and restores contexts.
\<close>

section \<open>The descriptor table\<close>

text \<open>
  The contract of a descriptor table, on an abstraction to a list: opening appends, closing a number
  removes that element and moves the later ones down.
\<close>

locale descriptors =
  fixes inv :: "'t \<Rightarrow> bool" and fds :: "'t \<Rightarrow> 'v list" and push :: "'v \<Rightarrow> 't \<Rightarrow> 't" and drop_fd :: "nat \<Rightarrow> 't \<Rightarrow> 't"
    and limit :: nat and ok :: "'v \<Rightarrow> bool"
  assumes push_inv: "inv t \<Longrightarrow> ok v \<Longrightarrow> length (fds t) < limit \<Longrightarrow> inv (push v t)"
    and push_fds: "inv t \<Longrightarrow> ok v \<Longrightarrow> length (fds t) < limit \<Longrightarrow> fds (push v t) = fds t @ [v]"
    and drop_inv: "inv t \<Longrightarrow> i < length (fds t) \<Longrightarrow> inv (drop_fd i t)"
    and drop_fds: "inv t \<Longrightarrow> i < length (fds t) \<Longrightarrow> fds (drop_fd i t) = take i (fds t) @ drop (Suc i) (fds t)"
begin

text \<open>Closing what has just been opened gives the old table; the number is the old length.\<close>

lemma close_opened:
  assumes "inv t" and "ok v" and "length (fds t) < limit"
  shows "fds (drop_fd (length (fds t)) (push v t)) = fds t"
  using drop_fds [OF push_inv [OF assms], of "length (fds t)"] push_fds [OF assms] by simp

text \<open>Opening several vnodes gives consecutive numbers.\<close>

lemma open_many:
  assumes "inv t" and "\<forall>v\<in>set vs. ok v" and "length (fds t) + length vs \<le> limit"
  shows "inv (fold push vs t) \<and> fds (fold push vs t) = fds t @ vs"
  using assms by (induction vs arbitrary: t) (simp_all add: push_inv push_fds)

end

definition fds :: "pcb \<Rightarrow> u64 list" where
  "fds b = map (fd_table b) [0..<unat (fd_count b)]"

definition fd_inv :: "pcb \<Rightarrow> bool" where
  "fd_inv b \<longleftrightarrow> unat (fd_count b) \<le> 1024 \<and> (\<forall>j<1024. fd_table b j \<noteq> NULL \<longleftrightarrow> j < unat (fd_count b))"

lemma length_fds [simp]: "length (fds b) = unat (fd_count b)"
  by (simp add: fds_def)

lemma shift_fds_apply:
  "shift_fds n i t j = (if i \<le> j \<and> j < i + n then t (Suc j) else t j)"
  by (induction n arbitrary: i t) auto

lemma unat_Suc: "unat x < 2048 \<Longrightarrow> unat (x + 1 :: u64) = Suc (unat x)"
  by (subst unat_plus_no_wrap) simp_all

lemma fd_push_inv:
  assumes "fd_inv b" and "node \<noteq> NULL" and "unat (fd_count b) < 1024"
  shows "fd_inv (fd_push node b)" and "fds (fd_push node b) = fds b @ [node]"
  using assms by (auto simp: fd_inv_def fd_push_def fds_def unat_Suc)

lemma fd_drop_inv:
  assumes i: "fd_inv b" and fd: "fd < unat (fd_count b)"
  shows "fd_inv (fd_drop fd b)" and "fds (fd_drop fd b) = take fd (fds b) @ drop (Suc fd) (fds b)"
proof -
  let ?n = "unat (fd_count b)"
  have n: "unat (fd_count b - 1) = ?n - 1"
    using fd by (intro unat_pred) auto
  have "fd_table b (Suc j) \<noteq> NULL" if "j < ?n - Suc 0" for j
  proof -
    have "Suc j < unat (fd_count b)" "unat (fd_count b) \<le> 1024"
      using i that by (auto simp: fd_inv_def)
    then show ?thesis
      using i by (simp add: fd_inv_def)
  qed
  then show "fd_inv (fd_drop fd b)"
    using i fd n by (auto simp: fd_inv_def fd_drop_def Let_def shift_fds_apply)
  show "fds (fd_drop fd b) = take fd (fds b) @ drop (Suc fd) (fds b)"
  proof (rule nth_equalityI)
    show "length (fds (fd_drop fd b)) = length (take fd (fds b) @ drop (Suc fd) (fds b))"
      using n fd by (simp add: fd_drop_def Let_def)
    fix j assume "j < length (fds (fd_drop fd b))"
    then have "j < ?n - 1"
      using n by (simp add: fd_drop_def Let_def)
    then show "fds (fd_drop fd b) ! j = (take fd (fds b) @ drop (Suc fd) (fds b)) ! j"
      using n fd by (auto simp: fds_def fd_drop_def Let_def shift_fds_apply nth_append)
  qed
qed

interpretation fdt: descriptors fd_inv fds fd_push fd_drop 1024 "\<lambda>v. v \<noteq> NULL"
  by unfold_locales (use fd_push_inv fd_drop_inv in auto)


text \<open>A process number that names a process.\<close>

definition proc_ok :: "sched \<Rightarrow> u64 \<Rightarrow> u64 \<Rightarrow> pcb \<Rightarrow> bool" where
  "proc_ok k i p b \<longleftrightarrow> procs_ptr k \<noteq> NULL \<and> i < count k \<and> i < PROC_MAX_PROCS \<and> procs k (unat i) = p \<and> p \<noteq> NULL \<and> pcbs k p = Some b"

text \<open>
  C22: The descriptor table of a process is a list. Opening a vnode returns its number, the old length,
  and appends it, or fails with -1 when 1024 are open; closing an open number removes that entry, moves
  the later ones down by one and returns 0, and any other number, negative ones included, gives -1 and
  changes nothing. Other processes keep their tables, and a descriptor is closed by the number it got.
\<close>

theorem descriptor_table_correct:
  assumes p: "proc_ok k i p b" and inv: "fd_inv b" and node: "node \<noteq> NULL"
  shows "(if length (fds b) = 1024 then scheduler_proc_add_vnode k i node = Some (-1, k)
      else scheduler_proc_add_vnode k i node = Some (of_nat (length (fds b)), k\<lparr>pcbs := (pcbs k)(p \<mapsto> fd_push node b)\<rparr>) \<and>
        fd_inv (fd_push node b) \<and> fds (fd_push node b) = fds b @ [node] \<and>
        fds (fd_drop (length (fds b)) (fd_push node b)) = fds b) \<and>
    (if 0 \<le> sint fd \<and> sint fd < int (length (fds b))
      then scheduler_proc_remove_vnode k i fd = Some (0, k\<lparr>pcbs := (pcbs k)(p \<mapsto> fd_drop (unat fd) b)\<rparr>) \<and>
        fd_inv (fd_drop (unat fd) b) \<and> fds (fd_drop (unat fd) b) = take (unat fd) (fds b) @ drop (Suc (unat fd)) (fds b)
      else scheduler_proc_remove_vnode k i fd = Some (-1, k))"
    (is "?add \<and> ?rem")
proof
  have at: "proc_at k i = Some p" "\<not> i \<ge> count k" "p \<noteq> NULL" "pcbs k p = Some b"
    using p by (auto simp: proc_ok_def proc_at_def)
  have le: "unat (fd_count b) \<le> 1024"
    using inv by (simp add: fd_inv_def)
  show ?add
  proof (cases "length (fds b) = 1024")
    case True
    then have "\<not> fd_count b < PROC_MAX_FDS"
      by (simp add: word_less_nat_alt PROC_MAX_FDS_def)
    with True at node show ?thesis by (simp add: scheduler_proc_add_vnode_def)
  next
    case False
    with le have l: "unat (fd_count b) < 1024" by simp
    then have "fd_count b < PROC_MAX_FDS"
      by (simp add: word_less_nat_alt PROC_MAX_FDS_def)
    moreover have "(ucast (fd_count b) :: 32 word) = of_nat (unat (fd_count b))"
      by simp
    ultimately show ?thesis
      using False at node fdt.push_inv [OF inv node] fdt.push_fds [OF inv node] fdt.close_opened [OF inv node] l
      by (simp add: scheduler_proc_add_vnode_def pcb_upd_def)
  qed
  have small: "sint fd < 1024 \<longleftrightarrow> unat fd < 1024" if "0 \<le> sint fd"
    using sint_less_int [OF that, of 1024] by simp
  show ?rem
  proof (cases "0 \<le> sint fd \<and> sint fd < int (length (fds b))")
    case True
    then have f: "unat fd < unat (fd_count b)"
      using sint_less_int [of fd "length (fds b)"] by simp
    then have "fd_table b (unat fd) \<noteq> NULL" "fd_count b \<noteq> 0" "sint fd < 1024"
      using True inv le small by (auto simp: fd_inv_def)
    with True at show ?thesis
      using fdt.drop_inv [OF inv] fdt.drop_fds [OF inv] f
      by (simp add: scheduler_proc_remove_vnode_def pcb_upd_def)
  next
    case False
    have "fd_table b (unat fd) = NULL" if "0 \<le> sint fd" "sint fd < 1024"
      using that False inv small sint_less_int [of fd "length (fds b)"] by (auto simp: fd_inv_def)
    then have "sint fd < 0 \<or> 1024 \<le> sint fd \<or> fd_table b (unat fd) = NULL" by linarith
    then have "scheduler_proc_remove_vnode k i fd = Some (-1, k)"
      using at by (simp add: scheduler_proc_remove_vnode_def)
    with False show ?thesis by simp
  qed
qed


definition one_fd :: "pcb \<Rightarrow> pcb" where
  "one_fd b = b\<lparr>fd_table := (\<lambda>_. NULL)(0 := 5), fd_count := 1\<rparr>"

definition one_proc :: "sched \<Rightarrow> pcb \<Rightarrow> sched" where
  "one_proc k b = k\<lparr>procs_ptr := 0x9000, procs := (\<lambda>_. NULL)(0 := 0x8000), pcbs := [0x8000 \<mapsto> b], count := 1\<rparr>"

lemma one_proc_ok: "proc_ok (one_proc k b) 0 0x8000 b"
  by (simp add: proc_ok_def one_proc_def PROC_MAX_PROCS_def)

lemma one_fd_inv: "fd_inv (one_fd b)"
  by (simp add: fd_inv_def one_fd_def)

lemma fds_one_fd: "fds (one_fd b) = [5]"
  by (simp add: fds_def one_fd_def)

theorem descriptor_table_correct_witness:
  "\<forall>k b. proc_ok (one_proc k (one_fd b)) 0 0x8000 (one_fd b) \<and> fd_inv (one_fd b) \<and>
     fds (fd_push 7 (one_fd b)) = [5, 7] \<and>
     scheduler_proc_remove_vnode (one_proc k (one_fd b)) 0 (-1) = Some (-1, one_proc k (one_fd b)) \<and>
     fds (fd_drop 0 (one_fd b)) = []"
proof (intro allI conjI)
  fix k b
  note t = descriptor_table_correct [OF one_proc_ok one_fd_inv, of 7 b k]
  show "proc_ok (one_proc k (one_fd b)) 0 0x8000 (one_fd b)" by (rule one_proc_ok)
  show "fd_inv (one_fd b)" by (rule one_fd_inv)
  show "fds (fd_push 7 (one_fd b)) = [5, 7]"
    using t [of 0] by (simp add: fds_one_fd)
  show "scheduler_proc_remove_vnode (one_proc k (one_fd b)) 0 (-1) = Some (-1, one_proc k (one_fd b))"
    using t [of "-1"] by (simp add: fds_one_fd)
  show "fds (fd_drop 0 (one_fd b)) = []"
    using t [of 0] by (simp add: fds_one_fd)
qed



section \<open>Round robin\<close>

text \<open>
  \<open>sched_inv n k\<close>: \<open>n\<close> processes with a time slice of one tick each, all of them ready except the
  current one, which runs. This is the state after the first tick, as long as none has exited.
\<close>

definition pcb_ok :: "bool \<Rightarrow> pcb \<Rightarrow> bool" where
  "pcb_ok current b \<longleftrightarrow> timeslice b = PROC_DEFAULT_TIME \<and> pagemap b \<noteq> NULL \<and>
     (if current then state b = PROCESS_RUNNING else state b = PROCESS_READY \<and> \<not> in_syscall b)"

definition sched_inv :: "nat \<Rightarrow> sched \<Rightarrow> bool" where
  "sched_inv n k \<longleftrightarrow> procs_ptr k \<noteq> NULL \<and> \<not> lock_held k \<and> unat (count k) = n \<and> n \<le> 2048 \<and>
     unat (current_pid k) < n \<and> inj_on (procs k) {..<n} \<and>
     (\<forall>i<n. procs k i \<noteq> NULL \<and> (\<exists>b. pcbs k (procs k i) = Some b \<and> pcb_ok (i = unat (current_pid k)) b))"

definition pcb_of :: "sched \<Rightarrow> nat \<Rightarrow> pcb" where
  "pcb_of k i = the (pcbs k (procs k i))"

text \<open>The abstract machine: the saved registers of every process, and whose turn it is.\<close>

type_synonym rr = "register_ctx list \<times> nat"

definition rr_tick :: "rr \<Rightarrow> register_ctx \<Rightarrow> register_ctx \<times> rr" where
  "rr_tick m c = (let (saved, i) = m; saved' = saved[i := c]; j = Suc i mod length saved in (saved' ! j, saved', j))"

definition rr_abs :: "nat \<Rightarrow> sched \<Rightarrow> rr" where
  "rr_abs n k = (map (\<lambda>i. ctx (pcb_of k i)) [0..<n], unat (current_pid k))"

lemma sched_inv_pcb:
  assumes "sched_inv n k" "i < n"
  shows "procs k i \<noteq> NULL" "pcbs k (procs k i) = Some (pcb_of k i)" "pcb_ok (i = unat (current_pid k)) (pcb_of k i)"
  using assms by (auto simp: sched_inv_def pcb_of_def)

lemma sched_inv_proc_at:
  assumes "sched_inv n k" "unat i < n"
  shows "procs_ptr k \<noteq> NULL \<and> i < PROC_MAX_PROCS"
  using assms by (auto simp: sched_inv_def PROC_MAX_PROCS_def word_less_nat_alt)

lemma next_pid:
  assumes "sched_inv n k"
  shows "unat ((current_pid k + 1) mod count k) = Suc (unat (current_pid k)) mod n"
proof -
  have "unat (current_pid k + 1) = Suc (unat (current_pid k))"
    using assms by (intro unat_Suc) (auto simp: sched_inv_def)
  then show ?thesis
    using assms by (simp add: unat_mod_distrib sched_inv_def)
qed

definition resumed :: "nat \<Rightarrow> sched \<Rightarrow> register_ctx \<Rightarrow> nat \<Rightarrow> pcb" where
  "resumed n k c j =
     (pcb_of k j)\<lparr>ctx := (if j = unat (current_pid k) then c else ctx (pcb_of k j)),
       timeslice := PROC_DEFAULT_TIME, state := PROCESS_RUNNING\<rparr>"

definition ticked :: "nat \<Rightarrow> sched \<Rightarrow> register_ctx \<Rightarrow> sched" where
  "ticked n k c =
     (let i = unat (current_pid k); j = Suc i mod n
      in k\<lparr>current_pid := (current_pid k + 1) mod count k,
           pcbs := (pcbs k)(procs k i \<mapsto> (pcb_of k i)\<lparr>ctx := c, state := PROCESS_READY, timeslice := PROC_DEFAULT_TIME\<rparr>,
                            procs k j \<mapsto> resumed n k c j),
           vm := vmm_switch_pagemap (vm k) (pagemap (pcb_of k j)), lock_held := False\<rparr>)"

lemma tick_running:
  assumes i: "sched_inv n k" and u: "\<not> in_syscall (pcb_of k (unat (current_pid k)))"
  shows "scheduler_tick k c = Some (ctx (resumed n k c (Suc (unat (current_pid k)) mod n)), ticked n k c)"
proof -
  let ?i = "unat (current_pid k)" and ?j = "Suc (unat (current_pid k)) mod n"
  have lt: "?i < n" "?j < n" and l: "\<not> lock_held k" and c: "count k \<noteq> 0"
    and inj: "inj_on (procs k) {..<n}"
    using i by (auto simp: sched_inv_def)
  note cur = sched_inv_pcb [OF i lt(1)] and nxt = sched_inv_pcb [OF i lt(2)]
  have at: "procs_ptr k \<noteq> NULL" "current_pid k < PROC_MAX_PROCS" "(current_pid k + 1) mod count k < PROC_MAX_PROCS"
    using sched_inv_proc_at [OF i] lt next_pid [OF i] by auto
  have ne: "procs k ?j = procs k ?i \<longleftrightarrow> ?j = ?i"
    using inj lt by (auto simp: inj_on_def)
  have ts: "pcb_of k ?j\<lparr>timeslice := 1\<rparr> = pcb_of k ?j"
    using nxt by (simp add: pcb_ok_def PROC_DEFAULT_TIME_def)
  show ?thesis
    using l c at cur nxt u ne
    by (auto simp: scheduler_tick_def proc_at_def pcb_upd_def next_pid [OF i] pcb_ok_def PROC_DEFAULT_TIME_def
      Let_def ticked_def resumed_def ts)
qed

lemma pcb_of_ticked:
  assumes i: "sched_inv n k" and m: "m < n"
  shows "pcb_of (ticked n k c) m =
    (let i = unat (current_pid k); j = Suc i mod n
     in if m = j then resumed n k c j
        else if m = i then (pcb_of k i)\<lparr>ctx := c, state := PROCESS_READY, timeslice := PROC_DEFAULT_TIME\<rparr>
        else pcb_of k m)"
proof -
  have "procs k m = procs k x \<longleftrightarrow> m = x" if "x < n" for x
    using i m that by (auto simp: sched_inv_def inj_on_def)
  moreover have "unat (current_pid k) < n" "Suc (unat (current_pid k)) mod n < n"
    using i by (auto simp: sched_inv_def)
  ultimately show ?thesis
    by (simp add: Let_def ticked_def pcb_of_def)
qed

lemma pcb_ok_resumed:
  assumes "sched_inv n k" "j < n"
  shows "pcb_ok True (resumed n k c j)"
  using sched_inv_pcb [OF assms] by (auto simp: pcb_ok_def resumed_def split: if_splits)

lemma ticked_inv:
  assumes i: "sched_inv n k" and u: "\<not> in_syscall (pcb_of k (unat (current_pid k)))"
  shows "sched_inv n (ticked n k c)"
proof -
  let ?i = "unat (current_pid k)"
  let ?j = "Suc ?i mod n"
  have lt: "?i < n" "?j < n"
    using i by (auto simp: sched_inv_def)
  have cur: "unat (current_pid (ticked n k c)) = ?j"
    by (simp add: ticked_def Let_def next_pid [OF i])
  have "pcbs (ticked n k c) (procs k m) = Some (pcb_of (ticked n k c) m)" if "m < n" for m
    using sched_inv_pcb(2) [OF i that] by (auto simp: ticked_def Let_def pcb_of_def)
  moreover have "pcb_ok (m = ?j) (pcb_of (ticked n k c) m)" if "m < n" for m
    using sched_inv_pcb(3) [OF i that] pcb_ok_resumed [OF i lt(2)] u
    by (auto simp: pcb_of_ticked [OF i that] Let_def pcb_ok_def)
  ultimately show ?thesis
    using i cur lt by (simp add: sched_inv_def) (simp add: ticked_def Let_def)
qed

lemma ctx_ticked:
  assumes "sched_inv n k" and "m < n"
  shows "ctx (pcb_of (ticked n k c) m) = (if m = unat (current_pid k) then c else ctx (pcb_of k m))"
  by (simp add: pcb_of_ticked [OF assms] Let_def resumed_def)

lemma rr_abs_ticked:
  assumes i: "sched_inv n k"
  shows "rr_tick (rr_abs n k) c = (ctx (resumed n k c (Suc (unat (current_pid k)) mod n)), rr_abs n (ticked n k c))"
proof -
  let ?i = "unat (current_pid k)"
  have lt: "?i < n" "Suc ?i mod n < n"
    using i by (auto simp: sched_inv_def)
  have "map (\<lambda>i. ctx (pcb_of (ticked n k c) i)) [0..<n] = (map (\<lambda>i. ctx (pcb_of k i)) [0..<n])[?i := c]"
    by (rule nth_equalityI) (auto simp: ctx_ticked [OF i] nth_list_update)
  moreover have "unat (current_pid (ticked n k c)) = Suc ?i mod n"
    by (simp add: ticked_def Let_def next_pid [OF i])
  ultimately show ?thesis
    using lt by (simp add: rr_tick_def rr_abs_def Let_def resumed_def nth_list_update)
qed

text \<open>
  C4: A timer tick does what the abstract round-robin machine does: it saves the interrupted registers
  as those of the current process, moves on to the next process, hands out its saved registers and
  switches to its page map, and the scheduler is again in a state of this form, with its lock free. When the
  current process is inside a system call the tick changes nothing.
\<close>

theorem scheduler_tick_refines:
  assumes "sched_inv n k"
  shows "if in_syscall (pcb_of k (unat (current_pid k))) then scheduler_tick k c = Some (c, k)
    else \<exists>c' k'. scheduler_tick k c = Some (c', k') \<and> sched_inv n k' \<and>
      rr_tick (rr_abs n k) c = (c', rr_abs n k') \<and>
      cr3 (vm k') = PHYSICAL (frames (vm k')) (pagemap (pcb_of k' (unat (current_pid k'))))"
proof (cases "in_syscall (pcb_of k (unat (current_pid k)))")
  case True
  have lt: "unat (current_pid k) < n"
    using assms by (auto simp: sched_inv_def)
  then have "scheduler_tick k c = Some (c, k\<lparr>lock_held := False\<rparr>)"
    using assms True sched_inv_pcb [OF assms lt] sched_inv_proc_at [OF assms lt]
    by (auto simp: scheduler_tick_def proc_at_def sched_inv_def pcb_ok_def)
  then show ?thesis
    using assms True by (simp add: sched_inv_def)
next
  case False
  let ?j = "Suc (unat (current_pid k)) mod n"
  have lt: "?j < n"
    using assms by (auto simp: sched_inv_def)
  have cur: "unat (current_pid (ticked n k c)) = ?j"
    by (simp add: ticked_def Let_def next_pid [OF assms])
  have "pagemap (pcb_of (ticked n k c) ?j) = pagemap (pcb_of k ?j)"
    by (simp add: pcb_of_ticked [OF assms lt] Let_def resumed_def)
  then have "cr3 (vm (ticked n k c)) = PHYSICAL (frames (vm (ticked n k c))) (pagemap (pcb_of (ticked n k c) ?j))"
    by (simp add: ticked_def Let_def vmm_switch_pagemap_def PHYSICAL_def)
  with False show ?thesis
    using tick_running [OF assms False, of c] ticked_inv [OF assms False, of c] rr_abs_ticked [OF assms, of c] cur by auto
qed

definition two_procs :: "sched \<Rightarrow> pcb \<Rightarrow> register_ctx \<Rightarrow> sched" where
  "two_procs k b c =
     k\<lparr>procs_ptr := 0x9000, procs := (\<lambda>_. NULL)(0 := 0x8000, 1 := 0x8800), count := 2, current_pid := 0, lock_held := False,
       pcbs := [0x8000 \<mapsto> b\<lparr>state := PROCESS_RUNNING, timeslice := 1, pagemap := 0x4000, in_syscall := False\<rparr>,
                0x8800 \<mapsto> b\<lparr>ctx := c, state := PROCESS_READY, timeslice := 1, pagemap := 0x5000, in_syscall := False\<rparr>]\<rparr>"

lemma less_two: "(i::nat) < 2 \<longleftrightarrow> i = 0 \<or> i = 1"
  by auto

lemma two_procs_inv: "sched_inv 2 (two_procs k b c)"
  by (auto simp: sched_inv_def two_procs_def inj_on_def less_two pcb_ok_def PROC_DEFAULT_TIME_def)

lemma two_procs_user: "\<not> in_syscall (pcb_of (two_procs k b c) 0)" "unat (current_pid (two_procs k b c)) = 0"
    "ctx (pcb_of (two_procs k b c) 1) = c"
  by (simp_all add: pcb_of_def two_procs_def)

theorem scheduler_tick_refines_witness:
  "\<forall>k b c c0. sched_inv 2 (two_procs k b c) \<and>
     (\<exists>k'. scheduler_tick (two_procs k b c) c0 = Some (c, k') \<and> sched_inv 2 k' \<and> rr_abs 2 k' = ([c0, c], 1))"
proof (intro allI conjI)
  fix k b c c0
  show "sched_inv 2 (two_procs k b c)" by (rule two_procs_inv)
  have "rr_tick (rr_abs 2 (two_procs k b c)) c0 = (c, [c0, c], 1)"
    using two_procs_user [of k b c] by (simp add: rr_tick_def rr_abs_def upt_rec)
  then show "\<exists>k'. scheduler_tick (two_procs k b c) c0 = Some (c, k') \<and> sched_inv 2 k' \<and> rr_abs 2 k' = ([c0, c], 1)"
    using scheduler_tick_refines [OF two_procs_inv, of k b c c0] two_procs_user [of k b c] by auto
qed

text \<open>
  Ticks with execution in between: \<open>user p\<close> is what process \<open>p\<close> does to the registers from
  the moment it gets the processor until the next tick.
\<close>

primrec run_ticks :: "(nat \<Rightarrow> register_ctx \<Rightarrow> register_ctx) \<Rightarrow> nat \<Rightarrow> sched \<Rightarrow> register_ctx \<Rightarrow> (register_ctx \<times> sched) option" where
  "run_ticks user 0 k c = Some (c, k)"
| "run_ticks user (Suc m) k c = do {
     (c1, k1) \<leftarrow> run_ticks user m k c;
     scheduler_tick k1 (user (unat (current_pid k1)) c1) }"

lemma add_mod_inj:
  fixes x y :: nat
  assumes "(a + x) mod n = (a + y) mod n" "x < n" "y < n"
  shows "x = y"
  using assms
proof (induction x y rule: linorder_wlog)
  case (le x y)
  then have "n dvd y - x"
    using mod_eq_dvd_iff_nat [of "a + x" "a + y" n] by simp
  moreover have "y - x < n"
    using le by simp
  ultimately show ?case
    using le(1) by (auto dest: nat_dvd_not_less)
qed simp

definition turn :: "(nat \<Rightarrow> register_ctx \<Rightarrow> register_ctx) \<Rightarrow> nat \<Rightarrow> sched \<Rightarrow> register_ctx \<Rightarrow> nat \<Rightarrow> register_ctx \<Rightarrow> sched \<Rightarrow> bool" where
  "turn user n k c m c' k' \<longleftrightarrow> (let i = unat (current_pid k); i' = unat (current_pid k') in
     sched_inv n k' \<and> i' = (i + m) mod n \<and> \<not> in_syscall (pcb_of k' i') \<and> c' = ctx (pcb_of k' i') \<and>
     ctx (pcb_of k' i) = user i c \<and>
     (\<forall>d. m \<le> d \<and> d < n \<longrightarrow> ctx (pcb_of k' ((i + d) mod n)) = ctx (pcb_of k ((i + d) mod n))))"

lemma tick_ctx:
  assumes i: "sched_inv n k" and u: "\<not> in_syscall (pcb_of k (unat (current_pid k)))"
  obtains k' where "scheduler_tick k c = Some (ctx (pcb_of k' (unat (current_pid k'))), k')" "sched_inv n k'"
    "unat (current_pid k') = Suc (unat (current_pid k)) mod n"
    "\<not> in_syscall (pcb_of k' (unat (current_pid k')))"
    "\<forall>m<n. ctx (pcb_of k' m) = (if m = unat (current_pid k) then c else ctx (pcb_of k m))"
proof (rule that [of "ticked n k c"])
  let ?j = "Suc (unat (current_pid k)) mod n"
  have lt: "?j < n"
    using i by (auto simp: sched_inv_def)
  show cur: "unat (current_pid (ticked n k c)) = ?j"
    by (simp add: ticked_def Let_def next_pid [OF i])
  have r: "pcb_of (ticked n k c) ?j = resumed n k c ?j"
    by (simp add: pcb_of_ticked [OF i lt] Let_def)
  then show "scheduler_tick k c = Some (ctx (pcb_of (ticked n k c) (unat (current_pid (ticked n k c)))), ticked n k c)"
    using tick_running [OF i u] cur by simp
  show "\<not> in_syscall (pcb_of (ticked n k c) (unat (current_pid (ticked n k c))))"
    using sched_inv_pcb(3) [OF i lt] u cur r by (auto simp: resumed_def pcb_ok_def split: if_splits)
qed (use ticked_inv [OF i u] ctx_ticked [OF i] in auto)

lemma turn_first:
  assumes "sched_inv n k" and "\<not> in_syscall (pcb_of k (unat (current_pid k)))"
  shows "\<exists>c' k'. run_ticks user 1 k c = Some (c', k') \<and> turn user n k c 1 c' k'"
proof -
  let ?i = "unat (current_pid k)"
  have lt: "?i < n"
    using assms by (auto simp: sched_inv_def)
  have ne: "(?i + d) mod n \<noteq> ?i" if "1 \<le> d" "d < n" for d
    using add_mod_inj [of ?i d n 0] that lt by auto
  obtain k' where "scheduler_tick k (user ?i c) = Some (ctx (pcb_of k' (unat (current_pid k'))), k')" "sched_inv n k'"
    and "unat (current_pid k') = Suc ?i mod n" "\<not> in_syscall (pcb_of k' (unat (current_pid k')))"
    and "\<forall>m<n. ctx (pcb_of k' m) = (if m = ?i then user ?i c else ctx (pcb_of k m))"
    by (rule tick_ctx [OF assms, of "user ?i c"])
  with lt ne show ?thesis
    by (simp add: turn_def Let_def)
qed

lemma turn_step:
  assumes t: "turn user n k c m c1 k1" and m: "1 \<le> m" "m < n" and lt: "unat (current_pid k) < n"
  shows "\<exists>c' k'. scheduler_tick k1 (user (unat (current_pid k1)) c1) = Some (c', k') \<and> turn user n k c (Suc m) c' k'"
proof -
  let ?i = "unat (current_pid k)"
  have i: "sched_inv n k1" and u: "\<not> in_syscall (pcb_of k1 (unat (current_pid k1)))"
    and cur: "unat (current_pid k1) = (?i + m) mod n"
    using t by (auto simp: turn_def Let_def)
  have ne: "(?i + d) mod n \<noteq> (?i + m) mod n" if "Suc m \<le> d" "d < n" for d
    using add_mod_inj [of ?i d n m] that m by auto
  have ne0: "?i \<noteq> (?i + m) mod n"
    using add_mod_inj [of ?i m n 0] m lt by auto
  let ?c = "user (unat (current_pid k1)) c1"
  obtain k' where k': "scheduler_tick k1 ?c = Some (ctx (pcb_of k' (unat (current_pid k'))), k')" "sched_inv n k'"
      "unat (current_pid k') = Suc (unat (current_pid k1)) mod n" "\<not> in_syscall (pcb_of k' (unat (current_pid k')))"
    and ctx: "\<forall>m<n. ctx (pcb_of k' m) = (if m = unat (current_pid k1) then ?c else ctx (pcb_of k1 m))"
    by (rule tick_ctx [OF i u, of ?c])
  have "Suc (unat (current_pid k1)) mod n = (?i + Suc m) mod n"
    by (simp add: cur mod_Suc_eq)
  moreover have "ctx (pcb_of k' ?i) = user ?i c"
    using ctx lt ne0 cur t by (simp add: turn_def Let_def)
  moreover have "ctx (pcb_of k' ((?i + d) mod n)) = ctx (pcb_of k ((?i + d) mod n))" if "Suc m \<le> d" "d < n" for d
    using ctx ne [OF that] cur t that by (simp add: turn_def Let_def)
  ultimately show ?thesis
    using k' by (simp add: turn_def Let_def)
qed

lemma turns:
  assumes i: "sched_inv n k" and u: "\<not> in_syscall (pcb_of k (unat (current_pid k)))"
  shows "1 \<le> m \<Longrightarrow> m \<le> n \<Longrightarrow> \<exists>c' k'. run_ticks user m k c = Some (c', k') \<and> turn user n k c m c' k'"
proof (induction m rule: dec_induct)
  case base
  show ?case by (rule turn_first [OF i u])
next
  case (step m)
  then obtain c1 k1 where "run_ticks user m k c = Some (c1, k1)" "turn user n k c m c1 k1" by auto
  moreover have "unat (current_pid k) < n"
    using i by (simp add: sched_inv_def)
  ultimately show ?case
    using turn_step [of user n k c m c1 k1] step by auto
qed

text \<open>
  C12: Every process gets its turn. With \<open>n\<close> processes, whatever they do to the registers while they run, the \<open>m\<close>-th
  tick from now hands the processor to the process \<open>m\<close> places further on, with exactly the registers it
  was last interrupted with; after \<open>n\<close> ticks the current process continues where it was interrupted.
\<close>

theorem every_process_runs:
  assumes "sched_inv n k" and "\<not> in_syscall (pcb_of k (unat (current_pid k)))" and "1 \<le> m" "m \<le> n"
  shows "\<exists>c' k'. run_ticks user m k c = Some (c', k') \<and> sched_inv n k' \<and>
    unat (current_pid k') = (unat (current_pid k) + m) mod n \<and>
    c' = (if m = n then user (unat (current_pid k)) c else ctx (pcb_of k ((unat (current_pid k) + m) mod n)))"
proof -
  have "unat (current_pid k) < n"
    using assms(1) by (simp add: sched_inv_def)
  with turns [OF assms, of user c] assms(4) show ?thesis
    by (auto simp: turn_def Let_def)
qed

theorem every_process_runs_witness:
  "\<forall>k b c c0. \<exists>k'. run_ticks (\<lambda>_ r. r\<lparr>rax := 1\<rparr>) 2 (two_procs k b c) c0 = Some (c0\<lparr>rax := 1\<rparr>, k') \<and> unat (current_pid k') = 0"
proof (intro allI)
  fix k b c c0
  show "\<exists>k'. run_ticks (\<lambda>_ r. r\<lparr>rax := 1\<rparr>) 2 (two_procs k b c) c0 = Some (c0\<lparr>rax := 1\<rparr>, k') \<and> unat (current_pid k') = 0"
    using every_process_runs [OF two_procs_inv, of k b c 2 "\<lambda>_ r. r\<lparr>rax := 1\<rparr>" c0] two_procs_user [of k b c] by auto
qed

end
