(* ===== verification/Syscall.thy ===== *)
theory Syscall
  imports Vfs Ramfs_Init Scheduler
begin

text \<open>
  The system calls, \<open>kernel/src/sys/syscall.c\<close> and \<open>syscall.h\<close>, and their entry
  \<open>syscall_handler\<close> in \<open>kernel/src/sys/intr.c\<close>, on the state of the file system and of the
  scheduler together. Pointers that a process passes are addresses in the same byte memory that
  holds the file contents; a file descriptor outside the table of 1024 entries is an access outside
  the array. Error numbers are those of \<open>kernel/src/util/errno.h\<close>.
\<close>

section \<open>Data\<close>

record kernel =
  fs :: vfs
  sc :: sched

definition EOK :: u32 where "EOK = 0"
definition ENOENT :: u32 where "ENOENT = 1"
definition EBADF :: u32 where "EBADF = 2"
definition EFAULT :: u32 where "EFAULT = 3"
definition EINVAL :: u32 where "EINVAL = 4"
definition EBADPID :: u32 where "EBADPID = 5"
definition ENOTIMPL :: u32 where "ENOTIMPL = 6"
definition EACCES :: u32 where "EACCES = 7"
definition ENOTTY :: u32 where "ENOTTY = 8"
definition ESRCH :: u32 where "ESRCH = 9"
definition ENOMEM :: u32 where "ENOMEM = 10"

lemmas errno_defs = EOK_def ENOENT_def EBADF_def EFAULT_def EINVAL_def EBADPID_def ENOTIMPL_def
  EACCES_def ENOTTY_def ESRCH_def ENOMEM_def

definition ERRNO_TO_STR :: "u32 \<Rightarrow> string" where
  "ERRNO_TO_STR e =
     (if e = EOK then ''No error'' else if e = ENOENT then ''No such file or directory''
      else if e = EBADF then ''Bad file descriptor'' else if e = EFAULT then ''Bad address''
      else if e = EINVAL then ''Invalid argument'' else if e = EBADPID then ''Bad pid''
      else if e = ENOTIMPL then ''Function not implemented'' else if e = EACCES then ''Permission denied''
      else if e = ENOTTY then ''Inappropriate ioctl for device'' else if e = ESRCH then ''No such process''
      else if e = ENOMEM then ''No memory'' else ''Unknown error'')"

definition O_CREATE :: u64 where
  "O_CREATE = 1"

definition SYSCALL_TABLE_SIZE :: u64 where
  "SYSCALL_TABLE_SIZE = 11"

definition SYSCALL_TO_STR :: "u64 \<Rightarrow> string" where
  "SYSCALL_TO_STR number =
     (if number = 0 then ''exit'' else if number = 1 then ''open'' else if number = 2 then ''close''
      else if number = 3 then ''write'' else if number = 4 then ''read'' else if number = 5 then ''stat''
      else if number = 6 then ''setuid'' else if number = 7 then ''setgid'' else if number = 8 then ''ioctl''
      else if number = 9 then ''getpid'' else if number = 10 then ''uname'' else ''unknown'')"

text \<open>The access \<open>fd_table[fd]\<close> of the current process.\<close>

definition fd_vnode :: "pcb \<Rightarrow> i32 \<Rightarrow> u64 option" where
  "fd_vnode b fd = (if 0 \<le> sint fd \<and> sint fd < 1024 then Some (fd_table b (unat fd)) else None)"

text \<open>A system call's common frame: \<open>-ESRCH\<close> when no process runs.\<close>

definition with_current ::
    "kernel \<Rightarrow> (u64 \<Rightarrow> pcb \<Rightarrow> (i32 \<times> kernel) option) \<Rightarrow> (i32 \<times> kernel) option" where
  "with_current k f =
     do {
       p \<leftarrow> scheduler_get_current (sc k);
       if p = NULL then Some (- ESRCH, k)
       else do { b \<leftarrow> pcbs (sc k) p; f p b } }"


section \<open>The calls\<close>

definition sys_exit :: "kernel \<Rightarrow> i32 \<Rightarrow> (i32 \<times> kernel) option" where
  "sys_exit k code =
     with_current k (\<lambda>p b. do { sc' \<leftarrow> scheduler_exit (sc k); Some (0, k\<lparr>sc := sc'\<rparr>) })"

definition VFS_ROOT_mount :: "vfs \<Rightarrow> u64 option" where
  "VFS_ROOT_mount s =
     do { m \<leftarrow> mounts s (root_mount s); v \<leftarrow> vnodes s (m_root m); Some (v_mount v) }"

definition sys_open :: "kernel \<Rightarrow> u64 \<Rightarrow> u64 \<Rightarrow> u8 \<Rightarrow> (i32 \<times> kernel) option" where
  "sys_open k upath flags kind =
     with_current k (\<lambda>p b. do {
       mt \<leftarrow> VFS_ROOT_mount (fs k);
       name \<leftarrow> (if upath = NULL then Some None
               else do { n \<leftarrow> string_at (bytes (fs k)) upath; Some (Some n) });
       found \<leftarrow> vfs_lazy_lookup (fs k) mt name;
       (node, s1) \<leftarrow>
         (if flags AND O_CREATE \<noteq> 0 \<and> found = NULL
          then do {
            n \<leftarrow> name;
            dir \<leftarrow> vfs_lazy_lookup_last (fs k) mt name;
            vfs_create_vnode (fs k) dir (Some (FILENAME_FROM_PATH n)) (ucast kind) }
          else Some (found, fs k));
       if node = NULL then Some (- ENOENT, k\<lparr>fs := s1\<rparr>)
       else do {
         s2 \<leftarrow> vnode_upd node (v_atime_update (\<lambda>_. now s1)) s1;
         (r, sc') \<leftarrow> scheduler_proc_add_vnode (sc k) (pid b) node;
         Some (r, k\<lparr>fs := s2, sc := sc'\<rparr>) } })"

definition sys_close :: "kernel \<Rightarrow> i32 \<Rightarrow> (i32 \<times> kernel) option" where
  "sys_close k fd =
     with_current k (\<lambda>p b. do {
       (r, sc') \<leftarrow> scheduler_proc_remove_vnode (sc k) (pid b) fd;
       Some (if r = -1 then - EBADF else if r = -2 then - EBADPID else 0, k\<lparr>sc := sc'\<rparr>) })"

definition sys_write :: "kernel \<Rightarrow> i32 \<Rightarrow> u64 \<Rightarrow> u64 \<Rightarrow> (i32 \<times> kernel) option" where
  "sys_write k fd buff sz =
     with_current k (\<lambda>p b. do {
       node \<leftarrow> fd_vnode b fd;
       if node = NULL then Some (- EBADF, k)
       else do {
         ok \<leftarrow> vfs_am_i_allowed (fs k) node (u_uid (whoami b)) (u_gid (whoami b)) 2;
         if \<not> ok then Some (- EACCES, k)
         else if buff = NULL \<or> sz = 0 then None
         else do {
           (ret, s1) \<leftarrow> vfs_write (fs k) node buff sz 0;
           Some (if ret = -1 then - ENOTIMPL else ret, k\<lparr>fs := s1\<rparr>) } } })"

definition sys_read :: "kernel \<Rightarrow> i32 \<Rightarrow> u64 \<Rightarrow> u64 \<Rightarrow> (i32 \<times> kernel) option" where
  "sys_read k fd buff sz =
     with_current k (\<lambda>p b. do {
       node \<leftarrow> fd_vnode b fd;
       if node = NULL then Some (- EBADF, k)
       else do {
         ok \<leftarrow> vfs_am_i_allowed (fs k) node (u_uid (whoami b)) (u_gid (whoami b)) 1;
         if \<not> ok then Some (- EACCES, k)
         else if buff = NULL \<or> sz = 0 then None
         else do {
           (ret, s1) \<leftarrow> vfs_read (fs k) node buff sz 0;
           Some (if ret = -1 then - ENOTIMPL else ret, k\<lparr>fs := s1\<rparr>) } } })"

definition store32 :: "mem \<Rightarrow> u64 \<Rightarrow> u32 \<Rightarrow> mem" where
  "store32 m a v = (\<lambda>b. if b - a < 4 then ucast (drop_bit (8 * unat (b - a)) v) else m b)"

text \<open>\<open>stat_t\<close> has \<open>size\<close> at offset 0, then \<open>flags\<close>, \<open>type\<close>, \<open>uid\<close>, \<open>gid\<close> and \<open>mode\<close> from 8 on.\<close>

definition write_stat :: "mem \<Rightarrow> u64 \<Rightarrow> vnode \<Rightarrow> mem" where
  "write_stat m stat v =
     (let m1 = store32 m (stat + 8) (v_flags v);
          m2 = store64 m1 stat (v_size v);
          m3 = store32 m2 (stat + 12) (v_type v);
          m4 = store32 m3 (stat + 16) (v_uid v);
          m5 = store32 m4 (stat + 20) (v_gid v)
      in store32 m5 (stat + 24) (v_mode v))"

definition sys_stat :: "kernel \<Rightarrow> i32 \<Rightarrow> u64 \<Rightarrow> (i32 \<times> kernel) option" where
  "sys_stat k fd stat =
     with_current k (\<lambda>p b.
       if stat = NULL then Some (- EFAULT, k)
       else do {
         node \<leftarrow> fd_vnode b fd;
         if node = NULL then Some (- EBADF, k)
         else do {
           v \<leftarrow> vnodes (fs k) node;
           Some (0, k\<lparr>fs := (fs k)\<lparr>bytes := write_stat (bytes (fs k)) stat v\<rparr>\<rparr>) } })"

definition sys_setuid :: "kernel \<Rightarrow> u32 \<Rightarrow> (i32 \<times> kernel) option" where
  "sys_setuid k uid =
     with_current k (\<lambda>p b. do {
       sc' \<leftarrow> pcb_upd p (\<lambda>b. b\<lparr>whoami := (whoami b)\<lparr>u_uid := ucast uid\<rparr>\<rparr>) (sc k);
       Some (0, k\<lparr>sc := sc'\<rparr>) })"

definition sys_setgid :: "kernel \<Rightarrow> u32 \<Rightarrow> (i32 \<times> kernel) option" where
  "sys_setgid k gid =
     with_current k (\<lambda>p b. do {
       sc' \<leftarrow> pcb_upd p (\<lambda>b. b\<lparr>whoami := (whoami b)\<lparr>u_gid := ucast gid\<rparr>\<rparr>) (sc k);
       Some (0, k\<lparr>sc := sc'\<rparr>) })"

text \<open>Neither operation table has an \<open>ioctl\<close>; a vnode without a table is a fault.\<close>

definition sys_ioctl :: "kernel \<Rightarrow> i32 \<Rightarrow> u32 \<Rightarrow> u32 \<Rightarrow> (i32 \<times> kernel) option" where
  "sys_ioctl k fd cmd arg =
     with_current k (\<lambda>p b. do {
       node \<leftarrow> fd_vnode b fd;
       if node = NULL then Some (- EBADF, k)
       else do { v \<leftarrow> vnodes (fs k) node; ops \<leftarrow> v_ops v; Some (- ENOTTY, k) } })"

definition sys_getpid :: "kernel \<Rightarrow> (i32 \<times> kernel) option" where
  "sys_getpid k = with_current k (\<lambda>p b. Some (ucast (pid b), k))"

definition sys_uname :: "kernel \<Rightarrow> u64 \<Rightarrow> (i32 \<times> kernel) option" where
  "sys_uname k buf = Some (- ENOTIMPL, k)"


section \<open>The entry\<close>

definition syscall_table :: "kernel \<Rightarrow> register_ctx \<Rightarrow> (i32 \<times> kernel) option" where
  "syscall_table k c =
     (let a1 = rdi c; a2 = rsi c; a3 = rdx c in
      if rax c = 0 then sys_exit k (ucast a1)
      else if rax c = 1 then sys_open k a1 a2 (ucast a3)
      else if rax c = 2 then sys_close k (ucast a1)
      else if rax c = 3 then sys_write k (ucast a1) a2 a3
      else if rax c = 4 then sys_read k (ucast a1) a2 a3
      else if rax c = 5 then sys_stat k (ucast a1) a2
      else if rax c = 6 then sys_setuid k (ucast a1)
      else if rax c = 7 then sys_setgid k (ucast a1)
      else if rax c = 8 then sys_ioctl k (ucast a1) (ucast a2) (ucast a3)
      else if rax c = 9 then sys_getpid k
      else sys_uname k a1)"

text \<open>
  A write to the control block of a process that has exited in the call goes to freed memory and
  changes nothing that the model keeps. The warnings are only output; the one for \<open>ENOTTY\<close> reads
  \<open>fd_table[rdi]\<close> with all 64 bits of the register.
\<close>

definition pcb_touch :: "u64 \<Rightarrow> (pcb \<Rightarrow> pcb) \<Rightarrow> kernel \<Rightarrow> kernel" where
  "pcb_touch p f k =
     (case pcb_upd p f (sc k) of None \<Rightarrow> k | Some sc' \<Rightarrow> k\<lparr>sc := sc'\<rparr>)"

definition syscall_handler :: "kernel \<Rightarrow> register_ctx \<Rightarrow> (register_ctx \<times> kernel) option" where
  "syscall_handler k c =
     do {
       p \<leftarrow> scheduler_get_current (sc k);
       let k1 = (if p = NULL then k else pcb_touch p (in_syscall_update (\<lambda>_. True)) k);
       (status, k2) \<leftarrow> (if rax c < SYSCALL_TABLE_SIZE then syscall_table k1 c else Some (- EINVAL, k1));
       let k3 = (if p = NULL then k2
                 else pcb_touch p (\<lambda>b. b\<lparr>errno := (if sint status < 0 then - status else errno b),
                                         in_syscall := False\<rparr>) k2);
       if p \<noteq> NULL \<and> sint status < 0 \<and> - status = ENOTTY \<and> rdi c \<ge> 1024 then None
       else Some (c\<lparr>rax := scast status\<rparr>, k3) }"

end
