(* ===== verification/Port_Io.thy ===== *)
theory Port_Io
  imports Kernel_Prelude
begin

text \<open>
  Port input and output, \<open>kernel/src/dev/portio.c\<close>. The state records every value written to a
  port, oldest first, and counts the reads; what a read returns is the answer of the hardware,
  \<open>answer\<close>, which may depend on what has been written so far and on how many reads came before.
  A device of this kernel is accessed at one width only, so there is one such state per width.
\<close>

record 'v ports =
  written :: "(u16 \<times> 'v) list"
  reads :: nat
  answer :: "(u16 \<times> 'v) list \<Rightarrow> nat \<Rightarrow> u16 \<Rightarrow> 'v"

type_synonym io = "u8 ports"

definition outb :: "u16 \<Rightarrow> u8 \<Rightarrow> io \<Rightarrow> io" where
  "outb port value s = s\<lparr>written := written s @ [(port, value)]\<rparr>"

definition inb :: "u16 \<Rightarrow> io \<Rightarrow> u8 \<times> io" where
  "inb port s = (answer s (written s) (reads s) port, s\<lparr>reads := reads s + 1\<rparr>)"

definition outw :: "u16 \<Rightarrow> u16 \<Rightarrow> u16 ports \<Rightarrow> u16 ports" where
  "outw port value s = s\<lparr>written := written s @ [(port, value)]\<rparr>"

definition inw :: "u16 \<Rightarrow> u16 ports \<Rightarrow> u16 \<times> u16 ports" where
  "inw port s = (answer s (written s) (reads s) port, s\<lparr>reads := reads s + 1\<rparr>)"

definition outl :: "u16 \<Rightarrow> u32 \<Rightarrow> u32 ports \<Rightarrow> u32 ports" where
  "outl port value s = s\<lparr>written := written s @ [(port, value)]\<rparr>"

definition inl :: "u16 \<Rightarrow> u32 ports \<Rightarrow> u32 \<times> u32 ports" where
  "inl port s = (answer s (written s) (reads s) port, s\<lparr>reads := reads s + 1\<rparr>)"

text \<open>\<open>io_wait\<close> writes a zero byte to the unused port \<open>0x80\<close>.\<close>

definition io_wait :: "io \<Rightarrow> io" where
  "io_wait = outb 0x80 0"

text \<open>The last value written to a port.\<close>

definition last_written :: "u16 \<Rightarrow> (u16 \<times> 'v) list \<Rightarrow> 'v option" where
  "last_written port ws = map_option snd (List.find (\<lambda>(p, _). p = port) (rev ws))"

lemma last_written_snoc [simp]:
  "last_written port (ws @ [(p, v)]) = (if p = port then Some v else last_written port ws)"
  by (simp add: last_written_def)

lemma outb_simps [simp]:
  "written (outb p v s) = written s @ [(p, v)]" "reads (outb p v s) = reads s" "answer (outb p v s) = answer s"
  by (simp_all add: outb_def)

lemma outl_simps [simp]:
  "written (outl p v s) = written s @ [(p, v)]" "reads (outl p v s) = reads s" "answer (outl p v s) = answer s"
  by (simp_all add: outl_def)

lemma io_wait_simps [simp]:
  "written (io_wait s) = written s @ [(0x80, 0)]" "reads (io_wait s) = reads s" "answer (io_wait s) = answer s"
  by (simp_all add: io_wait_def)

end
