(* ===== verification/Pic.thy ===== *)
theory Pic
  imports Port_Io
begin

text \<open>
  The interrupt controllers, \<open>kernel/src/sys/pic.c\<close>. \<open>g_curmask\<close> is the kernel's copy of the two mask registers, the
  master's in the low byte.
\<close>

section \<open>Definitions\<close>

record pic =
  port_io :: io
  g_curmask :: u16

definition PIC_MASTER_COMMAND :: u16 where "PIC_MASTER_COMMAND = 0x20"
definition PIC_MASTER_DATA :: u16 where "PIC_MASTER_DATA = 0x21"
definition PIC_SLAVE_COMMAND :: u16 where "PIC_SLAVE_COMMAND = 0xA0"
definition PIC_SLAVE_DATA :: u16 where "PIC_SLAVE_DATA = 0xA1"
definition PIC_EOI :: u8 where "PIC_EOI = 0x20"
definition PIC_ICW1_ICW4 :: u8 where "PIC_ICW1_ICW4 = 0x01"
definition PIC_ICW1_INIT :: u8 where "PIC_ICW1_INIT = 0x10"
definition PIC_ICW4_8086 :: u8 where "PIC_ICW4_8086 = 0x01"

lemmas pic_consts = PIC_MASTER_COMMAND_def PIC_MASTER_DATA_def PIC_SLAVE_COMMAND_def PIC_SLAVE_DATA_def
  PIC_EOI_def PIC_ICW1_ICW4_def PIC_ICW1_INIT_def PIC_ICW4_8086_def

definition send :: "u16 \<Rightarrow> u8 \<Rightarrow> pic \<Rightarrow> pic" where
  "send port value s = s\<lparr>port_io := outb port value (port_io s)\<rparr>"

definition pause :: "pic \<Rightarrow> pic" where
  "pause s = s\<lparr>port_io := io_wait (port_io s)\<rparr>"

definition pic_maskall :: "pic \<Rightarrow> pic" where
  "pic_maskall s = (send PIC_SLAVE_DATA 0xFF (send PIC_MASTER_DATA 0xFF s))\<lparr>g_curmask := 0xFFFF\<rparr>"

definition pic_init :: "pic \<Rightarrow> pic" where
  "pic_init s =
     (let s1 = pause (send PIC_MASTER_COMMAND (PIC_ICW1_INIT OR PIC_ICW1_ICW4) s);
          s2 = pause (send PIC_SLAVE_COMMAND (PIC_ICW1_INIT OR PIC_ICW1_ICW4) s1);
          s3 = pause (send PIC_MASTER_DATA 0x20 s2);
          s4 = pause (send PIC_SLAVE_DATA 0x28 s3);
          s5 = pause (send PIC_MASTER_DATA 4 s4);
          s6 = pause (send PIC_SLAVE_DATA 2 s5);
          s7 = pause (send PIC_MASTER_DATA PIC_ICW4_8086 s6);
          s8 = pause (send PIC_SLAVE_DATA PIC_ICW4_8086 s7)
      in pic_maskall s8)"

definition pic_eoi :: "u8 \<Rightarrow> pic \<Rightarrow> pic" where
  "pic_eoi irq s =
     send PIC_MASTER_COMMAND PIC_EOI (if irq \<ge> 8 then send PIC_SLAVE_COMMAND PIC_EOI s else s)"

text \<open>
  The masks are built with an \<open>int\<close> shift, \<open>1 << irq\<close>, and cut to 16 bits; a shift by 32 or more
  has no meaning in C and is not modelled (the kernel only passes IRQ numbers below 16).
\<close>

definition irq_bit :: "u8 \<Rightarrow> u16" where
  "irq_bit irq = ucast (push_bit (unat irq) (1 :: 32 word))"

definition write_mask :: "u8 \<Rightarrow> pic \<Rightarrow> pic" where
  "write_mask irq s =
     (if irq < 8 then send PIC_MASTER_DATA (ucast (g_curmask s AND 0xFF)) s
      else send PIC_SLAVE_DATA (ucast (drop_bit 8 (g_curmask s) AND 0xFF)) s)"

definition pic_mask :: "u8 \<Rightarrow> pic \<Rightarrow> pic" where
  "pic_mask irq s = write_mask irq (s\<lparr>g_curmask := g_curmask s OR irq_bit irq\<rparr>)"

definition pic_unmask :: "u8 \<Rightarrow> pic \<Rightarrow> pic" where
  "pic_unmask irq s = write_mask irq (pause (s\<lparr>g_curmask := g_curmask s AND NOT (irq_bit irq)\<rparr>))"


section \<open>The kernel's copy and the controllers agree\<close>

definition pic_inv :: "pic \<Rightarrow> bool" where
  "pic_inv s \<longleftrightarrow>
     last_written PIC_MASTER_DATA (written (port_io s)) = Some (ucast (g_curmask s)) \<and>
     last_written PIC_SLAVE_DATA (written (port_io s)) = Some (ucast (drop_bit 8 (g_curmask s)))"

definition masked :: "pic \<Rightarrow> u8 \<Rightarrow> bool" where
  "masked s irq \<longleftrightarrow> bit (g_curmask s) (unat irq)"

lemma send_simps [simp]:
  "g_curmask (send p v s) = g_curmask s" "written (port_io (send p v s)) = written (port_io s) @ [(p, v)]"
  by (simp_all add: send_def)

lemma pause_simps [simp]:
  "g_curmask (pause s) = g_curmask s" "written (port_io (pause s)) = written (port_io s) @ [(0x80, 0)]"
  by (simp_all add: pause_def)

lemma low_byte: "(ucast (w AND 0xFF) :: u8) = ucast (w :: u16)"
proof (rule bit_word_eqI)
  fix n :: nat assume n: "n < LENGTH(8)"
  have m: "(0xFF :: u16) = mask 8" by (simp add: mask_eq_exp_minus_1)
  show "bit (ucast (w AND 0xFF) :: u8) n \<longleftrightarrow> bit (ucast w :: u8) n"
    unfolding m using n by (simp add: bit_simps)
qed

lemma irq_bit_bit: "unat irq < 16 \<Longrightarrow> bit (irq_bit irq) n \<longleftrightarrow> n = unat irq"
  by (auto simp: irq_bit_def bit_simps bit_1_iff)

text \<open>Changing one bit leaves the other controller's byte alone.\<close>

lemma write_mask_inv:
  assumes inv: "pic_inv s" and same: "\<And>n. n \<noteq> unat irq \<Longrightarrow> bit m n = bit (g_curmask s) n" and irq: "irq < 16"
    and ws: "written (port_io t) = written (port_io s) @ xs" "\<And>x. x \<in> set xs \<Longrightarrow> fst x = 0x80" and m: "g_curmask t = m"
  shows "pic_inv (write_mask irq t)" "g_curmask (write_mask irq t) = m"
proof -
  have keep: "last_written p (written (port_io t)) = last_written p (written (port_io s))" if "p \<noteq> 0x80" for p
    unfolding ws(1) using ws(2) that
  proof (induction xs rule: rev_induct)
    case (snoc x xs)
    moreover have "fst x = 0x80" using snoc.prems(1) by simp
    ultimately show ?case by (cases x) (simp add: append_assoc [symmetric] del: append_assoc)
  qed simp
  have hi: "(ucast (drop_bit 8 m) :: u8) = ucast (drop_bit 8 (g_curmask s))" if "irq < 8"
    using that by (intro bit_word_eqI) (auto simp: bit_simps same word_less_nat_alt)
  have lo: "(ucast m :: u8) = ucast (g_curmask s)" if "\<not> irq < 8"
    using that by (intro bit_word_eqI) (auto simp: bit_simps same word_less_nat_alt)
  show "g_curmask (write_mask irq t) = m"
    using m by (simp add: write_mask_def)
  show "pic_inv (write_mask irq t)"
    using inv keep hi lo m by (simp add: pic_inv_def write_mask_def low_byte pic_consts)
qed

lemma pic_init_inv: "pic_inv (pic_init t)"
proof -
  obtain ws where "written (port_io (pic_init t)) = ws @ [(0x21, 0xFF)] @ [(0xA1, 0xFF)]" "g_curmask (pic_init t) = 0xFFFF"
    by (simp add: pic_init_def pic_maskall_def Let_def pic_consts)
  then show ?thesis
    by (simp add: pic_inv_def pic_consts last_written_def)
qed

text \<open>
  C37: Masking or unmasking an IRQ line below 16 keeps the two mask registers of the controllers
  equal to the kernel's copy of them and changes the state of that line only; after initialisation
  the registers agree with the copy and every line is masked.
\<close>

theorem pic_mask_correct:
  assumes "pic_inv s" and "irq < 16"
  shows "pic_inv (pic_mask irq s) \<and> pic_inv (pic_unmask irq s) \<and>
    (\<forall>j < 16. masked (pic_mask irq s) j \<longleftrightarrow> j = irq \<or> masked s j) \<and>
    (\<forall>j < 16. masked (pic_unmask irq s) j \<longleftrightarrow> j \<noteq> irq \<and> masked s j) \<and>
    pic_inv (pic_init t) \<and> (\<forall>j < 16. masked (pic_init t) j)"
proof -
  have b: "unat irq < 16" using assms(2) by (simp add: word_less_nat_alt)
  note bit = irq_bit_bit [OF b]
  let ?m = "g_curmask s OR irq_bit irq" and ?u = "g_curmask s AND NOT (irq_bit irq)"
  have m: "pic_inv (pic_mask irq s)" "g_curmask (pic_mask irq s) = ?m"
    unfolding pic_mask_def
    by (rule write_mask_inv [OF assms(1) _ assms(2), where xs = "[]"]; simp add: bit_or_iff bit)+
  have u: "pic_inv (pic_unmask irq s)" "g_curmask (pic_unmask irq s) = ?u"
    unfolding pic_unmask_def
    by (rule write_mask_inv [OF assms(1) _ assms(2), where xs = "[(0x80, 0)]"];
        auto simp: bit_and_iff bit_not_iff bit dest: bit_imp_le_length)+
  have eq: "unat j = unat irq \<longleftrightarrow> j = irq" for j :: u8
    by (simp add: word_unat_eq_iff)
  have "pic_inv (pic_init t)" by (rule pic_init_inv)
  moreover have "masked (pic_init t) j" if "j < 16" for j
  proof -
    have "unat j < 16" using that by (simp add: word_less_nat_alt)
    moreover have m: "(0xFFFF :: u16) = mask 16" by (simp add: mask_eq_exp_minus_1)
    have "bit (0xFFFF :: u16) n" if "n < 16" for n
      unfolding m using that by (simp add: bit_mask_iff)
    ultimately show ?thesis
      by (simp add: masked_def pic_init_def pic_maskall_def Let_def)
  qed
  moreover have "masked (pic_unmask irq s) j \<longleftrightarrow> j \<noteq> irq \<and> masked s j" if "j < 16" for j
    using that by (auto simp: masked_def u(2) bit_and_iff bit_not_iff bit eq word_less_nat_alt)
  ultimately show ?thesis
    using m u by (auto simp: masked_def bit_or_iff bit eq)
qed

theorem pic_mask_correct_witness:
  "masked (pic_mask 3 (pic_unmask 3 (pic_init \<lparr>port_io = \<lparr>written = [], reads = 0, answer = \<lambda>_ _ _. 0\<rparr>, g_curmask = 0\<rparr>))) 3 \<and>
   \<not> masked (pic_unmask 3 (pic_init \<lparr>port_io = \<lparr>written = [], reads = 0, answer = \<lambda>_ _ _. 0\<rparr>, g_curmask = 0\<rparr>)) 3"
proof -
  let ?t = "\<lparr>port_io = \<lparr>written = [], reads = 0, answer = \<lambda>_ _ _. 0\<rparr>, g_curmask = 0\<rparr>"
  have "pic_inv (pic_init ?t)" by (rule pic_init_inv)
  with pic_mask_correct [of "pic_init ?t" 3] pic_mask_correct [of "pic_unmask 3 (pic_init ?t)" 3]
  show ?thesis by simp
qed

end
