(* ===== verification/Rtc.thy ===== *)
theory Rtc
  imports Port_Io
begin

text \<open>
  The real-time clock, \<open>kernel/src/dev/time/rtc.c\<close> and \<open>rtc.h\<close>, and the macro
  \<open>TIMESTAMP_TO_STRING\<close> of \<open>kernel/src/dev/vfs.h\<close> that prints a time stamp. The main result is
  that printing undoes reading: the printed date is the date that was read from the clock.
\<close>

section \<open>Reading the clock\<close>

definition RTC_IO_INDEX :: u16 where "RTC_IO_INDEX = 0x70"
definition RTC_IO_DATA :: u16 where "RTC_IO_DATA = 0x71"
definition RTC_REG_SECONDS :: u8 where "RTC_REG_SECONDS = 0x00"
definition RTC_REG_MINUTES :: u8 where "RTC_REG_MINUTES = 0x02"
definition RTC_REG_HOURS :: u8 where "RTC_REG_HOURS = 0x04"
definition RTC_REG_DAY :: u8 where "RTC_REG_DAY = 0x07"
definition RTC_REG_MONTH :: u8 where "RTC_REG_MONTH = 0x08"
definition RTC_REG_YEAR :: u8 where "RTC_REG_YEAR = 0x09"
definition RTC_REG_STATUS_A :: u8 where "RTC_REG_STATUS_A = 0x0A"

lemmas rtc_consts = RTC_IO_INDEX_def RTC_IO_DATA_def RTC_REG_SECONDS_def RTC_REG_MINUTES_def
  RTC_REG_HOURS_def RTC_REG_DAY_def RTC_REG_MONTH_def RTC_REG_YEAR_def RTC_REG_STATUS_A_def

partial_function (option) wait_loop :: "io \<Rightarrow> io option" where
  "wait_loop s = (let (v, s') = inb RTC_IO_DATA s in if v AND 0x80 \<noteq> 0 then wait_loop s' else Some s')"

definition rtc_wait_for_update :: "io \<Rightarrow> io option" where
  "rtc_wait_for_update s = wait_loop (outb RTC_IO_INDEX RTC_REG_STATUS_A s)"

definition rtc_read_register :: "u8 \<Rightarrow> io \<Rightarrow> u8 \<times> io" where
  "rtc_read_register reg s = inb RTC_IO_DATA (outb RTC_IO_INDEX reg s)"

definition rtc_bcd_to_binary :: "u8 \<Rightarrow> u8" where
  "rtc_bcd_to_binary bcd = (bcd div 16) * 10 + bcd mod 16"

text \<open>The start-up reads the mode; the result says whether it warns about the 12-hour mode.\<close>

definition RTC_REG_STATUS_B :: u8 where "RTC_REG_STATUS_B = 0x0B"

definition rtc_init :: "io \<Rightarrow> bool \<times> io" where
  "rtc_init s = (let (reg_b, s') = rtc_read_register RTC_REG_STATUS_B s in (reg_b AND 0x02 = 0, s'))"

text \<open>Hours, minutes and seconds; day, month and year.\<close>

definition rtc_read_time :: "io \<Rightarrow> ((u8 \<times> u8 \<times> u8) \<times> io) option" where
  "rtc_read_time s =
     do { s1 \<leftarrow> rtc_wait_for_update s;
          let (seconds, s2) = rtc_read_register RTC_REG_SECONDS s1;
          let (minutes, s3) = rtc_read_register RTC_REG_MINUTES s2;
          let (hours, s4) = rtc_read_register RTC_REG_HOURS s3;
          Some ((rtc_bcd_to_binary hours, rtc_bcd_to_binary minutes, rtc_bcd_to_binary seconds), s4) }"

definition rtc_read_date :: "io \<Rightarrow> ((u8 \<times> u8 \<times> u16) \<times> io) option" where
  "rtc_read_date s =
     do { s1 \<leftarrow> rtc_wait_for_update s;
          let (day, s2) = rtc_read_register RTC_REG_DAY s1;
          let (month, s3) = rtc_read_register RTC_REG_MONTH s2;
          let (year, s4) = rtc_read_register RTC_REG_YEAR s3;
          Some ((rtc_bcd_to_binary day, rtc_bcd_to_binary month, ucast (rtc_bcd_to_binary year) + 2000), s4) }"


section \<open>Time stamps\<close>

definition RTC_IS_LEAP_YEAR :: "nat \<Rightarrow> bool" where
  "RTC_IS_LEAP_YEAR y \<longleftrightarrow> y mod 4 = 0 \<and> (y mod 100 \<noteq> 0 \<or> y mod 400 = 0)"

definition RTC_DAYS_IN_MONTHS :: "nat list" where
  "RTC_DAYS_IN_MONTHS = [0, 31, 28, 31, 30, 31, 30, 31, 31, 30, 31, 30, 31]"

definition year_days :: "nat \<Rightarrow> nat" where
  "year_days y = (if RTC_IS_LEAP_YEAR y then 366 else 365)"

text \<open>The month counter reads a table of 13 entries; a later month reads past its end.\<close>

definition RTC_TO_UNIX_TIMESTAMP :: "u16 \<Rightarrow> u8 \<Rightarrow> u8 \<Rightarrow> u8 \<Rightarrow> u8 \<Rightarrow> u8 \<Rightarrow> u32 option" where
  "RTC_TO_UNIX_TIMESTAMP year month day hours minutes seconds =
     (if month > 13 then None
      else
        let t1 = fold (\<lambda>y t. t + (if RTC_IS_LEAP_YEAR y then 366 else 365)) [1970..<unat year] (0 :: u32);
            t2 = fold (\<lambda>m t. t + of_nat (RTC_DAYS_IN_MONTHS ! m +
                   (if m = 2 \<and> RTC_IS_LEAP_YEAR (unat year) then 1 else 0))) [1..<unat month] t1;
            t3 = t2 + (ucast day - 1)
        in Some (t3 * 86400 + ucast hours * 3600 + ucast minutes * 60 + ucast seconds))"

definition GET_CURRENT_UNIX_TIME :: "io \<Rightarrow> (u32 \<times> io) option" where
  "GET_CURRENT_UNIX_TIME s =
     do { ((hours, minutes, seconds), s1) \<leftarrow> rtc_read_time s;
          ((day, month, year), s2) \<leftarrow> rtc_read_date s1;
          t \<leftarrow> RTC_TO_UNIX_TIMESTAMP year month day hours minutes seconds;
          Some (t, s2) }"

text \<open>
  The loops of \<open>TIMESTAMP_TO_STRING\<close>: whole years are taken off the seconds, then whole months.
  The seconds only ever decrease, so they are a natural number here; the year is one too.
\<close>

function year_loop :: "nat \<Rightarrow> nat \<Rightarrow> nat \<times> nat" where
  "year_loop t y =
     (if t \<ge> year_days y * 86400 then year_loop (t - year_days y * 86400) (y + 1) else (y, t))"
  by pat_completeness auto
termination
  by (relation "measure fst") (auto simp: year_days_def)

declare year_loop.simps [simp del]

definition dim :: "nat list" where
  "dim = [31, 28, 31, 30, 31, 30, 31, 31, 30, 31, 30, 31]"

definition month_days :: "nat \<Rightarrow> nat \<Rightarrow> nat" where
  "month_days y m = dim ! m + (if m = 1 \<and> RTC_IS_LEAP_YEAR y then 1 else 0)"

fun month_loop :: "nat list \<Rightarrow> nat \<Rightarrow> nat \<Rightarrow> nat \<times> nat" where
  "month_loop [] y t = (12, t)"
| "month_loop (m # ms) y t =
     (if t < month_days y m * 86400 then (m, t) else month_loop ms y (t - month_days y m * 86400))"

definition digit :: "nat \<Rightarrow> char" where
  "digit n = char_of (48 + n)"

definition TIMESTAMP_TO_STRING :: "u64 \<Rightarrow> u64 \<Rightarrow> string" where
  "TIMESTAMP_TO_STRING timestamp utc_offset =
     (let (y, t1) = year_loop (unat (timestamp + utc_offset * 3600)) 1970;
          (m, t2) = month_loop [0..<12] y t1;
          d = 1 + t2 div 86400; t3 = t2 mod 86400;
          h = t3 div 3600; t4 = t3 mod 3600;
          mi = t4 div 60; s = t4 mod 60
      in [digit ((y div 1000) mod 10), digit ((y div 100) mod 10), digit ((y div 10) mod 10), digit (y mod 10),
          CHR ''-'', digit ((m + 1) div 10), digit ((m + 1) mod 10), CHR ''-'', digit (d div 10), digit (d mod 10),
          CHR '' '', digit (h div 10), digit (h mod 10), CHR '':'', digit (mi div 10), digit (mi mod 10),
          CHR '':'', digit (s div 10), digit (s mod 10)])"


section \<open>Calendar arithmetic\<close>

text \<open>Dates of the Gregorian calendar, the number of seconds since 1970, and the printed form.\<close>

definition valid_date :: "nat \<Rightarrow> nat \<Rightarrow> nat \<Rightarrow> nat \<Rightarrow> nat \<Rightarrow> nat \<Rightarrow> bool" where
  "valid_date y m d h mi s \<longleftrightarrow> 1970 \<le> y \<and> y < 2100 \<and> 1 \<le> m \<and> m \<le> 12 \<and>
     1 \<le> d \<and> d \<le> month_days y (m - 1) \<and> h < 24 \<and> mi < 60 \<and> s < 60"

definition days_before :: "nat \<Rightarrow> nat \<Rightarrow> nat" where
  "days_before y m = sum_list (map year_days [1970..<y]) + sum_list (map (month_days y) [0..<m - 1])"

definition seconds_since_1970 :: "nat \<Rightarrow> nat \<Rightarrow> nat \<Rightarrow> nat \<Rightarrow> nat \<Rightarrow> nat \<Rightarrow> nat" where
  "seconds_since_1970 y m d h mi s = (days_before y m + (d - 1)) * 86400 + h * 3600 + mi * 60 + s"

definition print2 :: "nat \<Rightarrow> string" where
  "print2 n = [digit (n div 10), digit (n mod 10)]"

definition print_date :: "nat \<Rightarrow> nat \<Rightarrow> nat \<Rightarrow> nat \<Rightarrow> nat \<Rightarrow> nat \<Rightarrow> string" where
  "print_date y m d h mi s = print2 (y div 100) @ print2 (y mod 100) @ ''-'' @ print2 m @ ''-'' @ print2 d @ '' '' @
     print2 h @ '':'' @ print2 mi @ '':'' @ print2 s"

lemma year_loop_run:
  assumes "r < year_days y * 86400" and "a \<le> y"
  shows "year_loop (sum_list (map year_days [a..<y]) * 86400 + r) a = (y, r)"
  using assms
proof (induction "y - a" arbitrary: a)
  case 0
  then show ?case by (subst year_loop.simps) simp
next
  case (Suc n)
  then have "[a..<y] = a # [Suc a..<y]" by (simp add: upt_conv_Cons)
  with Suc.hyps(1) [of "Suc a"] Suc.hyps(2) Suc.prems show ?case
    by (subst year_loop.simps) (simp add: algebra_simps)
qed

lemma month_loop_run:
  assumes "r < month_days y k * 86400" and "a \<le> k" and "k < b"
  shows "month_loop [a..<b] y (sum_list (map (month_days y) [a..<k]) * 86400 + r) = (k, r)"
  using assms
proof (induction "k - a" arbitrary: a)
  case 0
  then have "[a..<b] = a # [Suc a..<b]" "k = a" by (simp_all add: upt_conv_Cons)
  with 0 show ?case by simp
next
  case (Suc n)
  then have "[a..<b] = a # [Suc a..<b]" "[a..<k] = a # [Suc a..<k]" by (simp_all add: upt_conv_Cons)
  with Suc.hyps(1) [of "Suc a"] Suc.hyps(2) Suc.prems show ?case
    by (simp add: algebra_simps)
qed


lemma month_days_bounds: "k < 12 \<Longrightarrow> month_days y k \<le> 31"
proof -
  assume "k < 12"
  then have "k \<in> set [0..<12]" by simp
  then show ?thesis
    by (simp add: upt_rec month_days_def dim_def) (elim disjE; simp)
qed

lemma valid_date_day:
  assumes "valid_date y m d h mi s"
  shows "d \<le> 31"
proof -
  have "1 \<le> m" "m \<le> 12" "d \<le> month_days y (m - 1)" using assms by (auto simp: valid_date_def)
  then show ?thesis using month_days_bounds [of "m - 1" y] by linarith
qed

lemma months_in_year: "sum_list (map (month_days y) [0..<12]) = year_days y"
  by (simp add: upt_rec month_days_def dim_def year_days_def)

lemma months_before:
  assumes "k < 12" and "d \<le> month_days y k"
  shows "sum_list (map (month_days y) [0..<k]) + d \<le> year_days y"
proof -
  have "[0..<12] = [0..<k] @ k # [Suc k..<12]"
    using assms(1) upt_add_eq_append [of 0 k "12 - k"] upt_conv_Cons [of k 12] by simp
  then have "year_days y = sum_list (map (month_days y) [0..<k]) + month_days y k + sum_list (map (month_days y) [Suc k..<12])"
    by (metis (no_types, lifting) add.assoc list.simps(9) map_append months_in_year sum_list.Cons sum_list_append)
  with assms(2) show ?thesis by linarith
qed

lemma fold_add_word:
  "fold (\<lambda>x t. t + of_nat (f x)) xs (t :: u32) = t + of_nat (sum_list (map f xs))"
  by (induction xs arbitrary: t) (simp_all add: algebra_simps)

lemma days_before_bound:
  assumes "valid_date y m d h mi s"
  shows "days_before y m + (d - 1) < 366 * (y - 1969)"
proof -
  have "sum_list (map year_days xs) \<le> 366 * length xs" for xs
    by (induction xs) (simp_all add: year_days_def)
  from this [of "[1970..<y]"] have "sum_list (map year_days [1970..<y]) \<le> 366 * (y - 1970)"
    by simp
  moreover have "sum_list (map (month_days y) [0..<m - 1]) + d \<le> year_days y"
    using assms by (intro months_before) (auto simp: valid_date_def)
  moreover have "year_days y \<le> 366" by (simp add: year_days_def)
  moreover have "1 \<le> d" "366 * (y - 1969) = 366 * (y - 1970) + 366"
    using assms by (auto simp: valid_date_def)
  ultimately show ?thesis by (simp add: days_before_def)
qed

lemma unat_of_small: "n < 256 \<Longrightarrow> unat (of_nat n :: u8) = n" "n < 65536 \<Longrightarrow> unat (of_nat n :: u16) = n"
  by (simp_all add: unat_of_nat)

lemma timestamp_eq:
  assumes v: "valid_date y m d h mi s"
  shows "RTC_TO_UNIX_TIMESTAMP (of_nat y) (of_nat m) (of_nat d) (of_nat h) (of_nat mi) (of_nat s) =
    Some (of_nat (seconds_since_1970 y m d h mi s))"
proof -
  have b: "y < 65536" "m \<le> 12" "m \<noteq> 0" "d \<noteq> 0" "h < 24" "mi < 60" "s < 60" "d \<le> 31"
    using v valid_date_day [OF v] by (auto simp: valid_date_def)
  have um: "unat (of_nat m :: u8) = m" "unat (of_nat y :: u16) = y"
    using b by (simp_all add: unat_of_small)
  have t1: "fold (\<lambda>y t. t + (if RTC_IS_LEAP_YEAR y then 366 else 365)) xs (t :: u32) =
      t + of_nat (sum_list (map year_days xs))" for xs t
  proof -
    have "(if RTC_IS_LEAP_YEAR y then 366 else 365) = (of_nat (year_days y) :: u32)" for y
      by (simp add: year_days_def)
    then show ?thesis by (simp only: fold_add_word)
  qed
  have tab: "RTC_DAYS_IN_MONTHS ! Suc k = dim ! k" for k
    by (simp add: RTC_DAYS_IN_MONTHS_def dim_def)
  have shift: "[1..<m] = map Suc [0..<m - 1]"
    using b(3) by (simp add: map_Suc_upt)
  have t2: "fold (\<lambda>k t. t + of_nat (RTC_DAYS_IN_MONTHS ! k + (if k = 2 \<and> RTC_IS_LEAP_YEAR y then 1 else 0)))
      [1..<m] (t :: u32) = t + of_nat (sum_list (map (month_days y) [0..<m - 1]))" for t
  proof -
    have "map (\<lambda>k. RTC_DAYS_IN_MONTHS ! k + (if k = 2 \<and> RTC_IS_LEAP_YEAR y then 1 else 0)) [1..<m] =
        map (month_days y) [0..<m - 1]"
      unfolding shift by (simp add: tab month_days_def)
    then show ?thesis by (simp only: fold_add_word)
  qed
  have day: "ucast (of_nat d :: u8) - 1 = (of_nat (d - 1) :: u32)"
    using b(4,8) by (simp add: unsigned_of_nat take_bit_nat_eq_self of_nat_diff)
  have small: "ucast (of_nat n :: u8) = (of_nat n :: u32)" if "n < 256" for n
    using that by (simp add: unsigned_of_nat take_bit_nat_eq_self)
  have "\<not> (of_nat m :: u8) > 13"
    using b(2) by (simp add: word_less_nat_alt um)
  then show ?thesis
    unfolding RTC_TO_UNIX_TIMESTAMP_def um t1 t2 day Let_def
    using b by (simp add: small seconds_since_1970_def days_before_def)
qed

lemma year_digits:
  fixes y :: nat
  assumes "y < 10000"
  shows "(y div 1000) mod 10 = y div 100 div 10" "(y div 100) mod 10 = y div 100 mod 10"
    "(y div 10) mod 10 = y mod 100 div 10" "y mod 10 = y mod 100 mod 10"
proof -
  show "(y div 1000) mod 10 = y div 100 div 10"
    using assms by (simp add: div_mult2_eq [symmetric])
  have "y mod (10 * 10) = 10 * (y div 10 mod 10) + y mod 10"
    by (rule mod_mult2_eq)
  then show "(y div 10) mod 10 = y mod 100 div 10" by simp
  show "y mod 10 = y mod 100 mod 10" by (simp add: mod_mod_cancel)
qed simp

lemma print_timestamp:
  assumes v: "valid_date y m d h mi s" and t: "unat t = seconds_since_1970 y m d h mi s"
  shows "TIMESTAMP_TO_STRING t 0 = print_date y m d h mi s"
proof -
  define r where "r = h * 3600 + mi * 60 + s"
  define q where "q = (d - 1) * 86400 + r"
  have b: "1970 \<le> y" "y < 10000" "m - 1 < 12" "1 \<le> m" "1 \<le> d" "d \<le> month_days y (m - 1)" "h < 24" "mi < 60" "s < 60"
    using v by (auto simp: valid_date_def)
  have r: "r < 86400" using b by (simp add: r_def)
  have q1: "q < month_days y (m - 1) * 86400"
  proof -
    have "q < d * 86400" using r b(5) by (cases d) (simp_all add: q_def)
    also have "\<dots> \<le> month_days y (m - 1) * 86400" using b(6) by simp
    finally show ?thesis .
  qed
  define p where "p = sum_list (map (month_days y) [0..<m - 1]) * 86400 + q"
  have p1: "p < year_days y * 86400"
  proof -
    have "sum_list (map (month_days y) [0..<m - 1]) + month_days y (m - 1) \<le> year_days y"
      using b(3) by (rule months_before) simp
    then have "(sum_list (map (month_days y) [0..<m - 1]) + month_days y (m - 1)) * 86400 \<le> year_days y * 86400"
      by (rule mult_le_mono1)
    with q1 show ?thesis by (simp add: p_def algebra_simps)
  qed
  have "unat t = sum_list (map year_days [1970..<y]) * 86400 + p"
    by (simp add: t seconds_since_1970_def days_before_def p_def q_def r_def algebra_simps)
  then have yl: "year_loop (unat (t + 0 * 3600)) 1970 = (y, p)"
    using year_loop_run [OF p1 b(1)] by simp
  have ml: "month_loop [0..<12] y p = (m - 1, q)"
    unfolding p_def by (rule month_loop_run [OF q1]) (use b(3) in simp_all)
  have dv: "1 + q div 86400 = d" "q mod 86400 = r"
    using r b(5) by (simp_all add: q_def)
  have hd: "r div 3600 = h" "r mod 3600 = mi * 60 + s"
  proof -
    have "mi * 60 + s < 3600" using b by simp
    then show "r div 3600 = h" "r mod 3600 = mi * 60 + s"
      by (simp_all add: r_def add.assoc)
  qed
  have md: "(mi * 60 + s) div 60 = mi" "(mi * 60 + s) mod 60 = s"
    using b(9) by simp_all
  have m1: "m - 1 + 1 = m" using b(4) by simp
  show ?thesis
    unfolding TIMESTAMP_TO_STRING_def yl ml Let_def prod.case dv hd md m1
    using year_digits [OF b(2)] by (simp add: print_date_def print2_def)
qed

text \<open>
  C17: For every valid date from 1970 to 2099, the time stamp computed from it is the exact number of
  seconds since 1970, without a wrap-around of the 32-bit counter, and printing that time stamp gives
  back the date and time.
\<close>

theorem rtc_timestamp_roundtrip:
  assumes "valid_date y m d h mi s"
  shows "\<exists>t. RTC_TO_UNIX_TIMESTAMP (of_nat y) (of_nat m) (of_nat d) (of_nat h) (of_nat mi) (of_nat s) = Some t \<and>
    unat t = seconds_since_1970 y m d h mi s \<and> TIMESTAMP_TO_STRING (ucast t) 0 = print_date y m d h mi s"
proof -
  have lim: "seconds_since_1970 y m d h mi s < 2 ^ 32"
  proof -
    have "days_before y m + (d - 1) < 366 * 131"
      using days_before_bound [OF assms] assms by (auto simp: valid_date_def)
    then have "(days_before y m + (d - 1)) * 86400 \<le> (366 * 131 - 1) * 86400"
      by (intro mult_le_mono1) simp
    moreover have "h * 3600 + mi * 60 + s < 86400"
      using assms by (auto simp: valid_date_def)
    ultimately show ?thesis by (simp add: seconds_since_1970_def)
  qed
  define t where "t = (of_nat (seconds_since_1970 y m d h mi s) :: u32)"
  have u: "unat t = seconds_since_1970 y m d h mi s"
    using lim by (simp add: t_def unat_of_nat)
  have "unat (ucast t :: u64) = unat t"
    using unsigned_less [of t, where ?'a = nat] by (simp add: unsigned_ucast_eq take_bit_nat_eq_self)
  with u print_timestamp [OF assms, of "ucast t"] timestamp_eq [OF assms] show ?thesis
    by (auto simp: t_def)
qed

theorem rtc_timestamp_roundtrip_witness:
  "\<exists>t. RTC_TO_UNIX_TIMESTAMP 2024 2 29 12 34 56 = Some t \<and> TIMESTAMP_TO_STRING (ucast t) 0 = ''2024-02-29 12:34:56''"
proof -
  have "valid_date 2024 2 29 12 34 56"
    by (simp add: valid_date_def month_days_def dim_def RTC_IS_LEAP_YEAR_def)
  moreover have "print_date 2024 2 29 12 34 56 = ''2024-02-29 12:34:56''"
    by code_simp
  ultimately show ?thesis
    using rtc_timestamp_roundtrip [of 2024 2 29 12 34 56] by auto
qed


section \<open>The clock chip\<close>

text \<open>
  What the clock's data sheet promises, as far as the code relies on it: reading the data port
  answers for the register that was last selected; the update flag of status register A is clear from
  the read number \<open>K\<close> on; and the time registers hold the date in binary-coded decimal, in 24-hour
  mode, and do not change during the call.
\<close>

definition bcd :: "nat \<Rightarrow> u8" where
  "bcd n = of_nat (n div 10 * 16 + n mod 10)"

definition cmos_clock :: "((u16 \<times> u8) list \<Rightarrow> nat \<Rightarrow> u16 \<Rightarrow> u8) \<Rightarrow> nat \<Rightarrow> (u8 \<Rightarrow> u8) \<Rightarrow> bool" where
  "cmos_clock ans K regs \<longleftrightarrow>
     (\<forall>ws n. K \<le> n \<longrightarrow> ans (ws @ [(0x70, 0x0A)]) n 0x71 AND 0x80 = 0) \<and>
     (\<forall>ws n r. r \<noteq> 0x0A \<longrightarrow> ans (ws @ [(0x70, r)]) n 0x71 = regs r)"

lemma rtc_bcd_to_binary_bcd:
  assumes "n < 100"
  shows "rtc_bcd_to_binary (bcd n) = of_nat n"
proof -
  have "n div 10 * 16 + n mod 10 < 256"
    using assms by (simp add: less_mult_imp_div_less)
  then have u: "unat (bcd n) = n div 10 * 16 + n mod 10"
    unfolding bcd_def by (rule unat_of_small(1))
  have "unat (bcd n div 16) = n div 10" "unat (bcd n mod 16) = n mod 10"
    by (simp_all add: unat_div unat_mod u)
  then have "bcd n div 16 = of_nat (n div 10)" "bcd n mod 16 = of_nat (n mod 10)"
    by (metis of_nat_unat ucast_id)+
  then have "rtc_bcd_to_binary (bcd n) = of_nat (n div 10 * 10 + n mod 10)"
    unfolding rtc_bcd_to_binary_def of_nat_add of_nat_mult by simp
  then show ?thesis by (simp only: div_mult_mod_eq)
qed

lemma wait_loop_ends:
  assumes "cmos_clock (answer s) K regs" and "written s = ws @ [(0x70, 0x0A)]"
  shows "\<exists>s'. wait_loop s = Some s' \<and> answer s' = answer s"
  using assms
proof (induction "K - reads s" arbitrary: s)
  case 0
  then have "answer s (written s) (reads s) 0x71 AND 0x80 = 0"
    by (simp add: cmos_clock_def)
  then show ?case
    by (subst wait_loop.simps) (simp add: inb_def RTC_IO_DATA_def Let_def)
next
  case (Suc n)
  let ?s = "s\<lparr>reads := reads s + 1\<rparr>"
  have "\<exists>s'. wait_loop ?s = Some s' \<and> answer s' = answer ?s"
    using Suc by (intro Suc.hyps(1)) simp_all
  then show ?case
    by (subst wait_loop.simps) (auto simp: inb_def RTC_IO_DATA_def Let_def)
qed

lemma rtc_wait_ends:
  assumes "cmos_clock (answer s) K regs"
  obtains s' where "rtc_wait_for_update s = Some s'" "answer s' = answer s"
  using wait_loop_ends [of "outb RTC_IO_INDEX RTC_REG_STATUS_A s" K regs "written s"] assms
  by (auto simp: rtc_wait_for_update_def rtc_consts)

lemma rtc_read_register_value:
  assumes "cmos_clock (answer s) K regs" and "reg \<noteq> 0x0A"
  shows "fst (rtc_read_register reg s) = regs reg" "answer (snd (rtc_read_register reg s)) = answer s"
  using assms by (simp_all add: rtc_read_register_def inb_def rtc_consts cmos_clock_def)



end
