(* ===== verification/Input.thy ===== *)
theory Input
  imports Pic
begin

text \<open>
  The PS/2 controller and keyboard, \<open>kernel/src/dev/input/ps2.c\<close> and \<open>keyboard.c\<close>: the start-up
  sequences and the one-byte buffer between the interrupt handler and the readers of the device. The
  loops that poll the status port do not end if the controller never gets ready.
\<close>

section \<open>Polling\<close>

definition PS2_IO_DATA :: u16 where "PS2_IO_DATA = 0x60"
definition PS2_IO_STATUS :: u16 where "PS2_IO_STATUS = 0x64"
definition PS2_IO_COMMAND :: u16 where "PS2_IO_COMMAND = PS2_IO_STATUS"
definition PS2_STATUS_OUTPUT_FULL :: u8 where "PS2_STATUS_OUTPUT_FULL = 1"
definition PS2_STATUS_INPUT_FULL :: u8 where "PS2_STATUS_INPUT_FULL = 2"
definition PS2_CMD_READ_CONFIG :: u8 where "PS2_CMD_READ_CONFIG = 0x20"
definition PS2_CMD_WRITE_CONFIG :: u8 where "PS2_CMD_WRITE_CONFIG = 0x60"
definition PS2_CMD_DISABLE_SECOND_PORT :: u8 where "PS2_CMD_DISABLE_SECOND_PORT = 0xA7"
definition PS2_CMD_ENABLE_SECOND_PORT :: u8 where "PS2_CMD_ENABLE_SECOND_PORT = 0xA8"
definition PS2_CMD_TEST_CONTROLLER :: u8 where "PS2_CMD_TEST_CONTROLLER = 0xAA"
definition PS2_CMD_DISABLE_FIRST_PORT :: u8 where "PS2_CMD_DISABLE_FIRST_PORT = 0xAD"
definition PS2_CMD_ENABLE_FIRST_PORT :: u8 where "PS2_CMD_ENABLE_FIRST_PORT = 0xAE"
definition PS2_CONFIG_FIRST_PORT_INT :: u8 where "PS2_CONFIG_FIRST_PORT_INT = 0x01"
definition PS2_CONFIG_SECOND_PORT_INT :: u8 where "PS2_CONFIG_SECOND_PORT_INT = 0x02"
definition PS2_CONFIG_FIRST_PORT_CLK :: u8 where "PS2_CONFIG_FIRST_PORT_CLK = 0x10"
definition PS2_CONFIG_SECOND_PORT_CLK :: u8 where "PS2_CONFIG_SECOND_PORT_CLK = 0x20"

definition KBD_ACK :: u8 where "KBD_ACK = 0xFA"
definition KBD_CMD_ENABLE_SCANNING :: u8 where "KBD_CMD_ENABLE_SCANNING = 0xF4"
definition KBD_CMD_RESET :: u8 where "KBD_CMD_RESET = 0xFF"

lemmas ps2_consts = PS2_IO_DATA_def PS2_IO_STATUS_def PS2_IO_COMMAND_def PS2_STATUS_OUTPUT_FULL_def
  PS2_STATUS_INPUT_FULL_def PS2_CMD_READ_CONFIG_def PS2_CMD_WRITE_CONFIG_def PS2_CMD_DISABLE_SECOND_PORT_def
  PS2_CMD_ENABLE_SECOND_PORT_def PS2_CMD_TEST_CONTROLLER_def PS2_CMD_DISABLE_FIRST_PORT_def
  PS2_CMD_ENABLE_FIRST_PORT_def PS2_CONFIG_FIRST_PORT_INT_def PS2_CONFIG_SECOND_PORT_INT_def
  PS2_CONFIG_FIRST_PORT_CLK_def PS2_CONFIG_SECOND_PORT_CLK_def

partial_function (option) wait_for_write :: "io \<Rightarrow> io option" where
  "wait_for_write s =
     (let (v, s') = inb PS2_IO_STATUS s in
      if v AND PS2_STATUS_INPUT_FULL \<noteq> 0 then wait_for_write s' else Some s')"

partial_function (option) wait_for_read :: "io \<Rightarrow> io option" where
  "wait_for_read s =
     (let (v, s') = inb PS2_IO_STATUS s in
      if v AND PS2_STATUS_OUTPUT_FULL = 0 then wait_for_read s' else Some s')"

partial_function (option) flush_output :: "io \<Rightarrow> io option" where
  "flush_output s =
     (let (v, s') = inb PS2_IO_STATUS s in
      if v AND PS2_STATUS_OUTPUT_FULL \<noteq> 0 then flush_output (snd (inb PS2_IO_DATA s')) else Some s')"

definition ps2_send :: "u16 \<Rightarrow> u8 \<Rightarrow> io \<Rightarrow> io option" where
  "ps2_send port value s = do { s' \<leftarrow> wait_for_write s; Some (outb port value s') }"

definition ps2_receive :: "io \<Rightarrow> (u8 \<times> io) option" where
  "ps2_receive s = do { s' \<leftarrow> wait_for_read s; Some (inb PS2_IO_DATA s') }"


section \<open>The controller\<close>

text \<open>The configuration byte that the start-up computes from the one it has read.\<close>

definition has_second_port :: "u8 \<Rightarrow> bool" where
  "has_second_port conf \<longleftrightarrow> conf AND PS2_CONFIG_SECOND_PORT_CLK = 0"

definition new_config :: "u8 \<Rightarrow> u8" where
  "new_config conf =
     (let c1 = conf AND NOT (PS2_CONFIG_FIRST_PORT_CLK OR PS2_CONFIG_SECOND_PORT_CLK);
          c2 = c1 OR PS2_CONFIG_FIRST_PORT_INT
      in if has_second_port conf then c2 OR PS2_CONFIG_SECOND_PORT_INT else c2)"

definition ps2_init :: "io \<Rightarrow> io option" where
  "ps2_init s =
     do {
       s1 \<leftarrow> ps2_send PS2_IO_COMMAND PS2_CMD_DISABLE_FIRST_PORT s;
       s2 \<leftarrow> ps2_send PS2_IO_COMMAND PS2_CMD_DISABLE_SECOND_PORT s1;
       s3 \<leftarrow> flush_output s2;
       s4 \<leftarrow> ps2_send PS2_IO_COMMAND PS2_CMD_TEST_CONTROLLER s3;
       (test_result, s5) \<leftarrow> ps2_receive s4;
       if test_result \<noteq> 0x55 then Some s5
       else do {
         s6 \<leftarrow> ps2_send PS2_IO_COMMAND PS2_CMD_ENABLE_SECOND_PORT s5;
         s7 \<leftarrow> ps2_send PS2_IO_COMMAND PS2_CMD_READ_CONFIG s6;
         (conf, s8) \<leftarrow> ps2_receive s7;
         s9 \<leftarrow> (if has_second_port conf then Some s8
               else ps2_send PS2_IO_COMMAND PS2_CMD_DISABLE_SECOND_PORT s8);
         s10 \<leftarrow> ps2_send PS2_IO_COMMAND PS2_CMD_WRITE_CONFIG s9;
         s11 \<leftarrow> ps2_send PS2_IO_DATA (new_config conf) s10;
         s12 \<leftarrow> ps2_send PS2_IO_COMMAND PS2_CMD_ENABLE_FIRST_PORT s11;
         if has_second_port conf
         then ps2_send PS2_IO_COMMAND PS2_CMD_ENABLE_SECOND_PORT s12
         else Some s12 } }"


section \<open>The keyboard\<close>

record kbd =
  kbd_pic :: pic
  last_scancode :: u8
  has_scancode :: bool

definition on_io :: "(io \<Rightarrow> ('a \<times> io) option) \<Rightarrow> kbd \<Rightarrow> ('a \<times> kbd) option" where
  "on_io f s =
     do { (a, i) \<leftarrow> f (port_io (kbd_pic s)); Some (a, s\<lparr>kbd_pic := (kbd_pic s)\<lparr>port_io := i\<rparr>\<rparr>) }"

definition kbd_read_scancode :: "kbd \<Rightarrow> (u8 \<times> kbd) option" where
  "kbd_read_scancode = on_io ps2_receive"

definition kbd_send_command :: "u8 \<Rightarrow> kbd \<Rightarrow> (unit \<times> kbd) option" where
  "kbd_send_command command = on_io (\<lambda>i. do { i' \<leftarrow> ps2_send PS2_IO_DATA command i; Some ((), i') })"

definition kbd_handler :: "kbd \<Rightarrow> kbd option" where
  "kbd_handler s =
     do {
       (scancode, s1) \<leftarrow> kbd_read_scancode s;
       let s2 = (if scancode = KBD_ACK then s1\<lparr>last_scancode := 0, has_scancode := False\<rparr>
                 else s1\<lparr>last_scancode := scancode, has_scancode := True\<rparr>);
       Some (s2\<lparr>kbd_pic := pic_eoi 1 (kbd_pic s2)\<rparr>) }"

text \<open>The device's read and write functions; \<open>out\<close> is the address the byte goes to.\<close>

definition kbd_read :: "u64 \<Rightarrow> u64 \<Rightarrow> kbd \<Rightarrow> mem \<Rightarrow> 32 word \<times> kbd \<times> mem" where
  "kbd_read out sz s m =
     (if has_scancode s
      then if sz \<ge> 1 then (1, s\<lparr>has_scancode := False\<rparr>, m(out := last_scancode s)) else (1, s, m)
      else (-1, s, m))"

definition kbd_write :: "u64 \<Rightarrow> u64 \<Rightarrow> kbd \<Rightarrow> mem \<Rightarrow> 32 word \<times> kbd \<times> mem" where
  "kbd_write buf sz s m = (-1, s, m)"


section \<open>Properties\<close>

lemma wait_for_read_ends:
  assumes "\<And>n. K \<le> n \<Longrightarrow> answer s (written s) n PS2_IO_STATUS AND PS2_STATUS_OUTPUT_FULL \<noteq> 0"
  shows "\<exists>n. wait_for_read s = Some (s\<lparr>reads := n\<rparr>)"
  using assms
proof (induction "K - reads s" arbitrary: s)
  case 0
  then have "answer s (written s) (reads s) PS2_IO_STATUS AND PS2_STATUS_OUTPUT_FULL \<noteq> 0" by simp
  then have "wait_for_read s = Some (s\<lparr>reads := reads s + 1\<rparr>)"
    by (subst wait_for_read.simps) (simp add: inb_def Let_def)
  then show ?case by blast
next
  case (Suc d)
  let ?s = "s\<lparr>reads := reads s + 1\<rparr>"
  have "\<exists>n. wait_for_read ?s = Some (?s\<lparr>reads := n\<rparr>)"
    by (rule Suc.hyps(1)) (use Suc in simp_all)
  then obtain n where n: "wait_for_read ?s = Some (s\<lparr>reads := n\<rparr>)" by auto
  have "wait_for_read s = Some (s\<lparr>reads := n\<rparr>) \<or> wait_for_read s = Some (s\<lparr>reads := reads s + 1\<rparr>)"
    using n by (subst (1 2) wait_for_read.simps) (auto simp: inb_def Let_def)
  then show ?case by blast
qed



end
