(* ===== verification/Interrupts.thy ===== *)
theory Interrupts
  imports Input Syscall
begin

text \<open>
  The descriptor tables and the way of an interrupt through the kernel: the interrupt table and the
  handlers of \<open>kernel/src/sys/intr.c\<close>, the assembly stub of \<open>intr.S\<close> that builds the
  \<open>register_ctx\<close> frame, the timer of \<open>kernel/src/dev/timer/pit.c\<close>, and the segment table with
  the task state segment of \<open>kernel/src/sys/gdt.c\<close>.

  The addresses of the stubs, of the global \<open>tss\<close> and of the interrupted program are parameters.
\<close>

section \<open>The interrupt table\<close>

record idt_entry =
  off_low :: u16
  sel :: u16
  ist :: u8
  attr :: u8
  off_mid :: u16
  off_high :: u32
  zero :: u32

datatype handler = idt_default_interrupt_handler | handle_syscall | handle_kbd | handle_pit

record idt =
  idt_descriptor :: "idt_entry list"
  real_handlers :: "handler option list"

definition IDT_INTERRUPT_GATE :: u8 where "IDT_INTERRUPT_GATE = 0x8E"
definition IDT_TRAP_GATE :: u8 where "IDT_TRAP_GATE = 0x8F"
definition IDT_IRQ_BASE :: u64 where "IDT_IRQ_BASE = 0x20"
definition GDT_ACCESS_RING3 :: u8 where "GDT_ACCESS_RING3 = 0x60"

definition gate :: "u64 \<Rightarrow> u8 \<Rightarrow> idt_entry" where
  "gate base flags =
     \<lparr>off_low = ucast (base AND 0xFFFF), sel = 8, ist = 0, attr = flags,
      off_mid = ucast (drop_bit 16 base AND 0xFFFF), off_high = ucast (drop_bit 32 base AND 0xFFFFFFFF), zero = 0\<rparr>"

definition SET_GATE :: "nat \<Rightarrow> u64 \<Rightarrow> u8 \<Rightarrow> idt \<Rightarrow> idt" where
  "SET_GATE interrupt base flags t = t\<lparr>idt_descriptor := (idt_descriptor t)[interrupt := gate base flags]\<rparr>"

definition set_handler :: "nat \<Rightarrow> handler \<Rightarrow> idt \<Rightarrow> idt" where
  "set_handler v h t = t\<lparr>real_handlers := (real_handlers t)[v := Some h]\<rparr>"

definition idt_init :: "(nat \<Rightarrow> u64) \<Rightarrow> idt \<Rightarrow> idt" where
  "idt_init stubs t =
     (let t1 = fold (\<lambda>i t. set_handler i idt_default_interrupt_handler (SET_GATE i (stubs i) IDT_TRAP_GATE t)) [0..<32] t;
          t2 = fold (\<lambda>i. SET_GATE i (stubs i) IDT_INTERRUPT_GATE) [32..<256] t1;
          t3 = SET_GATE 0x80 (stubs 0x80) (IDT_INTERRUPT_GATE OR GDT_ACCESS_RING3) t2
      in set_handler 0x80 handle_syscall t3)"

text \<open>A vector of 256 or more is outside the table.\<close>

definition idt_register_handler :: "u64 \<Rightarrow> handler \<Rightarrow> idt \<Rightarrow> (i32 \<times> idt) option" where
  "idt_register_handler vec h t =
     (if unat vec \<ge> length (real_handlers t) then None
      else if real_handlers t ! unat vec \<noteq> Some idt_default_interrupt_handler
      then Some (0, set_handler (unat vec) h t)
      else Some (1, t))"


section \<open>The machine\<close>

record machine =
  kern :: kernel
  keyboard :: kbd
  table :: idt

definition on_pic :: "(pic \<Rightarrow> pic) \<Rightarrow> machine \<Rightarrow> machine" where
  "on_pic f m = m\<lparr>keyboard := (keyboard m)\<lparr>kbd_pic := f (kbd_pic (keyboard m))\<rparr>\<rparr>"

definition register_handler :: "u64 \<Rightarrow> handler \<Rightarrow> machine \<Rightarrow> machine option" where
  "register_handler vec h m =
     do { (_, t) \<leftarrow> idt_register_handler vec h (table m); Some (m\<lparr>table := t\<rparr>) }"

definition pit_handler :: "machine \<Rightarrow> register_ctx \<Rightarrow> (register_ctx \<times> machine) option" where
  "pit_handler m c =
     do {
       (c', k) \<leftarrow> scheduler_tick (sc (kern m)) c;
       Some (c', on_pic (pic_eoi 0) (m\<lparr>kern := (kern m)\<lparr>sc := k\<rparr>\<rparr>)) }"

definition pit_init :: "machine \<Rightarrow> machine option" where
  "pit_init m =
     do {
       let m1 = on_pic (send 0x43 0x36) m;
       m2 \<leftarrow> register_handler (IDT_IRQ_BASE + 0) handle_pit m1;
       let divisor = (5966 :: u16);
       let m3 = on_pic (send 0x40 (ucast (divisor AND 0xFF))) m2;
       let m4 = on_pic (send 0x40 (ucast (drop_bit 8 divisor AND 0xFF))) m3;
       Some (on_pic (pic_unmask 0) m4) }"

definition on_kbd :: "(kbd \<Rightarrow> ('a \<times> kbd) option) \<Rightarrow> machine \<Rightarrow> ('a \<times> machine) option" where
  "on_kbd f m = do { (a, s) \<leftarrow> f (keyboard m); Some (a, m\<lparr>keyboard := s\<rparr>) }"

definition kbd_init :: "machine \<Rightarrow> machine option" where
  "kbd_init m =
     do {
       (_, m1) \<leftarrow> on_kbd (on_io (\<lambda>i. do { i' \<leftarrow> ps2_send PS2_IO_COMMAND PS2_CMD_ENABLE_FIRST_PORT i; Some ((), i') })) m;
       (_, m2) \<leftarrow> on_kbd (kbd_send_command KBD_CMD_RESET) m1;
       (response, m3) \<leftarrow> on_kbd kbd_read_scancode m2;
       (_, m4) \<leftarrow> on_kbd (kbd_send_command KBD_CMD_ENABLE_SCANNING) m3;
       m5 \<leftarrow> register_handler (IDT_IRQ_BASE + 1) handle_kbd m4;
       Some (on_pic (pic_unmask 1) m5) }"

text \<open>
  What the handlers do. \<open>idt_default_interrupt_handler\<close> ends in \<open>kpanic\<close>, which stops the machine;
  so does a call through an empty slot.
\<close>

definition run_handler :: "machine \<Rightarrow> handler option \<Rightarrow> register_ctx \<Rightarrow> (register_ctx \<times> machine) option" where
  "run_handler m h c =
     (case h of
        None \<Rightarrow> None
      | Some idt_default_interrupt_handler \<Rightarrow> None
      | Some handle_syscall \<Rightarrow>
          do { (c', k) \<leftarrow> syscall_handler (kern m) c; Some (c', m\<lparr>kern := k\<rparr>) }
      | Some handle_kbd \<Rightarrow>
          do { s \<leftarrow> kbd_handler (keyboard m); Some (c, m\<lparr>keyboard := s\<rparr>) }
      | Some handle_pit \<Rightarrow> pit_handler m c)"


section \<open>The stub\<close>

text \<open>
  The stack is the list of its 64-bit words, the top (the lowest address) first. The processor
  switches to the kernel stack, pushes five registers and, for some vectors, an error code; the
  entry of the vector pushes a zero where it takes the processor to push none, then the vector.
\<close>

definition stub_expects_error :: "nat \<Rightarrow> bool" where
  "stub_expects_error v \<longleftrightarrow> v \<in> {8, 10, 11, 12, 13, 14, 17, 30}"

definition cpu_push :: "register_ctx \<Rightarrow> u64 option \<Rightarrow> u64 list \<Rightarrow> u64 list" where
  "cpu_push c e stack =
     (case e of None \<Rightarrow> [] | Some code \<Rightarrow> [code]) @ [rip c, cs c, rflags c, rsp c, ss c] @ stack"

definition isr_entry :: "nat \<Rightarrow> register_ctx \<Rightarrow> u64 list \<Rightarrow> u64 list" where
  "isr_entry v c stack =
     (let s1 = (if stub_expects_error v then stack else 0 # stack);
          s2 = of_nat v # s1
      in fold (#) [rax c, rbx c, rcx c, rdx c, rbp c, rdi c, rsi c, r8 c, r9 c, r10 c, r11 c, r12 c, r13 c, r14 c, r15 c,
                   cr0 c, cr2 c, reg_cr3 c, cr4 c, ds c, es c] s2)"

text \<open>The struct \<open>register_ctx\<close> as it lies in memory, and the words of a stack that starts with one.\<close>

definition ctx_words :: "register_ctx \<Rightarrow> u64 list" where
  "ctx_words c =
     [es c, ds c, cr4 c, reg_cr3 c, cr2 c, cr0 c, r15 c, r14 c, r13 c, r12 c, r11 c, r10 c, r9 c, r8 c,
      rsi c, rdi c, rbp c, rdx c, rcx c, rbx c, rax c, vector c, err c, rip c, cs c, rflags c, rsp c, ss c]"

definition ctx_at :: "u64 list \<Rightarrow> register_ctx" where
  "ctx_at w =
     \<lparr>es = w ! 0, ds = w ! 1, cr4 = w ! 2, reg_cr3 = w ! 3, cr2 = w ! 4, cr0 = w ! 5, r15 = w ! 6, r14 = w ! 7,
      r13 = w ! 8, r12 = w ! 9, r11 = w ! 10, r10 = w ! 11, r9 = w ! 12, r8 = w ! 13, rsi = w ! 14, rdi = w ! 15,
      rbp = w ! 16, rdx = w ! 17, rcx = w ! 18, rbx = w ! 19, rax = w ! 20, vector = w ! 21, err = w ! 22,
      rip = w ! 23, cs = w ! 24, rflags = w ! 25, rsp = w ! 26, ss = w ! 27\<rparr>"

text \<open>
  The way back: six words are skipped, fifteen registers popped, two words skipped, then \<open>iretq\<close>.
  The segment and control registers are left alone; the page table that a handler may have switched
  to is \<open>cr3\<close> of the memory manager's state.
\<close>

definition isr_exit :: "register_ctx \<Rightarrow> u64 list \<Rightarrow> register_ctx" where
  "isr_exit c stack =
     (let w = drop 6 stack; v = drop 17 w
      in c\<lparr>r15 := w ! 0, r14 := w ! 1, r13 := w ! 2, r12 := w ! 3, r11 := w ! 4, r10 := w ! 5, r9 := w ! 6,
           r8 := w ! 7, rsi := w ! 8, rdi := w ! 9, rbp := w ! 10, rdx := w ! 11, rcx := w ! 12, rbx := w ! 13,
           rax := w ! 14, rip := v ! 0, cs := v ! 1, rflags := v ! 2, rsp := v ! 3, ss := v ! 4\<rparr>)"

text \<open>The whole interrupt; the handler is chosen by the word at offset 168 of the frame.\<close>

definition interrupt :: "nat \<Rightarrow> u64 option \<Rightarrow> machine \<Rightarrow> register_ctx \<Rightarrow> u64 list \<Rightarrow> (register_ctx \<times> machine) option" where
  "interrupt v e m c stack =
     (let frame = isr_entry v c (cpu_push c e stack);
          h = unat (frame ! (168 div 8))
      in do {
           (c', m') \<leftarrow> run_handler m (if h < length (real_handlers (table m)) then real_handlers (table m) ! h else None)
                         (ctx_at frame);
           Some (isr_exit c (ctx_words c' @ drop 28 frame), m') })"


section \<open>The segment table and the task state segment\<close>

record gdt_entry =
  limit_low :: u16
  base_low :: u16
  base_middle :: u8
  access :: u8
  granularity :: u8
  base_high :: u8

record gdt_system_entry = gdt_entry +
  base_upper :: u32
  reserved :: u32

record tss_entry =
  rsp0 :: u64
  io_map_base :: u16

definition GDT_KERNEL_CODE :: u8 where "GDT_KERNEL_CODE = 0x80 OR 0x00 OR 0x18 OR 0x08 OR 0x02"
definition GDT_KERNEL_DATA :: u8 where "GDT_KERNEL_DATA = 0x80 OR 0x00 OR 0x10 OR 0x02"
definition GDT_USER_CODE :: u8 where "GDT_USER_CODE = 0x80 OR GDT_ACCESS_RING3 OR 0x18 OR 0x08 OR 0x02"
definition GDT_USER_DATA :: u8 where "GDT_USER_DATA = 0x80 OR GDT_ACCESS_RING3 OR 0x10 OR 0x02"
definition GDT_TSS :: u8 where "GDT_TSS = 0xE9"
definition GDT_GRANULARITY_LONG_MODE :: u8 where "GDT_GRANULARITY_LONG_MODE = 0x20"
definition GDT_GRANULARITY_FLAT :: u8 where "GDT_GRANULARITY_FLAT = 0x80 OR GDT_GRANULARITY_LONG_MODE"

lemmas gdt_consts = GDT_KERNEL_CODE_def GDT_KERNEL_DATA_def GDT_USER_CODE_def GDT_USER_DATA_def GDT_TSS_def
  GDT_GRANULARITY_LONG_MODE_def GDT_GRANULARITY_FLAT_def GDT_ACCESS_RING3_def

text \<open>The packed structs as bytes, least significant byte first.\<close>

definition le16 :: "u16 \<Rightarrow> u8 list" where
  "le16 x = [ucast x, ucast (drop_bit 8 x)]"

definition le32 :: "u32 \<Rightarrow> u8 list" where
  "le32 x = [ucast x, ucast (drop_bit 8 x), ucast (drop_bit 16 x), ucast (drop_bit 24 x)]"

definition entry_bytes :: "'a gdt_entry_scheme \<Rightarrow> u8 list" where
  "entry_bytes e = le16 (limit_low e) @ le16 (base_low e) @ [base_middle e, access e, granularity e, base_high e]"

definition system_entry_bytes :: "gdt_system_entry \<Rightarrow> u8 list" where
  "system_entry_bytes e = entry_bytes e @ le32 (base_upper e) @ le32 (reserved e)"

text \<open>\<open>gdt\<close> is the array of seven 8-byte entries; \<open>write_bytes\<close> stores into it.\<close>

record gdt =
  gdt_bytes :: "u8 list"
  gdt_limit :: u16
  tss :: tss_entry

definition write_bytes :: "nat \<Rightarrow> u8 list \<Rightarrow> u8 list \<Rightarrow> u8 list" where
  "write_bytes a bs g = take a g @ bs @ drop (a + length bs) g"

definition set_entry :: "nat \<Rightarrow> u8 \<Rightarrow> u8 \<Rightarrow> gdt \<Rightarrow> gdt" where
  "set_entry i acc gran s =
     s\<lparr>gdt_bytes := write_bytes (8 * i) (entry_bytes \<lparr>limit_low = 0, base_low = 0, base_middle = 0,
        access = acc, granularity = gran, base_high = 0\<rparr>) (gdt_bytes s)\<rparr>"

definition gdt_init :: "gdt \<Rightarrow> gdt" where
  "gdt_init s =
     (let s0 = set_entry 0 0 0 s;
          s1 = set_entry 1 GDT_KERNEL_CODE GDT_GRANULARITY_FLAT s0;
          s2 = set_entry 2 GDT_KERNEL_DATA GDT_GRANULARITY_FLAT s1;
          s3 = set_entry 3 GDT_USER_CODE GDT_GRANULARITY_LONG_MODE s2;
          s4 = set_entry 4 GDT_USER_DATA 0 s3
      in s4\<lparr>gdt_limit := 7 * 8 - 1\<rparr>)"

definition TSS_SIZE :: u32 where "TSS_SIZE = 4 + 12 * 8 + 2 + 2"

definition tss_descriptor :: "u64 \<Rightarrow> u32 \<Rightarrow> gdt_system_entry" where
  "tss_descriptor base limit =
     \<lparr>limit_low = ucast (limit AND 0xFFFF), base_low = ucast (base AND 0xFFFF),
      base_middle = ucast (drop_bit 16 base AND 0xFF), access = GDT_TSS,
      granularity = ucast (drop_bit 16 limit AND 0x0F), base_high = ucast (drop_bit 24 base AND 0xFF),
      base_upper = ucast (drop_bit 32 base), reserved = 0\<rparr>"

text \<open>\<open>base\<close> is the address of the global \<open>tss\<close>; the fields that stay zero after the \<open>memset\<close> are left out.\<close>

definition tss_init :: "u64 \<Rightarrow> u64 \<Rightarrow> gdt \<Rightarrow> gdt" where
  "tss_init base stack s =
     (let s1 = s\<lparr>tss := \<lparr>rsp0 = stack, io_map_base = ucast TSS_SIZE\<rparr>\<rparr>;
          limit = TSS_SIZE - 1
      in s1\<lparr>gdt_bytes := write_bytes (8 * 5) (system_entry_bytes (tss_descriptor base limit)) (gdt_bytes s1)\<rparr>)"


section \<open>Properties\<close>

subsection \<open>The interrupt table\<close>

text \<open>How the processor reads a gate.\<close>

definition gate_offset :: "idt_entry \<Rightarrow> u64" where
  "gate_offset g = ucast (off_low g) OR push_bit 16 (ucast (off_mid g)) OR push_bit 32 (ucast (off_high g))"

definition gate_dpl :: "idt_entry \<Rightarrow> u8" where
  "gate_dpl g = drop_bit 5 (attr g) AND 3"

lemma split_16_16_32:
  "ucast (ucast (base AND 0xFFFF) :: u16) OR push_bit 16 (ucast (ucast (drop_bit 16 base AND 0xFFFF) :: u16)) OR
     push_bit 32 (ucast (ucast (drop_bit 32 base AND 0xFFFFFFFF) :: u32)) = (base :: u64)"
proof -
  have m: "(0xFFFF :: u64) = mask 16" "(0xFFFFFFFF :: u64) = mask 32"
    by (simp_all add: mask_eq_exp_minus_1)
  show ?thesis
    unfolding m
    apply (rule bit_word_eqI)
    subgoal for n by (cases "n < 16"; cases "n < 32") (auto simp: bit_simps)
    done
qed

lemma gate_simps [simp]:
  "gate_offset (gate base flags) = base" "sel (gate base flags) = 8" "attr (gate base flags) = flags"
  using split_16_16_32 [of base] by (simp_all add: gate_offset_def gate_def)

lemma SET_GATE_simps [simp]:
  "idt_descriptor (SET_GATE i b f t) = (idt_descriptor t)[i := gate b f]"
  "real_handlers (SET_GATE i b f t) = real_handlers t"
  "idt_descriptor (set_handler v h t) = idt_descriptor t"
  "real_handlers (set_handler v h t) = (real_handlers t)[v := Some h]"
  by (simp_all add: SET_GATE_def set_handler_def)

lemma fold_gates:
  "idt_descriptor (fold (\<lambda>i. SET_GATE i (s i) f) is t) = fold (\<lambda>i g. g[i := gate (s i) f]) is (idt_descriptor t)"
  "real_handlers (fold (\<lambda>i. SET_GATE i (s i) f) is t) = real_handlers t"
  by (induction "is" arbitrary: t) simp_all

lemma fold_handlers:
  "idt_descriptor (fold (\<lambda>i t. set_handler i h (SET_GATE i (s i) f t)) is t)
     = fold (\<lambda>i g. g[i := gate (s i) f]) is (idt_descriptor t)"
  "real_handlers (fold (\<lambda>i t. set_handler i h (SET_GATE i (s i) f t)) is t)
     = fold (\<lambda>i g. g[i := Some h]) is (real_handlers t)"
  by (induction "is" arbitrary: t) simp_all

lemma length_fold_update [simp]: "length (fold (\<lambda>i g. g[i := f i]) is g) = length g"
  by (induction "is" arbitrary: g) simp_all

lemma nth_fold_update:
  "v < length g \<Longrightarrow> fold (\<lambda>i g. g[i := f i]) [a..<b] g ! v = (if a \<le> v \<and> v < b then f v else g ! v)"
  by (induction b) (auto simp: nth_list_update less_Suc_eq)

text \<open>
  C35: After \<open>idt_init\<close> every vector's gate leads, in the kernel's code segment, to that vector's own
  stub; programs in ring 3 may raise \<open>int 0x80\<close> and no other vector; the 32 exceptions go to the
  panic handler, \<open>0x80\<close> to the system call handler, and the other handlers are as before.
\<close>

theorem idt_init_correct:
  assumes "length (idt_descriptor t) = 256" and "length (real_handlers t) = 256" and "v < 256"
  shows "let g = idt_descriptor (idt_init stubs t) ! v in
    gate_offset g = stubs v \<and> sel g = 8 \<and> bit (attr g) 7 \<and> gate_dpl g = (if v = 0x80 then 3 else 0) \<and>
    real_handlers (idt_init stubs t) ! v =
      (if v < 32 then Some idt_default_interrupt_handler
       else if v = 0x80 then Some handle_syscall else real_handlers t ! v)"
proof -
  let ?f = "\<lambda>i. gate (stubs i) IDT_INTERRUPT_GATE" and ?g = "\<lambda>i. gate (stubs i) IDT_TRAP_GATE"
  let ?d = "fold (\<lambda>i g. g[i := ?g i]) [0..<32] (idt_descriptor t)"
  have d: "idt_descriptor (idt_init stubs t) =
      (fold (\<lambda>i g. g[i := ?f i]) [32..<256] ?d)[128 := gate (stubs 128) (IDT_INTERRUPT_GATE OR GDT_ACCESS_RING3)]"
    by (simp add: idt_init_def Let_def fold_gates fold_handlers del: upt.simps fold_simps upt_rec_numeral)
  have h: "real_handlers (idt_init stubs t) =
      (fold (\<lambda>i g. g[i := Some idt_default_interrupt_handler]) [0..<32] (real_handlers t))[128 := Some handle_syscall]"
    by (simp add: idt_init_def Let_def fold_gates fold_handlers del: upt.simps fold_simps upt_rec_numeral)
  have a: "bit (IDT_INTERRUPT_GATE OR GDT_ACCESS_RING3) 7" "bit IDT_INTERRUPT_GATE 7" "bit IDT_TRAP_GATE 7"
    "drop_bit 5 (IDT_INTERRUPT_GATE OR GDT_ACCESS_RING3) AND 3 = 3" "drop_bit 5 IDT_INTERRUPT_GATE AND 3 = 0"
    "drop_bit 5 IDT_TRAP_GATE AND 3 = 0"
    by (simp_all add: IDT_INTERRUPT_GATE_def GDT_ACCESS_RING3_def IDT_TRAP_GATE_def)
  show ?thesis
    unfolding d h using assms a
    by (simp add: Let_def nth_list_update nth_fold_update gate_dpl_def del: upt.simps fold_simps upt_rec_numeral)
qed

theorem idt_init_correct_witness:
  "(let g = idt_descriptor (idt_init (\<lambda>v. 0xFFFFFFFF80001000 + 16 * of_nat v)
        \<lparr>idt_descriptor = replicate 256 (gate 0 0), real_handlers = replicate 256 None\<rparr>) ! 0x80 in
    gate_offset g = 0xFFFFFFFF80001800 \<and> gate_dpl g = 3)"
  using idt_init_correct [of "\<lparr>idt_descriptor = replicate 256 (gate 0 0), real_handlers = replicate 256 None\<rparr>" 128
      "\<lambda>v. 0xFFFFFFFF80001000 + 16 * of_nat v"]
  by (simp add: Let_def)


subsection \<open>The frame\<close>

lemma isr_entry_frame:
  assumes "e = None \<longleftrightarrow> \<not> stub_expects_error v"
  shows "isr_entry v c (cpu_push c e stack) =
    ctx_words (c\<lparr>vector := of_nat v, err := (case e of None \<Rightarrow> 0 | Some x \<Rightarrow> x)\<rparr>) @ stack"
  using assms by (cases e) (simp_all add: isr_entry_def cpu_push_def ctx_words_def)

lemma ctx_at_words [simp]: "ctx_at (ctx_words c @ stack) = c"
  by (simp add: ctx_at_def ctx_words_def)

lemma isr_exit_words [simp]:
  "isr_exit c (ctx_words d @ stack) =
     d\<lparr>es := es c, ds := ds c, cr4 := cr4 c, reg_cr3 := reg_cr3 c, cr2 := cr2 c, cr0 := cr0 c, vector := vector c, err := err c\<rparr>"
  by (simp add: isr_exit_def ctx_words_def Let_def)

lemma frame_vector: "(ctx_words c @ stack) ! (168 div 8) = vector c"
  by (simp add: ctx_words_def)

lemma drop_frame [simp]: "drop 28 (ctx_words c @ stack) = stack"
  by (simp add: ctx_words_def)


definition idle_ctx :: register_ctx where
  "idle_ctx = ctx_at (replicate 28 7)"

definition idle_kbd :: kbd where
  "idle_kbd = \<lparr>kbd_pic = \<lparr>port_io = \<lparr>written = [], reads = 0, answer = \<lambda>_ _ p. if p = 0x60 then 0x1E else 1\<rparr>, g_curmask = 0\<rparr>,
     last_scancode = 0, has_scancode = False\<rparr>"



subsection \<open>The segment table\<close>

text \<open>How the processor reads a system descriptor and the parts of a segment descriptor.\<close>

definition descriptor_base :: "u8 list \<Rightarrow> nat \<Rightarrow> u64" where
  "descriptor_base g i =
     (let b = (\<lambda>k. ucast (g ! (8 * i + k)) :: u64) in
      b 2 OR push_bit 8 (b 3) OR push_bit 16 (b 4) OR push_bit 24 (b 7) OR
      push_bit 32 (b 8) OR push_bit 40 (b 9) OR push_bit 48 (b 10) OR push_bit 56 (b 11))"

definition descriptor_limit :: "u8 list \<Rightarrow> nat \<Rightarrow> u32" where
  "descriptor_limit g i =
     (let b = (\<lambda>k. ucast (g ! (8 * i + k)) :: u32) in b 0 OR push_bit 8 (b 1) OR push_bit 16 (b 6 AND 0xF))"

definition descriptor_access :: "u8 list \<Rightarrow> nat \<Rightarrow> u8" where
  "descriptor_access g i = g ! (8 * i + 5)"

definition descriptor_flags :: "u8 list \<Rightarrow> nat \<Rightarrow> u8" where
  "descriptor_flags g i = drop_bit 4 (g ! (8 * i + 6))"

lemma length_entry_bytes [simp]: "length (entry_bytes e) = 8" "length (system_entry_bytes d) = 16"
  by (simp_all add: entry_bytes_def system_entry_bytes_def le16_def le32_def)

lemma length_write_bytes [simp]:
  "a + length bs \<le> length g \<Longrightarrow> length (write_bytes a bs g) = length g"
  by (simp add: write_bytes_def)

lemma nth_write_bytes:
  "a + length bs \<le> length g \<Longrightarrow> k < length g \<Longrightarrow>
   write_bytes a bs g ! k = (if a \<le> k \<and> k < a + length bs then bs ! (k - a) else g ! k)"
  by (auto simp: write_bytes_def nth_append min_def)

lemma bit_byte_cases:
  assumes "n < LENGTH(64)"
  shows "\<exists>r<8. n = r \<or> n = 8 + r \<or> n = 16 + r \<or> n = 24 + r \<or> n = 32 + r \<or> n = 40 + r \<or> n = 48 + r \<or> n = 56 + (r :: nat)"
proof -
  have "n div 8 < 8"
    using assms by (simp add: div_less_iff_less_mult)
  then have "n div 8 \<in> {0, 1, 2, 3, 4, 5, 6, 7}"
    by auto
  then have "8 * (n div 8) + n mod 8 \<in> (\<lambda>q. 8 * q + n mod 8) ` {0, 1, 2, 3, 4, 5, 6, 7}"
    by (rule imageI)
  then show ?thesis
    by (intro exI [of _ "n mod 8"]) (simp only: mult_div_mod_eq, simp)
qed

lemma byte_join_64:
  fixes base :: u64
  shows "ucast (ucast (ucast (base AND 0xFFFF) :: u16) :: u8) OR
      push_bit 8 (ucast (ucast (drop_bit 8 (ucast (base AND 0xFFFF) :: u16)) :: u8)) OR
      push_bit 16 (ucast (ucast (drop_bit 16 base AND 0xFF) :: u8)) OR
      push_bit 24 (ucast (ucast (drop_bit 24 base AND 0xFF) :: u8)) OR
      push_bit 32 (ucast (ucast (ucast (drop_bit 32 base) :: u32) :: u8)) OR
      push_bit 40 (ucast (ucast (drop_bit 8 (ucast (drop_bit 32 base) :: u32)) :: u8)) OR
      push_bit 48 (ucast (ucast (drop_bit 16 (ucast (drop_bit 32 base) :: u32)) :: u8)) OR
      push_bit 56 (ucast (ucast (drop_bit 24 (ucast (drop_bit 32 base) :: u32)) :: u8)) = base"
proof -
  have m: "(0xFFFF :: u64) = mask 16" "(0xFF :: u64) = mask 8"
    by (simp_all add: mask_eq_exp_minus_1)
  show ?thesis
    unfolding m
    apply (rule bit_word_eqI)
    subgoal for n
      by (drule bit_byte_cases) (elim exE conjE disjE; simp add: bit_simps)
    done
qed

lemma limit_join:
  "ucast (ucast (ucast ((l :: u32) AND 0xFFFF) :: u16) :: u8) OR
     push_bit 8 (ucast (ucast (drop_bit 8 (ucast (l AND 0xFFFF) :: u16)) :: u8)) OR
     push_bit 16 (ucast (ucast (drop_bit 16 l AND 0x0F) :: u8) AND 0xF) = l AND 0xFFFFF"
proof -
  have m: "(0xFFFF :: u32) = mask 16" "(0xF :: u32) = mask 4" "(0xFFFFF :: u32) = mask 20"
    by (simp_all add: mask_eq_exp_minus_1)
  show ?thesis
    unfolding m
    apply (rule bit_word_eqI)
    subgoal for n
      by (cases "n < 8"; cases "n < 16") (auto simp: bit_simps)
    done
qed

lemma gdt_bytes_simps [simp]:
  "gdt_bytes (set_entry i acc gran s) = write_bytes (8 * i) (entry_bytes \<lparr>limit_low = 0, base_low = 0, base_middle = 0,
     access = acc, granularity = gran, base_high = 0\<rparr>) (gdt_bytes s)"
  by (simp add: set_entry_def)

lemma length_gdt_init [simp]: "length (gdt_bytes s) = 56 \<Longrightarrow> length (gdt_bytes (gdt_init s)) = 56"
  by (simp add: gdt_init_def Let_def)

lemma tss_descriptor_bytes:
  assumes "length g = 56" and "k < 16"
  shows "write_bytes 40 (system_entry_bytes d) g ! (40 + k) = system_entry_bytes d ! k"
  using assms by (simp add: nth_write_bytes)

lemma entry_access:
  "entry_bytes \<lparr>limit_low = 0, base_low = 0, base_middle = 0, access = acc, granularity = gran, base_high = 0\<rparr> ! 5 = acc"
  "entry_bytes \<lparr>limit_low = 0, base_low = 0, base_middle = 0, access = acc, granularity = gran, base_high = 0\<rparr> ! 6 = gran"
  by (simp_all add: entry_bytes_def le16_def)

lemma tss_init_bytes:
  assumes "length (gdt_bytes s) = 56"
  shows "descriptor_base (gdt_bytes (tss_init base stack s)) 5 = base"
    and "descriptor_limit (gdt_bytes (tss_init base stack s)) 5 = TSS_SIZE - 1"
    and "descriptor_access (gdt_bytes (tss_init base stack s)) 5 = GDT_TSS"
    and "length (gdt_bytes (tss_init base stack s)) = 56"
    and "k < 40 \<Longrightarrow> gdt_bytes (tss_init base stack s) ! k = gdt_bytes s ! k"
proof -
  let ?d = "tss_descriptor base (TSS_SIZE - 1)"
  have g: "gdt_bytes (tss_init base stack s) = write_bytes 40 (system_entry_bytes ?d) (gdt_bytes s)"
    by (simp add: tss_init_def Let_def)
  have b: "gdt_bytes (tss_init base stack s) ! (40 + k) = system_entry_bytes ?d ! k" if "k < 16" for k
    unfolding g using assms that by (rule tss_descriptor_bytes)
  note bytes = system_entry_bytes_def entry_bytes_def le16_def le32_def tss_descriptor_def nth_Cons_numeral
  show "descriptor_base (gdt_bytes (tss_init base stack s)) 5 = base"
    using byte_join_64 [of base] b [of 2] b [of 3] b [of 4] b [of 7] b [of 8] b [of 9] b [of 10] b [of 11]
    by (simp add: descriptor_base_def Let_def bytes)
  show "descriptor_limit (gdt_bytes (tss_init base stack s)) 5 = TSS_SIZE - 1"
    using limit_join [of "TSS_SIZE - 1"] b [of 0] b [of 1] b [of 6]
    by (simp add: descriptor_limit_def Let_def bytes TSS_SIZE_def)
  show "descriptor_access (gdt_bytes (tss_init base stack s)) 5 = GDT_TSS"
    using b [of 5] by (simp add: descriptor_access_def bytes)
  show "length (gdt_bytes (tss_init base stack s)) = 56"
    unfolding g using assms by simp
  show "k < 40 \<Longrightarrow> gdt_bytes (tss_init base stack s) ! k = gdt_bytes s ! k"
    unfolding g using assms by (simp add: nth_write_bytes)
qed

text \<open>
  C36: After \<open>gdt_init\<close> and \<open>tss_init\<close> the processor finds the task state segment under the selector
  \<open>5 * 8\<close> that \<open>flush_tss\<close> loads: descriptor 5 decodes to the segment's address, limit and type, and
  the stack of ring 0 is the given one. Selectors \<open>0x08\<close> and \<open>0x10\<close> are kernel code and data of
  ring 0, \<open>0x1B\<close> and \<open>0x23\<close>, which \<open>jump_user\<close> loads, user code and data of ring 3.
\<close>

theorem gdt_tss_correct:
  assumes "length (gdt_bytes s) = 56"
  shows "let g = gdt_bytes (tss_init base stack (gdt_init s)) in
    descriptor_base g 5 = base \<and> descriptor_limit g 5 = TSS_SIZE - 1 \<and> descriptor_access g 5 = 0xE9 \<and>
    rsp0 (tss (tss_init base stack (gdt_init s))) = stack \<and>
    map (descriptor_access g) [0x00 div 8, 0x08 div 8, 0x10 div 8, 0x1B div 8, 0x23 div 8] = [0, 0x9A, 0x92, 0xFA, 0xF2] \<and>
    map (descriptor_flags g) [1, 2, 3] = [0xA, 0xA, 2] \<and>
    unat (gdt_limit (tss_init base stack (gdt_init s))) = length g - 1"
proof -
  have e: "length (gdt_bytes (gdt_init s)) = 56"
    using assms by simp
  note t = tss_init_bytes [OF e, where base = base and stack = stack]
  have a: "map (\<lambda>i. gdt_bytes (gdt_init s) ! (8 * i + 5)) [0, 1, 2, 3, 4]
      = [0, GDT_KERNEL_CODE, GDT_KERNEL_DATA, GDT_USER_CODE, GDT_USER_DATA]"
    using assms by (simp add: gdt_init_def Let_def nth_write_bytes entry_access)
  have f: "map (\<lambda>i. gdt_bytes (gdt_init s) ! (8 * i + 6)) [1, 2, 3]
      = [GDT_GRANULARITY_FLAT, GDT_GRANULARITY_FLAT, GDT_GRANULARITY_LONG_MODE]"
    using assms by (simp add: gdt_init_def Let_def nth_write_bytes entry_access)
  have r: "rsp0 (tss (tss_init base stack (gdt_init s))) = stack"
    "gdt_limit (tss_init base stack (gdt_init s)) = 55"
    by (simp_all add: tss_init_def gdt_init_def Let_def)
  show ?thesis
    using a f t(3,4) by (simp add: Let_def r t(1,2) t(5) descriptor_access_def descriptor_flags_def gdt_consts)
qed

theorem gdt_tss_correct_witness:
  "let g = gdt_bytes (tss_init 0xFFFFFFFF80012340 0xFFFF800000100000
       (gdt_init \<lparr>gdt_bytes = replicate 56 0, gdt_limit = 0, tss = \<lparr>rsp0 = 0, io_map_base = 0\<rparr>\<rparr>)) in
     descriptor_base g 5 = 0xFFFFFFFF80012340 \<and> descriptor_limit g 5 = 103"
  using gdt_tss_correct [of "\<lparr>gdt_bytes = replicate 56 0, gdt_limit = 0, tss = \<lparr>rsp0 = 0, io_map_base = 0\<rparr>\<rparr>"
      "0xFFFFFFFF80012340" "0xFFFF800000100000"]
  by (simp add: Let_def TSS_SIZE_def)

end
