(* ===== verification/Address_Space.thy ===== *)
theory Address_Space
  imports Vmm
begin

text \<open>
  Pages in an address space: what the clients of the page allocator and of the page tables need to
  know of both together. A client asks for pages, maps them and writes to them; the lemmas tell which
  memory is its own and that the tables and the free pages are not touched by its writes.
\<close>

section \<open>Pages of an address space\<close>

text \<open>A write outside the tables, the free pages and the allocator's stack.\<close>

lemma data_write:
  assumes inv: "vm_inv s root" and s': "s' = s\<lparr>mem := m\<rparr>"
    and same: "\<And>x. x \<in> owned s root \<union> stack_region s \<Longrightarrow> m x = mem s x"
  shows "vm_inv s' root" "stack_list s' = stack_list s" "same_setup s s'" "tables s' root = tables s root"
    "\<And>v. leaf s' root v = leaf s root v"
proof -
  note vi = vm_invD [OF inv]
  show su: "same_setup s s'" by (simp add: s' same_setup_def)
  have hh: "hhdm_offset s' = hhdm_offset s" "HIGHER_HALF s' = HIGHER_HALF s"
    using su same_setup_simps(4) [OF su] by (simp_all add: same_setup_def)
  have "cache_sound s'"
    using vi(1) by (simp add: s' pmm_inv_def cache_sound_def usable_page_def)
  note pf = pmm_inv_frame [OF vi(1) su _ this]
  show l: "stack_list s' = stack_list s" by (rule pf) (use same in \<open>simp_all add: s'\<close>)
  have pinv: "pmm_inv s'" by (rule pf) (use same in \<open>simp_all add: s'\<close>)
  have keep: "entry_get s' (HIGHER_HALF s p) j = entry_get s (HIGHER_HALF s p) j"
    if "path js" "table_at s root js = Some p" "j < 512" for js p j
    by (rule entry_get_cong [OF hh(1) that(3)]) (use that(1,2) same in \<open>auto simp: s' owned_def tables_def\<close>)
  have tab: "table_at s' root js = table_at s root js" if "path js" for js
    by (rule table_at_change [where K = "\<lambda>_. False", OF hh(1)]) (use keep that in auto)
  show "tables s' root = tables s root" unfolding tables_def using tab by auto
  show "vm_inv s' root" by (rule vm_inv_keep [OF inv pinv su _ tab]) (use l in auto)
  show "leaf s' root v = leaf s root v" for v
    using tab [OF path_3(1), of v] keep [OF path_3(1) _ idx_less(1)]
    by (auto simp: leaf_def hh split: option.split)
qed

text \<open>
  The page of the address \<open>v\<close> is mapped with the given flags to a frame that holds the bytes \<open>f\<close>
  and belongs to the process: it is neither a table nor free.
\<close>

definition page_is :: "pmm \<Rightarrow> u64 \<Rightarrow> u64 \<Rightarrow> u64 \<Rightarrow> (nat \<Rightarrow> u8) \<Rightarrow> bool" where
  "page_is s root v flags f \<longleftrightarrow>
     (\<exists>q. page_aligned q \<and> q < 2 ^ 52 \<and> leaf s root v = q OR flags \<and> page_frame s q \<inter> owned s root = {} \<and>
        (\<forall>j < 4096. mem s (HIGHER_HALF s q + of_nat j) = f j))"

definition loads :: "u64 \<Rightarrow> nat \<Rightarrow> pmm \<Rightarrow> pmm \<Rightarrow> bool" where
  "loads root k s s' \<longleftrightarrow> vm_inv s' root \<and> same_setup s s' \<and> confined root s s' \<and>
     (\<exists>ps. length ps \<le> k \<and> stack_list s = stack_list s' @ ps)"

lemma loads_refl: "vm_inv s root \<Longrightarrow> loads root 0 s s"
  by (simp add: loads_def confined_refl)

lemma loads_trans:
  assumes "loads root k s t" and "loads root l t u"
  shows "loads root (k + l) s u"
proof -
  obtain ps qs where "length ps \<le> k" "stack_list s = stack_list t @ ps"
    "length qs \<le> l" "stack_list t = stack_list u @ qs"
    using assms unfolding loads_def by blast
  then have "length (qs @ ps) \<le> k + l \<and> stack_list s = stack_list u @ qs @ ps"
    by simp
  moreover have "same_setup s u" "confined root s u"
    using assms same_setup_trans confined_trans unfolding loads_def by blast+
  ultimately show ?thesis
    using assms unfolding loads_def by blast
qed

lemma loads_free:
  assumes "loads root k s t" and "k + l \<le> length (stack_list s)"
  shows "l \<le> length (stack_list t)"
proof -
  obtain ps where "length ps \<le> k" "stack_list s = stack_list t @ ps"
    using assms(1) unfolding loads_def by blast
  then have "length (stack_list s) \<le> length (stack_list t) + k" by (simp del: length_stack_list)
  with assms(2) show ?thesis by linarith
qed

lemma loads_outside:
  assumes "loads root k s t" and "R \<inter> owned s root = {}"
  shows "R \<inter> owned t root = {}" "\<And>x. x \<in> R \<Longrightarrow> mem t x = mem s x"
  using assms confined_owned [of root s t] by (auto simp: loads_def confined_def)

lemma page_is_keep:
  assumes "loads root k s t" and "page_is s root v flags f" and "leaf t root v = leaf s root v"
  shows "page_is t root v flags f"
proof -
  obtain q where q: "page_aligned q" "q < 2 ^ 52" "leaf s root v = q OR flags" "page_frame s q \<inter> owned s root = {}"
    "\<And>j. j < 4096 \<Longrightarrow> mem s (HIGHER_HALF s q + of_nat j) = f j"
    using assms(2) unfolding page_is_def by blast
  have su: "same_setup s t" using assms(1) by (simp add: loads_def)
  note lo = loads_outside [OF assms(1) q(4)]
  have "HIGHER_HALF s q + of_nat j \<in> page_frame s q" if "j < 4096" for j
    using that by (simp add: page_frame_def in_region_offset)
  then show ?thesis
    using q lo assms(3) same_setup_simps(1,4) [OF su] unfolding page_is_def by metis
qed

text \<open>In the part of the address space below \<open>2 ^ 48\<close> pages are told apart by their numbers.\<close>

lemma same_page_div:
  assumes "unat v < 2 ^ 48" and "unat w < 2 ^ 48"
  shows "same_page v w \<longleftrightarrow> unat v div 4096 = unat w div 4096"
proof -
  have hi: "\<not> bit x n" if "unat x < 2 ^ 48" "48 \<le> n" for x :: u64 and n
  proof -
    have "take_bit 48 x = x"
      using that(1) by (simp add: take_bit_eq_mod word_unat_eq_iff unat_mod)
    then show ?thesis using that(2) by (metis bit_take_bit_iff not_le)
  qed
  have "same_page v w \<longleftrightarrow> drop_bit 12 v = drop_bit 12 w"
  proof
    assume "same_page v w"
    then show "drop_bit 12 v = drop_bit 12 w"
      unfolding same_page_iff using hi [OF assms(1)] hi [OF assms(2)]
      by (intro bit_word_eqI) (metis bit_drop_bit_eq comp_apply le_add1 not_le)
  next
    assume e: "drop_bit 12 v = drop_bit 12 w"
    have "bit v n = bit w n" if "12 \<le> n" for n
      using arg_cong [OF e, of "\<lambda>x. bit x (n - 12)"] that by (simp add: bit_drop_bit_eq)
    then show "same_page v w" by (simp add: same_page_iff)
  qed
  also have "\<dots> \<longleftrightarrow> unat v div 4096 = unat w div 4096"
    by (simp add: word_unat_eq_iff drop_bit_eq_div unat_div)
  finally show ?thesis .
qed

text \<open>A page that the kernel asks for is its own: it is cleared and no longer free, and it is no table.\<close>

lemma request_private:
  assumes inv: "vm_inv s root" and free: "stack_list s \<noteq> []"
  obtains q s1 where "pmm_request_page s = (q, s1)" "frame_ok s q" "loads root 1 s s1" "\<And>w. leaf s1 root w = leaf s root w"
    "page_frame s q \<subseteq> owned s root" "page_frame s q \<inter> owned s1 root = {}"
    "\<And>x. x \<in> page_frame s q \<Longrightarrow> mem s1 x = 0" "Suc (length (stack_list s1)) = length (stack_list s)"
proof -
  note vi = vm_invD [OF inv]
  from free obtain ps q where l: "stack_list s = ps @ [q]" by (metis rev_exhaust)
  obtain r s1 where req: "pmm_request_page s = (r, s1)" by force
  note rk = request_keeps_tree [OF inv l req]
  have su: "same_setup s s1" by (rule rk)
  have q: "frame_ok s q" "q \<notin> set ps" using vi(1) l by (auto simp: pmm_inv_def)
  have tab: "tables s1 root = tables s root" unfolding tables_def using rk(5) by auto
  have mem: "mem s1 = block_fill (mem s) (HIGHER_HALF s q) 0 4096"
    using request_top [OF vi(1) l] req by (metis Pair_inject)
  then have "mem s1 x = mem s x" if "x \<notin> page_frame s q" for x
    using that by (simp add: block_fill_def page_frame_def region_def)
  then have "confined root s s1"
    using tab l rk(4) by (auto simp: confined_def owned_def)
  then have ld: "loads root 1 s s1" using rk(2,4,8) l by (simp add: loads_def)
  have "page_aligned p \<and> p \<noteq> q" if "p \<in> tables s root \<union> set ps" for p
  proof (cases "p \<in> tables s root")
    case True
    then show ?thesis using vi(4) table_at_aligned [OF vi(2)] l by (auto simp: tables_def)
  next
    case False
    with that have "p \<in> set ps" by simp
    then have "frame_ok s p" "p \<noteq> q" using vi(1) l q(2) by (auto simp: pmm_inv_def)
    then show ?thesis by (simp add: frame_ok_def)
  qed
  then have "page_frame s p \<inter> page_frame s q = {}" if "p \<in> tables s root \<union> set ps" for p
    using page_frame_disjoint q(1) that by (simp add: frame_ok_def)
  then have apart: "page_frame s q \<inter> owned s1 root = {}"
    unfolding owned_def tab rk(4) same_setup_simps(1) [OF su] by blast
  have "leaf s1 root w = leaf s root w" for w
    using rk(5) [OF path_3(1)] rk(6) [OF path_3(1) _ idx_less(1)] same_setup_simps(4) [OF su]
    by (auto simp: leaf_def split: option.split)
  moreover have "mem s1 x = 0" if "x \<in> page_frame s q" for x
    using that by (simp add: mem block_fill_def page_frame_def region_def)
  moreover have "Suc (length (stack_list s1)) = length (stack_list s)" unfolding rk(4) l by simp
  moreover have "page_frame s q \<subseteq> owned s root" using l by (auto simp: owned_def)
  ultimately show ?thesis using that q(1) ld apart req rk(1) by blast
qed

lemma vmm_map_loads:
  assumes inv: "vm_inv s root" and free: "3 \<le> length (stack_list s)"
  shows "loads root 3 s (vmm_map s (HIGHER_HALF s root) v q flags)"
    "leaf (vmm_map s (HIGHER_HALF s root) v q flags) root w = (if same_page w v then q OR flags else leaf s root w)"
  using vmm_map_leaf [OF assms, of v q flags] by (auto simp: loads_def)

lemma fresh_page:
  assumes inv: "vm_inv s root" and free: "4 \<le> length (stack_list s)"
  obtains q s1 where "pmm_request_page s = (q, s1)" "q \<noteq> 0" "page_aligned q" "q < 2 ^ 52"
    "loads root 4 s (vmm_map s1 (HIGHER_HALF s root) v q flags)"
    "\<And>w. leaf (vmm_map s1 (HIGHER_HALF s root) v q flags) root w = (if same_page w v then q OR flags else leaf s root w)"
    "page_frame s q \<subseteq> owned s root" "page_frame s q \<inter> owned (vmm_map s1 (HIGHER_HALF s root) v q flags) root = {}"
    "page_frame s q \<inter> stack_region s = {}"
    "\<And>x. x \<in> page_frame s q \<Longrightarrow> mem (vmm_map s1 (HIGHER_HALF s root) v q flags) x = 0"
proof -
  have "stack_list s \<noteq> []" using free by (auto simp del: length_stack_list)
  from request_private [OF inv this] obtain q s1 where q: "pmm_request_page s = (q, s1)" "frame_ok s q" "loads root 1 s s1"
    "\<And>w. leaf s1 root w = leaf s root w" "page_frame s q \<subseteq> owned s root" "page_frame s q \<inter> owned s1 root = {}"
    "\<And>x. x \<in> page_frame s q \<Longrightarrow> mem s1 x = 0" "Suc (length (stack_list s1)) = length (stack_list s)"
    by metis
  have v1: "vm_inv s1 root" "HIGHER_HALF s1 = HIGHER_HALF s"
    using q(3) same_setup_simps(4) by (auto simp: loads_def)
  have "3 \<le> length (stack_list s1)" using free q(8) by linarith
  note vm = vmm_map_loads [OF v1(1) this, of v q flags, unfolded v1(2)]
  have "loads root 4 s (vmm_map s1 (HIGHER_HALF s root) v q flags)"
    using loads_trans [OF q(3) vm(1)] by simp
  then show ?thesis
    using that [OF q(1)] q(2,4-7) vm(2) loads_outside [OF vm(1) q(6)] by (simp add: frame_ok_def)
qed

end
