(* ===== verification/Elf.thy ===== *)
theory Elf
  imports Address_Space
begin

text \<open>
  The loader of executables, \<open>kernel/src/proc/data/elf.c\<close>. The file lies in the kernel memory; its
  header and its program headers are packed structs that are read from there field by field, every
  time the code does. The pages of a segment come from the physical allocator and are entered in the
  page map of the new process.
\<close>

section \<open>Definitions\<close>

definition load16 :: "mem \<Rightarrow> u64 \<Rightarrow> u16" where
  "load16 m a = ucast (m a) OR push_bit 8 (ucast (m (a + 1)))"

definition load32 :: "mem \<Rightarrow> u64 \<Rightarrow> u32" where
  "load32 m a = ucast (m a) OR push_bit 8 (ucast (m (a + 1))) OR
     push_bit 16 (ucast (m (a + 2))) OR push_bit 24 (ucast (m (a + 3)))"

definition ELF_MAGIC :: u32 where "ELF_MAGIC = 0x464C457F"
definition PT_LOAD :: u32 where "PT_LOAD = 1"
definition PF_X :: u32 where "PF_X = 0x1"
definition PF_W :: u32 where "PF_W = 0x2"

text \<open>The fields of \<open>elf_header_t\<close> and of \<open>elf_pheader_t\<close> that the loader reads.\<close>

definition e_magic :: "mem \<Rightarrow> u64 \<Rightarrow> u32" where "e_magic m header = load32 m header"
definition e_class :: "mem \<Rightarrow> u64 \<Rightarrow> u8" where "e_class m header = m (header + 4)"
definition e_type :: "mem \<Rightarrow> u64 \<Rightarrow> u16" where "e_type m header = load16 m (header + 16)"
definition e_entry :: "mem \<Rightarrow> u64 \<Rightarrow> u64" where "e_entry m header = load64 m (header + 24)"
definition e_phoff :: "mem \<Rightarrow> u64 \<Rightarrow> u64" where "e_phoff m header = load64 m (header + 32)"
definition e_phnum :: "mem \<Rightarrow> u64 \<Rightarrow> u16" where "e_phnum m header = load16 m (header + 56)"

definition p_type :: "mem \<Rightarrow> u64 \<Rightarrow> u32" where "p_type m ph = load32 m ph"
definition p_flags :: "mem \<Rightarrow> u64 \<Rightarrow> u32" where "p_flags m ph = load32 m (ph + 4)"
definition p_offset :: "mem \<Rightarrow> u64 \<Rightarrow> u64" where "p_offset m ph = load64 m (ph + 8)"
definition p_vaddr :: "mem \<Rightarrow> u64 \<Rightarrow> u64" where "p_vaddr m ph = load64 m (ph + 16)"
definition p_filesz :: "mem \<Rightarrow> u64 \<Rightarrow> u64" where "p_filesz m ph = load64 m (ph + 32)"
definition p_memsz :: "mem \<Rightarrow> u64 \<Rightarrow> u64" where "p_memsz m ph = load64 m (ph + 40)"

text \<open>\<open>&ph[i]\<close>: a program header has 56 bytes.\<close>

definition pheader :: "u64 \<Rightarrow> u16 \<Rightarrow> u64" where
  "pheader ph i = ph + 56 * ucast i"

text \<open>
  One page of a segment: get a page, map it, clear it and copy the part of the file that belongs to
  it. The result is \<open>False\<close> when there was no page.
\<close>

definition load_page :: "u64 \<Rightarrow> u64 \<Rightarrow> u64 \<Rightarrow> u64 \<Rightarrow> u64 \<Rightarrow> u64 \<Rightarrow> u64 \<Rightarrow> u64 \<Rightarrow> pmm \<Rightarrow> bool \<times> pmm" where
  "load_page data pagemap ph vaddr_start offset flags page_offset vaddr s =
     (let (phys, s1) = pmm_request_page s in
      if phys = 0 then (False, s1)
      else
        let s2 = vmm_map s1 pagemap vaddr phys flags;
            s3 = s2\<lparr>mem := memset (mem s2) (HIGHER_HALF s2 phys) 0 PAGE_SIZE\<rparr>;
            file_page_offset = offset + (vaddr - vaddr_start);
            file_data_end = offset + p_filesz (mem s3) ph
        in
        if file_page_offset < file_data_end
        then
          let bytes_from_start = vaddr - vaddr_start;
              page_data_offset = (if bytes_from_start = 0 \<and> page_offset > 0 then page_offset else 0);
              copy_offset = file_page_offset;
              copy_size0 = PAGE_SIZE - page_data_offset;
              copy_size = (if copy_offset + copy_size0 > file_data_end
                           then file_data_end - copy_offset else copy_size0)
          in (True,
              if copy_size > 0
              then s3\<lparr>mem := memcpy (mem s3) (HIGHER_HALF s3 phys + page_data_offset) (data + copy_offset) copy_size\<rparr>
              else s3)
        else (True, s3))"

partial_function (option) load_pages ::
    "u64 \<Rightarrow> u64 \<Rightarrow> u64 \<Rightarrow> u64 \<Rightarrow> u64 \<Rightarrow> u64 \<Rightarrow> u64 \<Rightarrow> u64 \<Rightarrow> u64 \<Rightarrow> pmm \<Rightarrow> (bool \<times> pmm) option" where
  "load_pages data pagemap ph vaddr_start offset flags page_offset vaddr_end vaddr s =
     (if vaddr < vaddr_end
      then
        let (full, s') = load_page data pagemap ph vaddr_start offset flags page_offset vaddr s in
        if full then load_pages data pagemap ph vaddr_start offset flags page_offset vaddr_end (vaddr + PAGE_SIZE) s'
        else Some (False, s')
      else Some (True, s))"

definition segment_flags :: "u32 \<Rightarrow> u64" where
  "segment_flags pf =
     (let flags0 = VMM_PRESENT;
          flags1 = (if pf AND PF_W \<noteq> 0 then flags0 OR VMM_WRITE else flags0);
          flags2 = (if pf AND PF_X = 0 then flags1 OR VMM_NX else flags1)
      in flags2 OR VMM_USER)"

definition load_segment :: "u64 \<Rightarrow> u64 \<Rightarrow> u64 \<Rightarrow> pmm \<Rightarrow> (bool \<times> pmm) option" where
  "load_segment data pagemap ph s =
     (let m = mem s;
          vaddr_start = ALIGN_DOWN (p_vaddr m ph) PAGE_SIZE;
          vaddr_end = ALIGN_UP (p_vaddr m ph + p_memsz m ph) PAGE_SIZE;
          offset = p_offset m ph;
          flags = segment_flags (p_flags m ph);
          page_offset = p_vaddr m ph AND (PAGE_SIZE - 1)
      in load_pages data pagemap ph vaddr_start offset flags page_offset vaddr_end vaddr_start s)"

partial_function (option) load_segments :: "u64 \<Rightarrow> u64 \<Rightarrow> u64 \<Rightarrow> u16 \<Rightarrow> pmm \<Rightarrow> (bool \<times> pmm) option" where
  "load_segments data pagemap ph i s =
     (if i < e_phnum (mem s) data
      then
        if p_type (mem s) (pheader ph i) \<noteq> PT_LOAD then load_segments data pagemap ph (i + 1) s
        else do {
          (full, s') \<leftarrow> load_segment data pagemap (pheader ph i) s;
          if full then load_segments data pagemap ph (i + 1) s' else Some (False, s') }
      else Some (True, s))"

definition elf_load_binary :: "pmm \<Rightarrow> u64 \<Rightarrow> u64 \<Rightarrow> (u64 \<times> pmm) option" where
  "elf_load_binary s data pagemap =
     (if data = NULL then None
      else if e_magic (mem s) data \<noteq> ELF_MAGIC then Some (0, s)
      else if e_class (mem s) data \<noteq> 2 then Some (0, s)
      else if e_type (mem s) data \<noteq> 2 then Some (0, s)
      else do {
        (full, s') \<leftarrow> load_segments data pagemap (data + e_phoff (mem s) data) 0 s;
        Some (if full then e_entry (mem s') data else 0, s') })"


section \<open>The loader returns\<close>

lemma ALIGN_UP_page: "page_aligned (ALIGN_UP x PAGE_SIZE)"
proof -
  have "unat (a * 4096 :: u64) mod 4096 = 0" for a
    by (simp add: unat_word_ariths mod_mod_cancel)
  then show ?thesis by (simp add: page_aligned_unat ALIGN_UP_def PAGE_SIZE_def)
qed

lemma ALIGN_DOWN_page: "page_aligned (ALIGN_DOWN x PAGE_SIZE)"
  by (simp add: page_aligned_unat unat_ALIGN_DOWN)

text \<open>
  The bound of the page loop is page-aligned, so the address cannot jump over it and wrap around.
\<close>

lemma page_step:
  assumes "page_aligned v" "page_aligned e" "v < e"
  shows "unat (v + PAGE_SIZE) = unat v + 4096" "unat v + 4096 \<le> unat e" "page_aligned (v + PAGE_SIZE)"
proof -
  show le: "unat v + 4096 \<le> unat e"
    by (rule multiple_below) (use assms in \<open>simp_all add: page_aligned_unat word_less_nat_alt\<close>)
  then show u: "unat (v + PAGE_SIZE) = unat v + 4096"
    using unat_lt_64 [of e] by (subst unat_plus_no_wrap) simp_all
  show "page_aligned (v + PAGE_SIZE)"
    using assms(1) by (simp add: page_aligned_unat u)
qed

lemma load_pages_returns:
  assumes "page_aligned v" "page_aligned e"
  shows "load_pages data pagemap ph st off fl po e v s \<noteq> None"
  using assms(1)
proof (induction "unat e - unat v" arbitrary: v s rule: less_induct)
  case less
  show ?case
  proof (cases "v < e")
    case True
    note st = page_step [OF less.prems assms(2) True]
    have "load_pages data pagemap ph st off fl po e (v + PAGE_SIZE) s' \<noteq> None" for s'
      by (rule less.hyps) (use st in simp_all)
    then show ?thesis
      by (subst load_pages.simps) (auto simp: Let_def split: prod.split)
  qed (subst load_pages.simps, simp)
qed

lemma load_segment_returns: "load_segment data pagemap ph s \<noteq> None"
  using load_pages_returns ALIGN_UP_page ALIGN_DOWN_page by (simp add: load_segment_def Let_def)

lemma load_segments_returns: "load_segments data pagemap ph i s \<noteq> None"
proof (induction "65536 - unat i" arbitrary: i s rule: less_induct)
  case less
  show ?case
  proof (cases "i < e_phnum (mem s) data")
    case True
    then have "unat (i + 1) = unat i + 1"
      using unsigned_less [of "e_phnum (mem s) data", where ?'a = nat]
      by (subst unat_plus_no_wrap) (simp_all add: word_less_nat_alt)
    then have "load_segments data pagemap ph (i + 1) s' \<noteq> None" for s'
      using True unsigned_less [of i, where ?'a = nat] by (intro less.hyps) (simp add: word_less_nat_alt)
    with load_segment_returns [of data pagemap "pheader ph i" s] show ?thesis
      by (subst load_segments.simps) (auto split: prod.split)
  qed (subst load_segments.simps, simp)
qed


section \<open>What a page of a segment holds\<close>

text \<open>
  The bytes of the \<open>n\<close>-th page of a segment, from the file \<open>F\<close>: the file offset \<open>off\<close>, the offset
  \<open>po\<close> of the segment in its first page and its size \<open>fsz\<close> in the file are those of the program
  header. Only the first page takes \<open>po\<close> into account.
\<close>

definition page_byte :: "(nat \<Rightarrow> u8) \<Rightarrow> nat \<Rightarrow> nat \<Rightarrow> nat \<Rightarrow> nat \<Rightarrow> nat \<Rightarrow> u8" where
  "page_byte F off po fsz n j =
     (let d = (if n = 0 then po else 0) in
      if d \<le> j \<and> 4096 * n + (j - d) < fsz then F (off + 4096 * n + (j - d)) else 0)"

lemma block_copy_apart:
  assumes "region src n \<inter> region dest k = {}" and "unat c \<le> n" and "0 < k"
  shows "memcpy m dest src c = block_copy m dest src (unat c)"
proof -
  have "dest \<in> region dest k" using assms(3) by (simp add: region_def)
  then have "dest \<notin> region src n" using assms(1) by blast
  then have "unat c \<le> unat (dest - src)" using assms(2) by (simp add: region_def)
  then show ?thesis
    unfolding memcpy_def by (intro memcpy_loop_copy) (use unat_lt_64 [of c] in simp_all)
qed

lemma page_fill:
  fixes off fsz po :: u64 and m :: mem
  assumes disj: "region data L \<inter> region a 4096 = {}" and L: "L \<le> 2 ^ 62" "unat off + unat fsz \<le> L"
    and po: "unat po < 4096" and n: "4096 * n < 2 ^ 48"
  defines "m3 \<equiv> memset m a 0 PAGE_SIZE" and "d \<equiv> of_nat (4096 * n) :: u64"
  defines "pdo \<equiv> (if d = 0 \<and> po > 0 then po else 0)"
  defines "c0 \<equiv> PAGE_SIZE - pdo"
  defines "c \<equiv> (if off + d + c0 > off + fsz then off + fsz - (off + d) else c0)"
  defines "m4 \<equiv> (if off + d < off + fsz \<and> c > 0 then memcpy m3 (a + pdo) (data + (off + d)) c else m3)"
  shows "\<And>x. x \<notin> region a 4096 \<Longrightarrow> m4 x = m x"
    and "\<And>j. j < 4096 \<Longrightarrow> m4 (a + of_nat j) =
      page_byte (\<lambda>k. m (data + of_nat k)) (unat off) (unat po) (unat fsz) n j"
proof -
  define q where "q = (if n = 0 then unat po else 0)"
  have ud: "unat d = 4096 * n" using n by (simp add: d_def unat_of_nat del: of_nat_mult)
  then have d0: "d = 0 \<longleftrightarrow> n = 0" by (simp add: unat_eq_0 [symmetric])
  have uq: "unat pdo = q" "q < 4096" using po by (auto simp: pdo_def q_def d0 word_gt_0 unat_eq_0)
  have pdo: "pdo = of_nat q" by (simp add: uq(1) [symmetric])
  have uc0: "unat c0 = 4096 - q"
    unfolding c0_def using uq by (subst unat_sub) (simp_all add: word_le_nat_alt)
  have ufd: "unat (off + d) = unat off + 4096 * n"
    using ud L n by (subst unat_plus_no_wrap) simp_all
  have ufe: "unat (off + fsz) = unat off + unat fsz"
    using L by (subst unat_plus_no_wrap) simp_all
  have ufc: "unat (off + d + c0) = unat off + 4096 * n + (4096 - q)"
    using ufd uc0 L n by (subst unat_plus_no_wrap) simp_all
  have lt: "off + d < off + fsz \<longleftrightarrow> 4096 * n < unat fsz"
    by (simp add: word_less_nat_alt ufd ufe)
  have uc: "unat c = min (4096 - q) (unat fsz - 4096 * n)" if "4096 * n < unat fsz"
  proof (cases "off + d + c0 > off + fsz")
    case True
    have "unat (off + fsz - (off + d)) = unat (off + fsz) - unat (off + d)"
      by (rule unat_sub) (use lt that in \<open>simp add: less_imp_le\<close>)
    then have "unat c = unat (off + fsz) - unat (off + d)"
      using True by (simp only: c_def if_True)
    with True show ?thesis by (simp add: word_less_nat_alt ufd ufe ufc min_def)
  next
    case False
    then show ?thesis using that uc0 by (simp add: c_def word_less_nat_alt ufe ufc min_def)
  qed
  have m3: "m3 = block_fill m a 0 4096" by (simp add: m3_def memset_page)
  have m4: "m4 = (if 4096 * n < unat fsz then block_copy m3 (a + pdo) (data + (off + d)) (unat c) else m3)"
  proof (cases "4096 * n < unat fsz")
    case True
    have c: "0 < unat c" using uc [OF True] True uq(2) by simp
    have "data + (off + d) = data + of_nat (unat off + 4096 * n)" by (simp add: ud [symmetric])
    then have "region (data + (off + d)) (unat c) \<subseteq> region data L"
      using region_sub [of "unat off + 4096 * n" "unat c" L data] uc [OF True] L True by simp
    moreover have "region (a + pdo) (4096 - q) \<subseteq> region a 4096"
      unfolding pdo using region_sub [of q "4096 - q" 4096 a] uq(2) by simp
    ultimately have "region (data + (off + d)) (unat c) \<inter> region (a + pdo) (4096 - q) = {}"
      using disj by blast
    then have "memcpy m3 (a + pdo) (data + (off + d)) c = block_copy m3 (a + pdo) (data + (off + d)) (unat c)"
      by (rule block_copy_apart) (use uq(2) in simp_all)
    with True c lt show ?thesis by (simp add: m4_def word_less_nat_alt)
  qed (simp add: m4_def lt)
  show "m4 x = m x" if "x \<notin> region a 4096" for x
  proof -
    have "\<not> unat (x - (a + pdo)) < unat c" if "4096 * n < unat fsz"
    proof
      assume "unat (x - (a + pdo)) < unat c"
      then have "x \<in> region (a + of_nat q) (4096 - q)"
        using uc [OF that] by (simp add: region_def pdo)
      with region_sub [of q "4096 - q" 4096 a] uq(2) \<open>x \<notin> region a 4096\<close> show False by auto
    qed
    with that show ?thesis by (auto simp: m4 block_copy_def m3 block_fill_def region_def)
  qed
  show "m4 (a + of_nat j) = page_byte (\<lambda>k. m (data + of_nat k)) (unat off) (unat po) (unat fsz) n j" if j: "j < 4096" for j
  proof (cases "4096 * n < unat fsz \<and> q \<le> j \<and> 4096 * n + (j - q) < unat fsz")
    case True
    have e: "a + of_nat j - (a + pdo) = of_nat (j - q)"
      using True by (simp add: pdo of_nat_diff)
    have u: "unat (of_nat (j - q) :: u64) = j - q" using j by (simp add: unat_of_nat)
    have "j - q < unat c" using True uc j uq(2) by auto
    then have "m4 (a + of_nat j) = m3 (data + (off + d) + of_nat (j - q))"
      using conjunct1 [OF True] by (simp only: m4 block_copy_def e u if_True)
    moreover have "data + (off + d) + of_nat (j - q) = data + of_nat (unat off + 4096 * n + (j - q))"
      by (simp add: ud [symmetric] add.assoc)
    moreover have "data + of_nat (unat off + 4096 * n + (j - q)) \<in> region data L"
      using True L by (intro in_region_offset) auto
    then have "data + of_nat (unat off + 4096 * n + (j - q)) \<notin> region a 4096" using disj by blast
    ultimately have "m4 (a + of_nat j) = m (data + of_nat (unat off + 4096 * n + (j - q)))"
      by (simp add: m3 block_fill_def region_def)
    with True show ?thesis by (simp only: page_byte_def Let_def q_def [symmetric]) simp
  next
    case False
    have z: "m3 (a + of_nat j) = 0" using j by (simp add: m3 block_fill_def unat_of_nat)
    have "\<not> unat (a + of_nat j - (a + pdo)) < unat c" if f: "4096 * n < unat fsz"
    proof (cases "q \<le> j")
      case True
      then have "a + of_nat j - (a + pdo) = of_nat (j - q)" by (simp add: pdo of_nat_diff)
      moreover have "unat (of_nat (j - q) :: u64) = j - q" using j by (simp add: unat_of_nat)
      ultimately show ?thesis using False True f uc [OF f] by auto
    next
      case nq: False
      have "unat (of_nat j - of_nat q :: u64) = 2 ^ 64 - (q - j)"
        using nq j uq(2) by (simp add: unat_sub_if_size unat_of_nat word_size)
      moreover have "a + of_nat j - (a + pdo) = of_nat j - of_nat q" by (simp add: pdo)
      ultimately show ?thesis using uc [OF f] uq(2) by simp
    qed
    with z have "m4 (a + of_nat j) = 0" by (simp add: m4 block_copy_def)
    with False show ?thesis by (simp only: page_byte_def Let_def q_def [symmetric]) auto
  qed
qed


section \<open>Loading pages\<close>

text \<open>The memory that a page loaded into the frame at \<open>a\<close> leaves.\<close>

definition page_image :: "mem \<Rightarrow> u64 \<Rightarrow> u64 \<Rightarrow> u64 \<Rightarrow> u64 \<Rightarrow> u64 \<Rightarrow> u64 \<Rightarrow> mem" where
  "page_image m a data off d po fsz =
     (let m3 = memset m a 0 PAGE_SIZE;
          pdo = (if d = 0 \<and> po > 0 then po else 0);
          c0 = PAGE_SIZE - pdo;
          c = (if off + d + c0 > off + fsz then off + fsz - (off + d) else c0)
      in if off + d < off + fsz \<and> c > 0 then memcpy m3 (a + pdo) (data + (off + d)) c else m3)"

lemma page_image_props:
  assumes "region data L \<inter> region a 4096 = {}" "L \<le> 2 ^ 62" "unat off + unat fsz \<le> L" "unat po < 4096" "4096 * n < 2 ^ 48"
  shows "\<And>x. x \<notin> region a 4096 \<Longrightarrow> page_image m a data off (of_nat (4096 * n)) po fsz x = m x"
    "\<And>j. j < 4096 \<Longrightarrow> page_image m a data off (of_nat (4096 * n)) po fsz (a + of_nat j) =
      page_byte (\<lambda>k. m (data + of_nat k)) (unat off) (unat po) (unat fsz) n j"
  unfolding page_image_def Let_def by (rule page_fill [OF assms]; assumption)+

lemma load_page_eq:
  assumes "pmm_request_page s = (q, s1)" "q \<noteq> 0" "s2 = vmm_map s1 pagemap vaddr q flags"
    and "vaddr - vaddr_start = d" and "p_filesz (memset (mem s2) (HIGHER_HALF s2 q) 0 PAGE_SIZE) ph = fsz"
  shows "load_page data pagemap ph vaddr_start off flags po vaddr s =
    (True, s2\<lparr>mem := page_image (mem s2) (HIGHER_HALF s2 q) data off d po fsz\<rparr>)"
proof -
  have H: "HIGHER_HALF (u\<lparr>mem := m\<rparr>) = HIGHER_HALF u" for u :: pmm and m
    by (simp add: HIGHER_HALF_def fun_eq_iff)
  show ?thesis
    using assms unfolding load_page_def page_image_def Let_def by (simp add: H)
qed

lemma page_byte_cong:
  assumes "\<And>k. k < off + fsz \<Longrightarrow> F k = G k"
  shows "page_byte F off po fsz n j = page_byte G off po fsz n j"
  using assms by (auto simp: page_byte_def Let_def)

lemma load_page_ok:
  fixes off fsz po :: u64
  assumes inv: "vm_inv s root" and free: "4 \<le> length (stack_list s)"
    and src: "region data L \<inter> owned s root = {}" "L \<le> 2 ^ 62" "\<And>k. k < L \<Longrightarrow> mem s (data + of_nat k) = F k"
    and hdr: "\<And>m. (\<And>x. x \<in> region data L \<Longrightarrow> m x = mem s x) \<Longrightarrow> p_filesz m ph = fsz"
    and off: "unat off + unat fsz \<le> L" and po: "unat po < 4096" and n: "4096 * n < 2 ^ 48"
  obtains s' where "load_page data (HIGHER_HALF s root) ph start off flags po (start + of_nat (4096 * n)) s = (True, s')"
    "loads root 4 s s'" "\<And>v. \<not> same_page v (start + of_nat (4096 * n)) \<Longrightarrow> leaf s' root v = leaf s root v"
    "page_is s' root (start + of_nat (4096 * n)) flags (page_byte F (unat off) (unat po) (unat fsz) n)"
proof -
  define v where "v = start + of_nat (4096 * n)"
  obtain q s1 where fp: "pmm_request_page s = (q, s1)" "q \<noteq> 0" "page_aligned q" "q < 2 ^ 52"
    "loads root 4 s (vmm_map s1 (HIGHER_HALF s root) v q flags)"
    "\<And>w. leaf (vmm_map s1 (HIGHER_HALF s root) v q flags) root w = (if same_page w v then q OR flags else leaf s root w)"
    "page_frame s q \<subseteq> owned s root" "page_frame s q \<inter> owned (vmm_map s1 (HIGHER_HALF s root) v q flags) root = {}"
    "page_frame s q \<inter> stack_region s = {}"
    using fresh_page [OF inv free, of v flags] by metis
  define s2 where "s2 = vmm_map s1 (HIGHER_HALF s root) v q flags"
  note lo = fp(5) [folded s2_def]
  have su: "same_setup s s2" and inv2: "vm_inv s2 root" using lo by (simp_all add: loads_def)
  note H = same_setup_simps [OF su]
  let ?a = "HIGHER_HALF s2 q"
  have frame: "page_frame s q = region ?a 4096" by (simp add: page_frame_def H)
  have disj: "region data L \<inter> region ?a 4096 = {}" using src(1) fp(7) frame by auto
  note out = loads_outside [OF lo src(1)]
  have "memset (mem s2) ?a 0 PAGE_SIZE x = mem s x" if "x \<in> region data L" for x
    using that out(2) disj by (auto simp: memset_page block_fill_def region_def)
  then have fz: "p_filesz (memset (mem s2) ?a 0 PAGE_SIZE) ph = fsz" by (rule hdr)
  define m where "m = page_image (mem s2) ?a data off (of_nat (4096 * n)) po fsz"
  define s' where "s' = s2\<lparr>mem := m\<rparr>"
  have lp: "load_page data (HIGHER_HALF s root) ph start off flags po v s = (True, s')"
    unfolding s'_def m_def by (rule load_page_eq [OF fp(1,2) s2_def _ fz]) (simp add: v_def)
  note im = page_image_props [OF disj src(2) off po n, where m = "mem s2", folded m_def]
  have keep: "m x = mem s2 x" if "x \<in> owned s2 root \<union> stack_region s2" for x
    using that im(1) fp(8) [folded s2_def] fp(9) frame H by auto
  have dw: "vm_inv s' root" "stack_list s' = stack_list s2" "same_setup s2 s'" "tables s' root = tables s2 root"
    "\<And>w. leaf s' root w = leaf s2 root w"
    by (rule data_write [OF inv2 s'_def], erule keep)+
  have su': "same_setup s s'" using su dw(3) by (rule same_setup_trans)
  have "confined root s s'"
  proof -
    have "mem s' x = mem s x" if "x \<notin> owned s root" for x
      using that im(1) [of x] fp(7) frame lo by (auto simp: s'_def loads_def confined_def)
    with lo show ?thesis by (simp add: loads_def confined_def dw)
  qed
  with su' have "loads root 4 s s'" using lo dw(1,2) by (simp add: loads_def)
  moreover have "page_is s' root v flags (page_byte F (unat off) (unat po) (unat fsz) n)"
  proof -
    have "leaf s' root v = q OR flags" using fp(6) [folded s2_def] dw(5) by (simp add: same_page_def)
    moreover have "owned s' root = owned s2 root"
      using dw(2,4) same_setup_simps(1) [OF dw(3)] by (simp add: owned_def)
    moreover have "mem s' (HIGHER_HALF s' q + of_nat j) = page_byte F (unat off) (unat po) (unat fsz) n j" if "j < 4096" for j
    proof -
      have "mem s2 (data + of_nat k) = F k" if "k < unat off + unat fsz" for k
        using out(2) [OF in_region_offset [of k L data]] src(2,3) off that by simp
      then have "page_byte (\<lambda>k. mem s2 (data + of_nat k)) (unat off) (unat po) (unat fsz) n j =
          page_byte F (unat off) (unat po) (unat fsz) n j"
        by (rule page_byte_cong)
      then show ?thesis
        using im(2) [OF that] same_setup_simps(4) [OF dw(3)] by (simp add: s'_def)
    qed
    ultimately show ?thesis
      using fp(3,4,8) same_setup_simps(1) [OF su'] unfolding page_is_def s2_def by metis
  qed
  moreover have "leaf s' root w = leaf s root w" if "\<not> same_page w v" for w
    using fp(6) [folded s2_def] dw(5) that by simp
  ultimately show ?thesis using that lp unfolding v_def by blast
qed


lemma load_pages_ok:
  fixes off fsz po :: u64
  assumes "vm_inv s root" and "4 * k \<le> length (stack_list s)"
    and "region data L \<inter> owned s root = {}" "L \<le> 2 ^ 62" "\<And>k. k < L \<Longrightarrow> mem s (data + of_nat k) = F k"
    and "\<And>m. (\<And>x. x \<in> region data L \<Longrightarrow> m x = mem s x) \<Longrightarrow> p_filesz m ph = fsz"
    and "unat off + unat fsz \<le> L" and "unat po < 4096"
    and "unat start mod 4096 = 0" "unat start + 4096 * (n + k) \<le> 2 ^ 47"
  shows "\<exists>s'. load_pages data (HIGHER_HALF s root) ph start off flags po
      (start + of_nat (4096 * (n + k))) (start + of_nat (4096 * n)) s = Some (True, s') \<and>
    loads root (4 * k) s s' \<and>
    (\<forall>v. (\<forall>i < k. \<not> same_page v (start + of_nat (4096 * (n + i)))) \<longrightarrow> leaf s' root v = leaf s root v) \<and>
    (\<forall>i < k. page_is s' root (start + of_nat (4096 * (n + i))) flags (page_byte F (unat off) (unat po) (unat fsz) (n + i)))"
  using assms
proof (induction k arbitrary: s n)
  case 0
  then show ?case
    by (subst load_pages.simps) (simp add: loads_refl)
next
  case (Suc k)
  let ?v = "\<lambda>i. start + of_nat (4096 * i) :: u64"
  have uv: "unat (?v i) = unat start + 4096 * i" if "i \<le> n + Suc k" for i
    by (subst unat_plus_no_wrap) (use that Suc.prems(10) in \<open>auto simp: unat_of_nat simp del: of_nat_mult\<close>)
  have sep: "\<not> same_page (?v i) (?v j)" if "i < j" "j \<le> n + Suc k" for i j
  proof -
    have a: "unat start + 4096 * i < unat start + 4096 * j" "unat start + 4096 * j < 2 ^ 48"
      using that Suc.prems(10) by auto
    obtain b where b: "unat start = 4096 * b" using Suc.prems(9) by (auto simp: mod_eq_0_iff_dvd)
    have "(4096 * b + 4096 * i) div 4096 \<noteq> (4096 * b + 4096 * j) div 4096" using that by simp
    with a show ?thesis
      using that by (subst same_page_div) (simp_all add: uv b del: of_nat_mult)
  qed
  have n4: "4096 * n < 2 ^ 48" and f4: "4 \<le> length (stack_list s)" using Suc.prems(2,10) by auto
  obtain s1 where s1: "load_page data (HIGHER_HALF s root) ph start off flags po (?v n) s = (True, s1)"
    "loads root 4 s s1" "\<And>v. \<not> same_page v (?v n) \<Longrightarrow> leaf s1 root v = leaf s root v"
    "page_is s1 root (?v n) flags (page_byte F (unat off) (unat po) (unat fsz) n)"
    by (rule load_page_ok [OF Suc.prems(1) f4 Suc.prems(3-8) n4, where start = start and flags = flags]) blast+
  note out = loads_outside [OF s1(2) Suc.prems(3)]
  have H: "HIGHER_HALF s1 = HIGHER_HALF s" using s1(2) same_setup_simps(4) by (simp add: loads_def)
  have next_v: "?v n + PAGE_SIZE = ?v (Suc n)" by (simp add: PAGE_SIZE_def)
  have inv1: "vm_inv s1 root" "4 * k \<le> length (stack_list s1)"
    using s1(2) loads_free [OF s1(2), of "4 * k"] Suc.prems(2) by (simp_all add: loads_def)
  have F1: "mem s1 (data + of_nat i) = F i" if "i < L" for i
    using out(2) [OF in_region_offset [of i L data]] Suc.prems(4,5) that by simp
  have hdr1: "p_filesz m ph = fsz" if "\<And>x. x \<in> region data L \<Longrightarrow> m x = mem s1 x" for m
    by (rule Suc.prems(6)) (use that out(2) in auto)
  have end_eq: "unat start + 4096 * (Suc n + k) \<le> 2 ^ 47" "n + Suc k = Suc n + k" using Suc.prems(10) by auto
  obtain s' where s': "load_pages data (HIGHER_HALF s root) ph start off flags po (?v (Suc n + k)) (?v (Suc n)) s1 = Some (True, s')"
    "loads root (4 * k) s1 s'"
    "\<And>v. (\<And>i. i < k \<Longrightarrow> \<not> same_page v (?v (Suc n + i))) \<Longrightarrow> leaf s' root v = leaf s1 root v"
    "\<And>i. i < k \<Longrightarrow> page_is s' root (?v (Suc n + i)) flags (page_byte F (unat off) (unat po) (unat fsz) (Suc n + i))"
    using Suc.IH [OF inv1 out(1) Suc.prems(4) F1 hdr1 Suc.prems(7-9) end_eq(1)] unfolding H by blast
  have "?v n < ?v (n + Suc k)"
    using uv [of n] uv [of "n + Suc k"] by (simp add: word_less_nat_alt del: of_nat_mult)
  then have "load_pages data (HIGHER_HALF s root) ph start off flags po (?v (n + Suc k)) (?v n) s = Some (True, s')"
    unfolding end_eq(2) by (subst load_pages.simps) (simp only: s1(1) next_v s'(1) if_True prod.case Let_def)
  moreover have "loads root (4 * Suc k) s s'" using loads_trans [OF s1(2) s'(2)] by simp
  moreover have "leaf s' root v = leaf s root v" if "\<And>i. i < Suc k \<Longrightarrow> \<not> same_page v (?v (n + i))" for v
    using s'(3) [of v] s1(3) [of v] that [of 0] that [of "Suc i" for i] by (simp del: of_nat_mult of_nat_Suc mult_Suc_right)
  moreover have "page_is s' root (?v (n + i)) flags (page_byte F (unat off) (unat po) (unat fsz) (n + i))" if "i < Suc k" for i
  proof (cases i)
    case 0
    have "leaf s' root (?v n) = leaf s1 root (?v n)"
      by (rule s'(3)) (use sep [of n "Suc n + i" for i] in \<open>simp del: of_nat_mult of_nat_Suc mult_Suc_right\<close>)
    from page_is_keep [OF s'(2) s1(4) this] 0 show ?thesis by simp
  next
    case (Suc l)
    with s'(4) [of l] that show ?thesis by simp
  qed
  ultimately show ?case by blast
qed


section \<open>Loading segments\<close>

text \<open>
  The numbers of the first page of a segment and of the page behind its last one, what its pages
  hold, and that a segment lies in the file and in the lower half of the address space.
\<close>

definition seg_first :: "mem \<Rightarrow> u64 \<Rightarrow> nat" where
  "seg_first m h = unat (p_vaddr m h) div 4096"

definition seg_end :: "mem \<Rightarrow> u64 \<Rightarrow> nat" where
  "seg_end m h = (unat (p_vaddr m h) + unat (p_memsz m h) + 4095) div 4096"

definition seg_fits :: "mem \<Rightarrow> nat \<Rightarrow> u64 \<Rightarrow> bool" where
  "seg_fits m L h \<longleftrightarrow> unat (p_offset m h) + unat (p_filesz m h) \<le> L \<and>
     unat (p_vaddr m h) + unat (p_memsz m h) \<le> 2 ^ 47"

definition seg_loaded :: "pmm \<Rightarrow> u64 \<Rightarrow> mem \<Rightarrow> u64 \<Rightarrow> (nat \<Rightarrow> u8) \<Rightarrow> bool" where
  "seg_loaded s root m h F \<longleftrightarrow> (\<forall>n. seg_first m h \<le> n \<and> n < seg_end m h \<longrightarrow>
     page_is s root (of_nat (4096 * n)) (segment_flags (p_flags m h))
       (page_byte F (unat (p_offset m h)) (unat (p_vaddr m h) mod 4096) (unat (p_filesz m h)) (n - seg_first m h)))"

definition outside_seg :: "mem \<Rightarrow> u64 \<Rightarrow> u64 \<Rightarrow> bool" where
  "outside_seg m h v \<longleftrightarrow> (\<forall>n. seg_first m h \<le> n \<and> n < seg_end m h \<longrightarrow> \<not> same_page v (of_nat (4096 * n)))"

lemma seg_bounds:
  assumes "seg_fits m L h"
  shows "seg_first m h \<le> seg_end m h" "4096 * seg_end m h \<le> 2 ^ 47"
    "ALIGN_DOWN (p_vaddr m h) PAGE_SIZE = of_nat (4096 * seg_first m h)"
    "ALIGN_UP (p_vaddr m h + p_memsz m h) PAGE_SIZE = of_nat (4096 * seg_end m h)"
    "unat (p_vaddr m h AND (PAGE_SIZE - 1)) = unat (p_vaddr m h) mod 4096"
proof -
  let ?v = "p_vaddr m h" and ?z = "p_memsz m h"
  have le: "unat ?v + unat ?z \<le> 2 ^ 47" using assms by (simp add: seg_fits_def)
  show "seg_first m h \<le> seg_end m h" by (simp add: seg_first_def seg_end_def div_le_mono)
  have "(unat ?v + unat ?z + 4095) div 4096 \<le> (2 ^ 47 + 4095) div 4096" using le by (intro div_le_mono) simp
  then show e: "4096 * seg_end m h \<le> 2 ^ 47" by (simp add: seg_end_def)
  have "seg_first m h \<le> seg_end m h" by fact
  then have f: "unat (of_nat (4096 * seg_first m h) :: u64) = 4096 * seg_first m h"
    using e by (simp add: unat_of_nat del: of_nat_mult)
  have "unat (ALIGN_DOWN ?v PAGE_SIZE) = 4096 * seg_first m h"
    by (simp add: unat_ALIGN_DOWN seg_first_def)
  with f show "ALIGN_DOWN ?v PAGE_SIZE = of_nat (4096 * seg_first m h)"
    by (simp only: word_unat_eq_iff)
  have s: "unat (?v + ?z) = unat ?v + unat ?z" using le by (subst unat_plus_no_wrap) simp_all
  have "unat (ALIGN_UP (?v + ?z) PAGE_SIZE) = (unat (?v + ?z) + 4096 - 1) div 4096 * 4096"
    by (subst unat_ALIGN_UP) (use le s in \<open>simp_all add: PAGE_SIZE_def\<close>)
  then have "unat (ALIGN_UP (?v + ?z) PAGE_SIZE) = 4096 * seg_end m h"
    by (simp add: s seg_end_def)
  moreover have "unat (of_nat (4096 * seg_end m h) :: u64) = 4096 * seg_end m h"
    using e by (simp add: unat_of_nat del: of_nat_mult)
  ultimately show "ALIGN_UP (?v + ?z) PAGE_SIZE = of_nat (4096 * seg_end m h)"
    by (simp only: word_unat_eq_iff)
  have "?v AND (PAGE_SIZE - 1) = take_bit 12 ?v"
    by (simp add: PAGE_SIZE_def take_bit_eq_mask mask_eq_exp_minus_1)
  then show "unat (?v AND (PAGE_SIZE - 1)) = unat ?v mod 4096"
    by (simp add: take_bit_eq_mod unat_mod)
qed

lemma load_segment_ok:
  assumes inv: "vm_inv s root" and free: "4 * (seg_end (mem s) h - seg_first (mem s) h) \<le> length (stack_list s)"
    and src: "region data L \<inter> owned s root = {}" "L \<le> 2 ^ 62" "\<And>k. k < L \<Longrightarrow> mem s (data + of_nat k) = F k"
    and hdr: "\<And>m. (\<And>x. x \<in> region data L \<Longrightarrow> m x = mem s x) \<Longrightarrow> p_filesz m h = p_filesz (mem s) h"
    and fits: "seg_fits (mem s) L h"
  obtains s' where "load_segment data (HIGHER_HALF s root) h s = Some (True, s')"
    "loads root (4 * (seg_end (mem s) h - seg_first (mem s) h)) s s'"
    "\<And>v. outside_seg (mem s) h v \<Longrightarrow> leaf s' root v = leaf s root v" "seg_loaded s' root (mem s) h F"
proof -
  let ?m = "mem s" and ?a = "seg_first (mem s) h"
  define k where "k = seg_end ?m h - ?a"
  note sb = seg_bounds [OF fits]
  let ?st = "of_nat (4096 * ?a) :: u64" and ?po = "p_vaddr ?m h AND (PAGE_SIZE - 1)"
  have ust: "unat ?st = 4096 * ?a" using sb(1,2) by (simp add: unat_of_nat del: of_nat_mult)
  have e: "seg_end ?m h = ?a + k" using sb(1) by (simp add: k_def)
  have pre: "unat ?st mod 4096 = 0" "unat ?st + 4096 * (0 + k) \<le> 2 ^ 47" "unat ?po < 4096"
    "unat (p_offset ?m h) + unat (p_filesz ?m h) \<le> L"
    using sb(2,5) fits by (simp_all add: ust e seg_fits_def del: of_nat_mult)
  have at: "?st + of_nat (4096 * i) = of_nat (4096 * (?a + i))" for i by (simp add: algebra_simps)
  obtain s' where s': "load_pages data (HIGHER_HALF s root) h ?st (p_offset ?m h) (segment_flags (p_flags ?m h)) ?po
      (of_nat (4096 * (?a + k))) ?st s = Some (True, s')" "loads root (4 * k) s s'"
    "\<And>v. (\<And>i. i < k \<Longrightarrow> \<not> same_page v (of_nat (4096 * (?a + i)))) \<Longrightarrow> leaf s' root v = leaf s root v"
    "\<And>i. i < k \<Longrightarrow> page_is s' root (of_nat (4096 * (?a + i))) (segment_flags (p_flags ?m h))
       (page_byte F (unat (p_offset ?m h)) (unat ?po) (unat (p_filesz ?m h)) i)"
    using load_pages_ok [OF inv free [folded k_def] src hdr pre(4,3,1,2), of "segment_flags (p_flags ?m h)"]
    unfolding at by auto
  have "load_segment data (HIGHER_HALF s root) h s = Some (True, s')"
    unfolding load_segment_def Let_def sb(3,4) e by (rule s')
  moreover have "leaf s' root v = leaf s root v" if "outside_seg ?m h v" for v
  proof (rule s'(3))
    show "\<not> same_page v (of_nat (4096 * (?a + i)))" if "i < k" for i
      using \<open>outside_seg ?m h v\<close> that unfolding outside_seg_def e by (meson le_add1 nat_add_left_cancel_less)
  qed
  moreover have "seg_loaded s' root ?m h F"
    unfolding seg_loaded_def
  proof (intro allI impI)
    fix n assume n: "?a \<le> n \<and> n < seg_end ?m h"
    then have "n - ?a < k" using e by auto
    with n show "page_is s' root (of_nat (4096 * n)) (segment_flags (p_flags ?m h))
        (page_byte F (unat (p_offset ?m h)) (unat (p_vaddr ?m h) mod 4096) (unat (p_filesz ?m h)) (n - ?a))"
      using s'(4) [of "n - ?a"] e by (simp add: sb(5) del: of_nat_mult of_nat_add)
  qed
  ultimately show ?thesis using that s'(2) unfolding k_def by blast
qed


text \<open>The fields of a header depend on its bytes only.\<close>

lemma load_cong:
  assumes "\<And>x. x \<in> region h n \<Longrightarrow> m x = m' x" and "n \<le> 2 ^ 64"
  shows "k + 2 \<le> n \<Longrightarrow> load16 m (h + of_nat k) = load16 m' (h + of_nat k)"
    "k + 4 \<le> n \<Longrightarrow> load32 m (h + of_nat k) = load32 m' (h + of_nat k)"
    "k + 8 \<le> n \<Longrightarrow> load64 m (h + of_nat k) = load64 m' (h + of_nat k)"
proof -
  have at: "m (h + of_nat k + i) = m' (h + of_nat k + i)" if "k + unat i < n" for i
    using assms in_region_offset [of "k + unat i" n h] that by (simp add: add.assoc)
  show "load16 m (h + of_nat k) = load16 m' (h + of_nat k)" if "k + 2 \<le> n"
    using that at [of 0] at [of 1] by (simp add: load16_def)
  show "load32 m (h + of_nat k) = load32 m' (h + of_nat k)" if "k + 4 \<le> n"
    using that at [of 0] at [of 1] at [of 2] at [of 3] by (simp add: load32_def)
  show "load64 m (h + of_nat k) = load64 m' (h + of_nat k)" if "k + 8 \<le> n"
    by (rule load64_cong) (use that at [of "of_nat q" for q] in \<open>simp add: unat_of_nat\<close>)
qed

lemma header_cong:
  assumes "\<And>x. x \<in> region h 64 \<Longrightarrow> m x = m' x"
  shows "e_magic m h = e_magic m' h" "e_class m h = e_class m' h" "e_type m h = e_type m' h"
    "e_entry m h = e_entry m' h" "e_phoff m h = e_phoff m' h" "e_phnum m h = e_phnum m' h"
proof -
  note c = load_cong [of h 64 m m', OF assms]
  have "m (h + 4) = m' (h + 4)" by (rule assms) (simp add: region_def)
  then show "e_class m h = e_class m' h" by (simp add: e_class_def)
  show "e_magic m h = e_magic m' h" "e_type m h = e_type m' h" "e_entry m h = e_entry m' h"
    "e_phoff m h = e_phoff m' h" "e_phnum m h = e_phnum m' h"
    using c(2) [of 0] c(1) [of 16] c(3) [of 24] c(3) [of 32] c(1) [of 56]
    by (simp_all add: e_magic_def e_type_def e_entry_def e_phoff_def e_phnum_def)
qed

lemma pheader_cong:
  assumes "\<And>x. x \<in> region h 56 \<Longrightarrow> m x = m' x"
  shows "p_type m h = p_type m' h" "p_flags m h = p_flags m' h" "p_offset m h = p_offset m' h"
    "p_vaddr m h = p_vaddr m' h" "p_filesz m h = p_filesz m' h" "p_memsz m h = p_memsz m' h"
proof -
  note c = load_cong [of h 56 m m', OF assms]
  show "p_type m h = p_type m' h" "p_flags m h = p_flags m' h" "p_offset m h = p_offset m' h"
    "p_vaddr m h = p_vaddr m' h" "p_filesz m h = p_filesz m' h" "p_memsz m h = p_memsz m' h"
    using c(2) [of 0] c(2) [of 4] c(3) [of 8] c(3) [of 16] c(3) [of 32] c(3) [of 40]
    by (simp_all add: p_type_def p_flags_def p_offset_def p_vaddr_def p_filesz_def p_memsz_def)
qed

text \<open>
  A well-formed executable of \<open>L\<close> bytes at \<open>data\<close>: the headers lie in the file, and the segments
  to load lie in the file and in the lower half and share no page.
\<close>

definition hdr_at :: "mem \<Rightarrow> u64 \<Rightarrow> nat \<Rightarrow> u64" where
  "hdr_at m data i = pheader (data + e_phoff m data) (of_nat i)"

definition loadable :: "mem \<Rightarrow> u64 \<Rightarrow> nat \<Rightarrow> bool" where
  "loadable m data i \<longleftrightarrow> i < unat (e_phnum m data) \<and> p_type m (hdr_at m data i) = PT_LOAD"

definition seg_pages :: "mem \<Rightarrow> u64 \<Rightarrow> nat \<Rightarrow> nat" where
  "seg_pages m data i =
     (if loadable m data i then seg_end m (hdr_at m data i) - seg_first m (hdr_at m data i) else 0)"

definition elf_layout :: "mem \<Rightarrow> u64 \<Rightarrow> nat \<Rightarrow> bool" where
  "elf_layout m data L \<longleftrightarrow> 64 \<le> L \<and> L \<le> 2 ^ 62 \<and>
     unat (e_phoff m data) + 56 * unat (e_phnum m data) \<le> L \<and>
     (\<forall>i. loadable m data i \<longrightarrow> seg_fits m L (hdr_at m data i)) \<and>
     (\<forall>i j. loadable m data i \<and> loadable m data j \<and> i \<noteq> j \<longrightarrow>
        seg_end m (hdr_at m data i) \<le> seg_first m (hdr_at m data j) \<or>
        seg_end m (hdr_at m data j) \<le> seg_first m (hdr_at m data i))"

lemma hdr_at_region:
  assumes "elf_layout m data L" and "i < unat (e_phnum m data)"
  shows "region (hdr_at m data i) 56 \<subseteq> region data L"
proof -
  have L: "L \<le> 2 ^ 62" "unat (e_phoff m data) + 56 * unat (e_phnum m data) \<le> L"
    using assms(1) by (auto simp: elf_layout_def)
  have "i < 65536" using assms(2) unsigned_less [of "e_phnum m data", where ?'a = nat] by simp
  then have "ucast (of_nat i :: u16) = (of_nat i :: u64)"
    by (simp add: word_unat_eq_iff unsigned_ucast_eq unat_of_nat take_bit_nat_eq_self)
  then have h: "hdr_at m data i = data + of_nat (unat (e_phoff m data) + 56 * i)"
    by (simp add: hdr_at_def pheader_def add.assoc)
  have "56 * i + 56 \<le> 56 * unat (e_phnum m data)" using assms(2) by simp
  then have "unat (e_phoff m data) + 56 * i + 56 \<le> L" using L(2) by linarith
  then show ?thesis unfolding h by (rule region_sub) (use L(1) in simp)
qed


lemma seg_cong:
  assumes "\<And>x. x \<in> region h 56 \<Longrightarrow> m x = m' x"
  shows "seg_first m h = seg_first m' h" "seg_end m h = seg_end m' h" "seg_fits m L h = seg_fits m' L h"
    "seg_loaded s root m h F = seg_loaded s root m' h F" "outside_seg m h v = outside_seg m' h v"
proof -
  note c = pheader_cong [of h m m', OF assms]
  show f: "seg_first m h = seg_first m' h" "seg_end m h = seg_end m' h"
    by (simp_all add: c seg_first_def seg_end_def)
  then show "seg_fits m L h = seg_fits m' L h" "seg_loaded s root m h F = seg_loaded s root m' h F"
    "outside_seg m h v = outside_seg m' h v"
    by (simp_all add: c seg_fits_def seg_loaded_def outside_seg_def)
qed

lemma segments_apart:
  assumes "seg_fits m L h" "seg_fits m L g" "seg_end m h \<le> seg_first m g \<or> seg_end m g \<le> seg_first m h"
    and "seg_first m h \<le> n" "n < seg_end m h"
  shows "outside_seg m g (of_nat (4096 * n))"
  unfolding outside_seg_def
proof (intro allI impI)
  fix i assume i: "seg_first m g \<le> i \<and> i < seg_end m g"
  have u: "unat (of_nat (4096 * j) :: u64) = 4096 * j" "4096 * j < 2 ^ 48" if "4096 * j \<le> 2 ^ 47" for j
    using that by (simp_all add: unat_of_nat del: of_nat_mult)
  have b: "4096 * n \<le> 2 ^ 47" "4096 * i \<le> 2 ^ 47"
    using seg_bounds(2) [OF assms(1)] seg_bounds(2) [OF assms(2)] assms(5) i by auto
  have "n \<noteq> i" using assms(3-5) i by auto
  then show "\<not> same_page (of_nat (4096 * n)) (of_nat (4096 * i))"
    using u [OF b(1)] u [OF b(2)] by (subst same_page_div) (simp_all del: of_nat_mult)
qed

lemma seg_loaded_keep:
  assumes "loads root k s t" "seg_loaded s root m h F"
    and "\<And>n. seg_first m h \<le> n \<Longrightarrow> n < seg_end m h \<Longrightarrow> leaf t root (of_nat (4096 * n)) = leaf s root (of_nat (4096 * n))"
  shows "seg_loaded t root m h F"
  using assms page_is_keep [OF assms(1)] unfolding seg_loaded_def by blast

lemma load_segments_ok:
  assumes lay: "elf_layout m data L" and N: "N = unat (e_phnum m data)" and F: "\<And>k. k < L \<Longrightarrow> m (data + of_nat k) = F k"
    and "vm_inv s root" and "4 * (\<Sum>j = i..<N. seg_pages m data j) \<le> length (stack_list s)"
    and "region data L \<inter> owned s root = {}" and "\<And>x. x \<in> region data L \<Longrightarrow> mem s x = m x" and "i \<le> N"
  shows "\<exists>s'. load_segments data (HIGHER_HALF s root) (data + e_phoff m data) (of_nat i) s = Some (True, s') \<and>
    loads root (4 * (\<Sum>j = i..<N. seg_pages m data j)) s s' \<and>
    (\<forall>v. (\<forall>j. i \<le> j \<and> loadable m data j \<longrightarrow> outside_seg m (hdr_at m data j) v) \<longrightarrow> leaf s' root v = leaf s root v) \<and>
    (\<forall>j. i \<le> j \<and> loadable m data j \<longrightarrow> seg_loaded s' root m (hdr_at m data j) F)"
  using assms(4-8)
proof (induction "N - i" arbitrary: i s)
  case 0
  have hc: "e_phnum (mem s) data = e_phnum m data"
    by (rule header_cong) (use 0(5) lay region_mono [of 64 L data] in \<open>auto simp: elf_layout_def\<close>)
  have "i = N" using 0(1,6) by simp
  then show ?case using 0(2)
    by (subst load_segments.simps) (auto simp: hc N loads_refl loadable_def)
next
  case (Suc d)
  let ?h = "hdr_at m data i" and ?l = "load_segments data (HIGHER_HALF s root) (data + e_phoff m data)"
  have hc: "e_phnum (mem s) data = e_phnum m data"
    by (rule header_cong) (use Suc.prems(4) lay region_mono [of 64 L data] in \<open>auto simp: elf_layout_def\<close>)
  have iN: "i < N" "d = N - Suc i" "Suc i \<le> N" using Suc.hyps(2) by auto
  have "N < 65536" unfolding N using unsigned_less [of "e_phnum m data", where ?'a = nat] by simp
  then have lt: "(of_nat i :: u16) < e_phnum (mem s) data"
    using iN(1) by (simp add: hc N word_less_nat_alt unat_of_nat)
  have reg: "region ?h 56 \<subseteq> region data L" by (rule hdr_at_region [OF lay]) (use iN N in simp)
  have hs: "mem s x = m x" if "x \<in> region ?h 56" for x using that reg Suc.prems(4) by blast
  have pc: "p_type (mem s) ?h = p_type m ?h" by (rule pheader_cong) (rule hs)
  have sc: "seg_first (mem s) ?h = seg_first m ?h" "seg_end (mem s) ?h = seg_end m ?h"
    "seg_fits (mem s) L ?h = seg_fits m L ?h" "\<And>t. seg_loaded t root (mem s) ?h F = seg_loaded t root m ?h F"
    "\<And>v. outside_seg (mem s) ?h v = outside_seg m ?h v"
    by (rule seg_cong, erule hs)+
  have sum: "(\<Sum>j = i..<N. seg_pages m data j) = seg_pages m data i + (\<Sum>j = Suc i..<N. seg_pages m data j)"
    using iN(1) by (rule sum.atLeast_Suc_lessThan)
  have suc: "of_nat i + 1 = (of_nat (Suc i) :: u16)" by simp
  have ph: "pheader (data + e_phoff m data) (of_nat i) = ?h" by (simp add: hdr_at_def)
  show ?case
  proof (cases "loadable m data i")
    case False
    then have "p_type (mem s) ?h \<noteq> PT_LOAD" using iN(1) N pc by (simp add: loadable_def)
    then have step: "?l (of_nat i) s = ?l (of_nat (Suc i)) s"
      using lt by (subst load_segments.simps) (simp add: ph suc del: of_nat_Suc)
    have z: "seg_pages m data i = 0" using False by (simp add: seg_pages_def)
    have ge: "i \<le> j \<and> loadable m data j \<longleftrightarrow> Suc i \<le> j \<and> loadable m data j" for j
      using False by (metis Suc_leD Suc_leI le_neq_implies_less)
    show ?thesis
      unfolding step sum z ge add_0
      by (rule Suc.hyps(1) [OF iN(2) Suc.prems(1) _ Suc.prems(3,4) iN(3)]) (use Suc.prems(2) sum z in auto)
  next
    case True
    have p: "seg_pages m data i = seg_end m ?h - seg_first m ?h" using True by (simp add: seg_pages_def)
    have fits: "seg_fits m L (hdr_at m data j)" if "loadable m data j" for j using lay that by (simp add: elf_layout_def)
    have pre: "4 * (seg_end (mem s) ?h - seg_first (mem s) ?h) \<le> length (stack_list s)" "L \<le> 2 ^ 62" "seg_fits (mem s) L ?h"
      using Suc.prems(2) sum p lay fits [OF True] by (simp_all add: elf_layout_def sc)
    have F1: "mem s (data + of_nat k) = F k" if "k < L" for k
      using Suc.prems(4) [OF in_region_offset [of k L data]] F that pre(2) by simp
    have hdr: "p_filesz m' ?h = p_filesz (mem s) ?h" if "\<And>x. x \<in> region data L \<Longrightarrow> m' x = mem s x" for m'
      by (rule pheader_cong) (use that reg in blast)
    obtain s1 where s1: "load_segment data (HIGHER_HALF s root) ?h s = Some (True, s1)"
      "loads root (4 * seg_pages m data i) s s1"
      "\<And>v. outside_seg m ?h v \<Longrightarrow> leaf s1 root v = leaf s root v" "seg_loaded s1 root m ?h F"
      using load_segment_ok [OF Suc.prems(1) pre(1) Suc.prems(3) pre(2) F1 hdr pre(3)] unfolding sc p [symmetric] by blast
    have inv1: "vm_inv s1 root" "HIGHER_HALF s1 = HIGHER_HALF s"
      using s1(2) same_setup_simps(4) [of s s1] by (auto simp: loads_def)
    note out = loads_outside [OF s1(2) Suc.prems(3)]
    have m1: "mem s1 x = m x" if "x \<in> region data L" for x using out(2) Suc.prems(4) that by simp
    have free: "4 * (\<Sum>j = Suc i..<N. seg_pages m data j) \<le> length (stack_list s1)"
      by (rule loads_free [OF s1(2)]) (use Suc.prems(2) sum in simp)
    obtain s' where s': "?l (of_nat (Suc i)) s1 = Some (True, s')"
      "loads root (4 * (\<Sum>j = Suc i..<N. seg_pages m data j)) s1 s'"
      "\<And>v. (\<And>j. Suc i \<le> j \<Longrightarrow> loadable m data j \<Longrightarrow> outside_seg m (hdr_at m data j) v) \<Longrightarrow> leaf s' root v = leaf s1 root v"
      "\<And>j. Suc i \<le> j \<Longrightarrow> loadable m data j \<Longrightarrow> seg_loaded s' root m (hdr_at m data j) F"
      using Suc.hyps(1) [OF iN(2) inv1(1) free out(1) m1 iN(3)] unfolding inv1(2) by blast
    have "p_type (mem s) ?h = PT_LOAD" using True pc by (simp add: loadable_def)
    then have "?l (of_nat i) s = Some (True, s')"
      using lt s1(1) s'(1) by (subst load_segments.simps) (simp add: ph suc del: of_nat_Suc)
    moreover have "loads root (4 * (\<Sum>j = i..<N. seg_pages m data j)) s s'"
      using loads_trans [OF s1(2) s'(2)] by (simp add: sum algebra_simps)
    moreover have "leaf s' root v = leaf s root v"
      if "\<And>j. i \<le> j \<Longrightarrow> loadable m data j \<Longrightarrow> outside_seg m (hdr_at m data j) v" for v
      using s'(3) [of v] s1(3) [of v] that True by auto
    moreover have "seg_loaded s' root m ?h F"
    proof (rule seg_loaded_keep [OF s'(2) s1(4)])
      fix n assume n: "seg_first m ?h \<le> n" "n < seg_end m ?h"
      show "leaf s' root (of_nat (4096 * n)) = leaf s1 root (of_nat (4096 * n))"
      proof (rule s'(3))
        fix j assume j: "Suc i \<le> j" "loadable m data j"
        then have "seg_end m ?h \<le> seg_first m (hdr_at m data j) \<or> seg_end m (hdr_at m data j) \<le> seg_first m ?h"
          using lay True unfolding elf_layout_def by (metis Suc_n_not_le_n)
        from segments_apart [OF fits [OF True] fits [OF j(2)] this n]
        show "outside_seg m (hdr_at m data j) (of_nat (4096 * n))" .
      qed
    qed
    ultimately show ?thesis using s'(4) by (metis le_neq_implies_less Suc_leI)
  qed
qed


section \<open>What a process sees\<close>

text \<open>The byte that a process finds at an address of its page map.\<close>

definition user_byte :: "pmm \<Rightarrow> u64 \<Rightarrow> u64 \<Rightarrow> u8" where
  "user_byte s pagemap va = mem s (HIGHER_HALF s (virt_to_phys s pagemap va) + (va AND 0xFFF))"

definition elf_valid :: "mem \<Rightarrow> u64 \<Rightarrow> nat \<Rightarrow> bool" where
  "elf_valid m data L \<longleftrightarrow> data \<noteq> NULL \<and> e_magic m data = ELF_MAGIC \<and> e_class m data = 2 \<and>
     e_type m data = 2 \<and> elf_layout m data L"

lemma segment_flags_props:
  "segment_flags pf AND ADDR_MASK = 0" "bit (segment_flags pf) 0" "bit (segment_flags pf) 2"
  "bit (segment_flags pf) 1 \<longleftrightarrow> pf AND PF_W \<noteq> 0" "bit (segment_flags pf) 63 \<longleftrightarrow> pf AND PF_X = 0"
  by (simp_all add: segment_flags_def Let_def VMM_PRESENT_def VMM_WRITE_def VMM_NX_def VMM_USER_def ADDR_MASK_def)

lemma frame_bits:
  assumes "page_aligned q" "q < 2 ^ 52" "n < 12 \<or> 52 \<le> n"
  shows "\<not> bit q n"
proof (cases "n < 12")
  case False
  have "take_bit 52 q = q" using assms(2) by (simp add: take_bit_eq_mod mod_word_less)
  with False assms(3) show ?thesis by (metis bit_take_bit_iff not_le)
qed (use page_aligned_bit [OF assms(1)] in simp)

lemma seg_loaded_byte:
  assumes loaded: "seg_loaded s root m h F" and fits: "seg_fits m L h" and k: "k < unat (p_memsz m h)"
  defines "va \<equiv> p_vaddr m h + of_nat k" and "po \<equiv> unat (p_vaddr m h) mod 4096"
  defines "i \<equiv> (if po + k < 4096 then k else po + k)"
  shows "user_byte s (HIGHER_HALF s root) va = (if i < unat (p_filesz m h) then F (unat (p_offset m h) + i) else 0)"
    "bit (leaf s root va) 0" "bit (leaf s root va) 2" "bit (leaf s root va) 1 \<longleftrightarrow> p_flags m h AND PF_W \<noteq> 0"
    "bit (leaf s root va) 63 \<longleftrightarrow> p_flags m h AND PF_X = 0"
proof -
  let ?v = "unat (p_vaddr m h)" and ?fl = "segment_flags (p_flags m h)" and ?a = "seg_first m h"
  have bound: "?v + unat (p_memsz m h) \<le> 2 ^ 47" using fits by (simp add: seg_fits_def)
  have uk: "unat (of_nat k :: u64) = k" using bound k by (simp add: unat_of_nat)
  have uva: "unat va = ?v + k"
    unfolding va_def using bound k uk by (subst unat_plus_no_wrap) simp_all
  define n j where "n = unat va div 4096" and "j = unat va mod 4096"
  have vd: "?v = 4096 * ?a + po" by (simp add: seg_first_def po_def)
  have "?a \<le> n" unfolding n_def seg_first_def uva by (intro div_le_mono) simp
  moreover have "n < seg_end m h"
  proof -
    have "?v + k + 4096 \<le> ?v + unat (p_memsz m h) + 4095" using k by simp
    then have "(?v + k + 4096) div 4096 \<le> seg_end m h" unfolding seg_end_def by (rule div_le_mono)
    then show ?thesis by (simp add: n_def uva)
  qed
  ultimately obtain q where q: "page_aligned q" "q < 2 ^ 52" "leaf s root (of_nat (4096 * n)) = q OR ?fl"
    "\<And>j. j < 4096 \<Longrightarrow> mem s (HIGHER_HALF s q + of_nat j) =
       page_byte F (unat (p_offset m h)) po (unat (p_filesz m h)) (n - ?a) j"
    using loaded unfolding seg_loaded_def page_is_def po_def by blast
  have un: "unat (of_nat (4096 * n) :: u64) = 4096 * n" "4096 * n \<le> unat va"
    using uva bound k by (simp_all add: unat_of_nat n_def del: of_nat_mult)
  have "same_page va (of_nat (4096 * n))"
    using un uva bound k by (subst same_page_div) (simp_all add: n_def del: of_nat_mult)
  then have lf: "leaf s root va = q OR ?fl" using q(3) by (simp add: leaf_leaf_entry same_page_def)
  show "bit (leaf s root va) 0" "bit (leaf s root va) 2" "bit (leaf s root va) 1 \<longleftrightarrow> p_flags m h AND PF_W \<noteq> 0"
    "bit (leaf s root va) 63 \<longleftrightarrow> p_flags m h AND PF_X = 0"
    using frame_bits [OF q(1,2), of 0] frame_bits [OF q(1,2), of 1] frame_bits [OF q(1,2), of 2] frame_bits [OF q(1,2), of 63]
    by (simp_all only: lf bit_or_iff segment_flags_props) simp_all
  have "(q OR ?fl) AND ADDR_MASK = q"
    using masked_id [OF q(1,2)] segment_flags_props(1) by (simp add: bit.conj_disj_distrib2)
  then have ph: "virt_to_phys s (HIGHER_HALF s root) va = q" by (simp add: virt_to_phys_leaf lf)
  have "va AND 0xFFF = take_bit 12 va" by (simp add: take_bit_eq_mask mask_eq_exp_minus_1)
  then have "unat (va AND 0xFFF) = j" by (simp add: j_def take_bit_eq_mod unat_mod)
  then have vj: "va AND 0xFFF = of_nat j" by auto
  have nj: "4096 * (n - ?a) + j = po + k" "j < 4096"
    using \<open>?a \<le> n\<close> uva vd by (simp_all add: n_def j_def algebra_simps)
  have "user_byte s (HIGHER_HALF s root) va = page_byte F (unat (p_offset m h)) po (unat (p_filesz m h)) (n - ?a) j"
    unfolding user_byte_def ph vj by (rule q(4)) (rule nj)
  also have "\<dots> = (if i < unat (p_filesz m h) then F (unat (p_offset m h) + i) else 0)"
  proof (cases "n - ?a = 0")
    case True
    with nj have "j = po + k" "po + k < 4096" by simp_all
    with True show ?thesis by (simp add: page_byte_def i_def)
  next
    case False
    then have "4096 \<le> 4096 * (n - ?a)" by simp
    then have "\<not> po + k < 4096" using nj(1) by linarith
    with False nj show ?thesis by (simp add: page_byte_def i_def add.assoc)
  qed
  finally show "user_byte s (HIGHER_HALF s root) va = (if i < unat (p_filesz m h) then F (unat (p_offset m h) + i) else 0)" .
qed

lemma elf_load_general:
  assumes "vm_inv s root" and valid: "elf_valid (mem s) data L" and apart: "region data L \<inter> owned s root = {}"
    and "4 * (\<Sum>j = 0..<unat (e_phnum (mem s) data). seg_pages (mem s) data j) \<le> length (stack_list s)"
  obtains s' where "elf_load_binary s data (HIGHER_HALF s root) = Some (e_entry (mem s) data, s')"
    "vm_inv s' root" "same_setup s s'" "\<And>x. x \<in> region data L \<Longrightarrow> mem s' x = mem s x"
    "\<And>v. (\<And>j. loadable (mem s) data j \<Longrightarrow> outside_seg (mem s) (hdr_at (mem s) data j) v) \<Longrightarrow> leaf s' root v = leaf s root v"
    "\<And>j. loadable (mem s) data j \<Longrightarrow> seg_loaded s' root (mem s) (hdr_at (mem s) data j) (\<lambda>k. mem s (data + of_nat k))"
proof -
  have lay: "elf_layout (mem s) data L" using valid by (simp add: elf_valid_def)
  obtain s' where s': "load_segments data (HIGHER_HALF s root) (data + e_phoff (mem s) data) 0 s = Some (True, s')"
    "loads root (4 * (\<Sum>j = 0..<unat (e_phnum (mem s) data). seg_pages (mem s) data j)) s s'"
    "\<And>v. (\<And>j. loadable (mem s) data j \<Longrightarrow> outside_seg (mem s) (hdr_at (mem s) data j) v) \<Longrightarrow> leaf s' root v = leaf s root v"
    "\<And>j. loadable (mem s) data j \<Longrightarrow> seg_loaded s' root (mem s) (hdr_at (mem s) data j) (\<lambda>k. mem s (data + of_nat k))"
    using load_segments_ok [OF lay refl refl assms(1,4,3) refl] by auto
  note out = loads_outside [OF s'(2) apart]
  have "e_entry (mem s') data = e_entry (mem s) data"
    by (rule header_cong) (use out(2) lay region_mono [of 64 L data] in \<open>auto simp: elf_layout_def\<close>)
  then have "elf_load_binary s data (HIGHER_HALF s root) = Some (e_entry (mem s) data, s')"
    using valid s'(1) by (simp add: elf_load_binary_def elf_valid_def)
  then show ?thesis using that s'(2-4) out(2) by (auto simp: loads_def)
qed


text \<open>
  A small executable to instantiate the properties with: one segment with 32 bytes of contents and
  64 bytes in memory. The lowest two bytes of its address are parameters.
\<close>

definition sample_elf :: "u8 \<Rightarrow> u8 \<Rightarrow> u8 list" where
  "sample_elf b0 b1 =
    [0x7f, 0x45, 0x4c, 0x46, 2, 1, 1, 0, 0, 0, 0, 0, 0, 0, 0, 0,
     2, 0, 0x3e, 0, 1, 0, 0, 0, 0, 0, 0x40, 0, 0, 0, 0, 0,
     0x40, 0, 0, 0, 0, 0, 0, 0, 0, 0, 0, 0, 0, 0, 0, 0,
     0, 0, 0, 0, 0x40, 0, 0x38, 0, 1, 0, 0, 0, 0, 0, 0, 0,
     1, 0, 0, 0, 5, 0, 0, 0, 0x78, 0, 0, 0, 0, 0, 0, 0,
     b0, b1, 0x40, 0, 0, 0, 0, 0, 0, 0, 0, 0, 0, 0, 0, 0,
     0x20, 0, 0, 0, 0, 0, 0, 0, 0x40, 0, 0, 0, 0, 0, 0, 0,
     0, 0x10, 0, 0, 0, 0, 0, 0] @ map of_nat [1..<33]"

definition sample_pmm :: "u8 \<Rightarrow> u8 \<Rightarrow> pmm" where
  "sample_pmm b0 b1 = paging_pmm\<lparr>mem := (\<lambda>a.
     if unat (a - 0xffff800000200000) < 152 then sample_elf b0 b1 ! unat (a - 0xffff800000200000)
     else mem paging_pmm a)\<rparr>"

lemma sample_space:
  "vm_inv (sample_pmm b0 b1) 0x1000" "length (stack_list (sample_pmm b0 b1)) = 12"
  "region 0xffff800000200000 152 \<inter> owned (sample_pmm b0 b1) 0x1000 = {}"
proof -
  note su = same_setup_simps [OF paging_fields(2)]
  have fr: "page_frame paging_pmm p = region (p + 0xffff800000000000) 4096" for p
    unfolding su(1) by (simp add: page_frame_def HIGHER_HALF_def paging_base_def one_page_pmm_def)
  have d: "region 0xffff800000200000 152 \<inter> page_frame paging_pmm p = {}"
    if "p \<in> {0x1000} \<union> set (stack_list paging_pmm)" for p
  proof -
    have "region (p + 0xffff800000000000) 4096 \<inter> region (0x200000 + 0xffff800000000000) 152 = {}"
      by (rule region_disjoint) (use that in \<open>auto simp: paging_fields(1)\<close>)
    then show ?thesis unfolding fr by auto
  qed
  have own: "region 0xffff800000200000 152 \<inter> owned paging_pmm 0x1000 = {}"
    unfolding owned_def paging_inv(3) using d by blast
  have "region (0x100000 + 0xffff800000000000) 96 \<inter> region (0x200000 + 0xffff800000000000) 152 = {}"
    by (rule region_disjoint) auto
  then have st: "region 0xffff800000200000 152 \<inter> stack_region paging_pmm = {}"
    unfolding su(2) by (auto simp: stack_region_def paging_base_def one_page_pmm_def)
  have same: "(\<lambda>a. if unat (a - 0xffff800000200000) < 152 then sample_elf b0 b1 ! unat (a - 0xffff800000200000)
     else mem paging_pmm a) x = mem paging_pmm x" if "x \<in> owned paging_pmm 0x1000 \<union> stack_region paging_pmm" for x
    using that own st by (auto simp: region_def)
  note dw = data_write [OF paging_inv(1) sample_pmm_def]
  show "vm_inv (sample_pmm b0 b1) 0x1000" by (rule dw(1)) (erule same)
  have l: "stack_list (sample_pmm b0 b1) = stack_list paging_pmm" by (rule dw(2)) (erule same)
  then show "length (stack_list (sample_pmm b0 b1)) = 12" by (simp only: paging_fields(1)) simp
  have tb: "tables (sample_pmm b0 b1) 0x1000 = tables paging_pmm 0x1000" by (rule dw(4)) (erule same)
  have "same_setup paging_pmm (sample_pmm b0 b1)" by (rule dw(3)) (erule same)
  then show "region 0xffff800000200000 152 \<inter> owned (sample_pmm b0 b1) 0x1000 = {}"
    using own l tb same_setup_simps(1) by (simp add: owned_def)
qed

lemma sample_mem:
  "k < 152 \<Longrightarrow> mem (sample_pmm b0 b1) (0xffff800000200000 + of_nat k) = sample_elf b0 b1 ! k"
  by (simp add: sample_pmm_def unat_of_nat)


lemma sample_fields:
  fixes b0 b1 :: u8
  defines "m \<equiv> mem (sample_pmm b0 b1)" and "d \<equiv> 0xffff800000200000"
  shows "e_magic m d = ELF_MAGIC" "e_class m d = 2" "e_type m d = 2" "e_entry m d = 0x400000"
    "e_phoff m d = 64" "e_phnum m d = 1" "hdr_at m d 0 = 0xffff800000200040"
    "p_type m 0xffff800000200040 = PT_LOAD" "p_flags m 0xffff800000200040 = 5" "p_offset m 0xffff800000200040 = 120"
    "p_vaddr m 0xffff800000200040 = ucast b0 OR push_bit 8 (ucast b1) OR 0x400000"
    "p_filesz m 0xffff800000200040 = 32" "p_memsz m 0xffff800000200040 = 64"
proof -
  note ev = m_def d_def sample_pmm_def sample_elf_def load16_def load32_def load64_def Let_def
  show "e_magic m d = ELF_MAGIC" "e_class m d = 2" "e_type m d = 2" "e_entry m d = 0x400000" "e_phnum m d = 1"
    by (simp_all add: e_magic_def e_class_def e_type_def e_entry_def e_phnum_def ELF_MAGIC_def ev)
  show "e_phoff m d = 64" by (simp add: e_phoff_def ev)
  then show h: "hdr_at m d 0 = 0xffff800000200040" by (simp add: hdr_at_def pheader_def d_def)
  show "p_type m 0xffff800000200040 = PT_LOAD" "p_flags m 0xffff800000200040 = 5" "p_offset m 0xffff800000200040 = 120"
    "p_vaddr m 0xffff800000200040 = ucast b0 OR push_bit 8 (ucast b1) OR 0x400000"
    "p_filesz m 0xffff800000200040 = 32" "p_memsz m 0xffff800000200040 = 64"
    by (simp_all add: p_type_def p_flags_def p_offset_def p_vaddr_def p_filesz_def p_memsz_def PT_LOAD_def ev)
qed


lemma sample_valid:
  fixes b0 b1 :: u8
  defines "m \<equiv> mem (sample_pmm b0 b1)" and "d \<equiv> 0xffff800000200000"
  assumes "(b0, b1) \<in> {(0, 0), (0xf0, 0x0f)}"
  shows "loadable m d j \<longleftrightarrow> j = 0" "elf_valid m d 152"
    "4 * (\<Sum>j = 0..<unat (e_phnum m d). seg_pages m d j) \<le> length (stack_list (sample_pmm b0 b1))"
proof -
  note sf = sample_fields [of b0 b1, folded m_def d_def]
  show ld: "loadable m d j \<longleftrightarrow> j = 0" for j by (auto simp: loadable_def sf)
  have v: "p_vaddr m 0xffff800000200040 \<in> {0x400000, 0x400ff0}" using assms(3) by (auto simp: sf(11))
  have "d \<noteq> 0" by (simp add: d_def)
  with v show "elf_valid m d 152"
    by (auto simp: elf_valid_def elf_layout_def ld sf(1-10,12,13) seg_fits_def)
  show "4 * (\<Sum>j = 0..<unat (e_phnum m d). seg_pages m d j) \<le> length (stack_list (sample_pmm b0 b1))"
    using v unfolding sample_space(2) by (auto simp: sf(1-10,12,13) seg_pages_def ld seg_end_def seg_first_def)
qed


section \<open>Properties\<close>

text \<open>
  C10: Loading a well-formed executable, whose file lies apart from the tables and the free pages, into
  a well-formed address space with four free pages at hand for every page of its segments returns the
  entry point of the file. Every loaded segment that starts at a page boundary or lies in one page is
  then what the process sees: the bytes of the file and zeros behind them, in pages that are open to
  user mode, writable if the segment is and not executable unless it is. The translation of every
  address outside the segments is the old one, and the address space is well-formed.
\<close>

theorem elf_load_correct:
  assumes "vm_inv s root" and "pagemap = HIGHER_HALF s root" and "elf_valid (mem s) data L"
    and "region data L \<inter> owned s root = {}"
    and "4 * (\<Sum>j = 0..<unat (e_phnum (mem s) data). seg_pages (mem s) data j) \<le> length (stack_list s)"
  shows "\<exists>s'. elf_load_binary s data pagemap = Some (e_entry (mem s) data, s') \<and> vm_inv s' root \<and>
    (\<forall>i h k. loadable (mem s) data i \<and> h = hdr_at (mem s) data i \<and> k < unat (p_memsz (mem s) h) \<and>
       (unat (p_vaddr (mem s) h) mod 4096 = 0 \<or> unat (p_vaddr (mem s) h) mod 4096 + unat (p_memsz (mem s) h) \<le> 4096) \<longrightarrow>
       user_byte s' pagemap (p_vaddr (mem s) h + of_nat k) =
         (if k < unat (p_filesz (mem s) h) then mem s (data + p_offset (mem s) h + of_nat k) else 0) \<and>
       bit (leaf s' root (p_vaddr (mem s) h + of_nat k)) 0 \<and> bit (leaf s' root (p_vaddr (mem s) h + of_nat k)) 2 \<and>
       (bit (leaf s' root (p_vaddr (mem s) h + of_nat k)) 1 \<longleftrightarrow> p_flags (mem s) h AND PF_W \<noteq> 0) \<and>
       (bit (leaf s' root (p_vaddr (mem s) h + of_nat k)) 63 \<longleftrightarrow> p_flags (mem s) h AND PF_X = 0)) \<and>
    (\<forall>v. (\<forall>i. loadable (mem s) data i \<longrightarrow> outside_seg (mem s) (hdr_at (mem s) data i) v) \<longrightarrow>
       virt_to_phys s' pagemap v = virt_to_phys s pagemap v)"
proof -
  obtain s' where s': "elf_load_binary s data (HIGHER_HALF s root) = Some (e_entry (mem s) data, s')"
    "vm_inv s' root" "same_setup s s'"
    "\<And>v. (\<And>j. loadable (mem s) data j \<Longrightarrow> outside_seg (mem s) (hdr_at (mem s) data j) v) \<Longrightarrow> leaf s' root v = leaf s root v"
    "\<And>j. loadable (mem s) data j \<Longrightarrow> seg_loaded s' root (mem s) (hdr_at (mem s) data j) (\<lambda>k. mem s (data + of_nat k))"
    using elf_load_general [OF assms(1,3-5)] by metis
  have pm: "pagemap = HIGHER_HALF s' root" using assms(2) same_setup_simps(4) [OF s'(3)] by simp
  have "virt_to_phys s' pagemap v = virt_to_phys s pagemap v"
    if "\<And>i. loadable (mem s) data i \<Longrightarrow> outside_seg (mem s) (hdr_at (mem s) data i) v" for v
    using s'(4) [OF that] virt_to_phys_leaf [of s' root v] virt_to_phys_leaf [of s root v] pm assms(2) by simp
  moreover have fits: "seg_fits (mem s) L (hdr_at (mem s) data i)" if "loadable (mem s) data i" for i
    using assms(3) that by (simp add: elf_valid_def elf_layout_def)
  ultimately show ?thesis
    using s'(1,2) assms(2) seg_loaded_byte [OF s'(5) fits, folded pm]
    by (intro exI [of _ s'] conjI allI impI) (auto simp: add.assoc)
qed

theorem elf_load_correct_witness:
  "\<exists>s'. elf_load_binary (sample_pmm 0 0) 0xffff800000200000 (HIGHER_HALF (sample_pmm 0 0) 0x1000) = Some (0x400000, s') \<and>
     user_byte s' (HIGHER_HALF (sample_pmm 0 0) 0x1000) 0x40001f = 32 \<and>
     user_byte s' (HIGHER_HALF (sample_pmm 0 0) 0x1000) 0x400020 = 0"
proof -
  note sf = sample_fields [of 0 0] and sv = sample_valid [of 0 0]
  obtain s' where s': "elf_load_binary (sample_pmm 0 0) 0xffff800000200000 (HIGHER_HALF (sample_pmm 0 0) 0x1000) = Some (0x400000, s')"
    "\<And>k. k < 64 \<Longrightarrow> user_byte s' (HIGHER_HALF (sample_pmm 0 0) 0x1000) (0x400000 + of_nat k) =
      (if k < 32 then mem (sample_pmm 0 0) (0xffff800000200078 + of_nat k) else 0)"
    using elf_load_correct [OF sample_space(1) refl sv(2) sample_space(3) sv(3)]
    by (auto simp: sv(1) sf)
  have "mem (sample_pmm 0 0) 0xffff800000200097 = 32"
    by (simp add: sample_pmm_def sample_elf_def)
  with s'(1) s'(2) [of 31] s'(2) [of 32] show ?thesis by auto
qed


text \<open>
  A segment that starts \<open>po\<close> bytes into a page and reaches into further pages is not loaded as
  the file says: from the second page on, the process sees the byte of the file that lies \<open>po\<close> bytes
  behind the right one, and zeros where that is behind the end of the segment in the file.
\<close>

theorem elf_load_unaligned:
  assumes "vm_inv s root" and "pagemap = HIGHER_HALF s root" and "elf_valid (mem s) data L"
    and "region data L \<inter> owned s root = {}"
    and "4 * (\<Sum>j = 0..<unat (e_phnum (mem s) data). seg_pages (mem s) data j) \<le> length (stack_list s)"
    and "loadable (mem s) data i" and "h = hdr_at (mem s) data i" and "po = unat (p_vaddr (mem s) h) mod 4096"
    and "k < unat (p_memsz (mem s) h)" and "4096 \<le> po + k"
  shows "\<exists>s'. elf_load_binary s data pagemap = Some (e_entry (mem s) data, s') \<and>
    user_byte s' pagemap (p_vaddr (mem s) h + of_nat k) =
      (if po + k < unat (p_filesz (mem s) h) then mem s (data + p_offset (mem s) h + of_nat (po + k)) else 0)"
proof -
  obtain s' where s': "elf_load_binary s data (HIGHER_HALF s root) = Some (e_entry (mem s) data, s')" "same_setup s s'"
    "seg_loaded s' root (mem s) h (\<lambda>k. mem s (data + of_nat k))"
    using elf_load_general [OF assms(1,3-5)] assms(6,7) by metis
  have pm: "pagemap = HIGHER_HALF s' root" using assms(2) same_setup_simps(4) [OF s'(2)] by simp
  have fits: "seg_fits (mem s) L h" using assms(3,6,7) by (simp add: elf_valid_def elf_layout_def)
  from seg_loaded_byte(1) [OF s'(3) fits assms(9), folded pm assms(8)] s'(1) assms(2,10) show ?thesis
    by (auto simp: add.assoc)
qed

theorem elf_load_unaligned_witness:
  "\<exists>s'. elf_load_binary (sample_pmm 0xf0 0x0f) 0xffff800000200000 (HIGHER_HALF (sample_pmm 0xf0 0x0f) 0x1000) = Some (0x400000, s') \<and>
     user_byte s' (HIGHER_HALF (sample_pmm 0xf0 0x0f) 0x1000) 0x401000 = 0 \<and> sample_elf 0xf0 0x0f ! (120 + 16) = 17"
proof -
  note sf = sample_fields [of "0xf0" "0x0f"] and sv = sample_valid [of "0xf0" "0x0f"]
  have "sample_elf 0xf0 0x0f ! (120 + 16) = 17" by (simp add: sample_elf_def)
  moreover have "loadable (mem (sample_pmm 0xf0 0x0f)) 0xffff800000200000 0" by (simp add: sv(1))
  ultimately show ?thesis
    using elf_load_unaligned [OF sample_space(1) refl sv(2) sample_space(3) sv(3), of 0 _ _ 16]
    by (simp add: sf)
qed



end
