(* ===== verification/Nanoprintf.thy ===== *)
theory Nanoprintf
  imports Mem_Lib "HOL-Library.Signed_Division"
begin

text \<open>
  Formatted output, \<open>kernel/src/lib/nanoprintf.h\<close>, as \<open>printf.c\<close> configures it: field widths,
  precisions and large integers, no floating point, no binary and no write-back conversions.
  The format and the string arguments are read from the memory at the call; they must not overlap
  the buffer that is written, as for every \<open>snprintf\<close>. The variable arguments are a list of
  64-bit slots. A C \<open>int\<close> is an \<open>int\<close> with the wrap-around to 32 bits written out. The result
  \<open>None\<close> stands for a format that takes more arguments than there are and for a loop that does not
  end.
\<close>

section \<open>Definitions\<close>

definition wrap32 :: "int \<Rightarrow> int" where
  "wrap32 i = signed_take_bit 31 i"

datatype npf_fmt_spec_opt = OPT_NONE | OPT_LITERAL | OPT_STAR

datatype npf_length_modifier = LEN_NONE | LEN_SHORT | LEN_LONG_DOUBLE | LEN_CHAR | LEN_LONG
  | LEN_LONG_LONG | LEN_INTMAX | LEN_SIZET | LEN_PTRDIFFT

datatype npf_conversion = CONV_PERCENT | CONV_CHAR | CONV_STRING | CONV_SIGNED_INT | CONV_OCTAL
  | CONV_HEX_INT | CONV_UNSIGNED_INT | CONV_POINTER

record npf_format_spec =
  prepend :: u8
  alt_form :: u8
  field_width_opt :: npf_fmt_spec_opt
  field_width :: int
  left_justified :: u8
  leading_zero_pad :: u8
  prec_opt :: npf_fmt_spec_opt
  prec :: int
  length_modifier :: npf_length_modifier
  conv_spec :: npf_conversion
  case_adjust :: u8

definition NANOPRINTF_CONVERSION_BUFFER_SIZE :: nat where
  "NANOPRINTF_CONVERSION_BUFFER_SIZE = 23"

definition npf_max :: "int \<Rightarrow> int \<Rightarrow> int" where
  "npf_max x y = (if x > y then x else y)"

subsection \<open>Parsing a conversion\<close>

text \<open>The loop over the flags, \<open>while (*++cur)\<close>.\<close>

partial_function (option) parse_flags :: "mem \<Rightarrow> u64 \<Rightarrow> npf_format_spec \<Rightarrow> (u64 \<times> npf_format_spec) option" where
  "parse_flags m cur0 fs =
     (let cur = cur0 + 1; c = m cur in
      if c = 0 then Some (cur, fs)
      else if c = 45 then parse_flags m cur (fs\<lparr>left_justified := 45, leading_zero_pad := 0\<rparr>)
      else if c = 48 then parse_flags m cur (fs\<lparr>leading_zero_pad := (if left_justified fs = 0 then 1 else 0)\<rparr>)
      else if c = 43 then parse_flags m cur (fs\<lparr>prepend := 43\<rparr>)
      else if c = 32 then parse_flags m cur (if prepend fs = 0 then fs\<lparr>prepend := 32\<rparr> else fs)
      else if c = 35 then parse_flags m cur (fs\<lparr>alt_form := 35\<rparr>)
      else Some (cur, fs))"

text \<open>The loop over decimal digits, used for the width and for the precision.\<close>

partial_function (option) parse_digits :: "mem \<Rightarrow> u64 \<Rightarrow> int \<Rightarrow> (u64 \<times> int) option" where
  "parse_digits m cur v =
     (if m cur \<ge> 48 \<and> m cur \<le> 57 then parse_digits m (cur + 1) (wrap32 (v * 10 + (uint (m cur) - 48)))
      else Some (cur, v))"

definition parse_width :: "mem \<Rightarrow> u64 \<Rightarrow> npf_format_spec \<Rightarrow> (u64 \<times> npf_format_spec) option" where
  "parse_width m cur fs =
     (if m cur = 42 then Some (cur + 1, fs\<lparr>field_width_opt := OPT_STAR\<rparr>)
      else do {
        (cur', w) \<leftarrow> parse_digits m cur 0;
        Some (cur', fs\<lparr>field_width_opt := (if cur' = cur then OPT_NONE else OPT_LITERAL), field_width := w\<rparr>) })"

definition parse_prec :: "mem \<Rightarrow> u64 \<Rightarrow> npf_format_spec \<Rightarrow> (u64 \<times> npf_format_spec) option" where
  "parse_prec m cur fs =
     (if m cur \<noteq> 46 then Some (cur, fs\<lparr>prec_opt := OPT_NONE, prec := 0\<rparr>)
      else if m (cur + 1) = 42 then Some (cur + 2, fs\<lparr>prec_opt := OPT_STAR, prec := 0\<rparr>)
      else do {
        let (cur1, opt) = (if m (cur + 1) = 45 then (cur + 2, OPT_NONE) else (cur + 1, OPT_LITERAL));
        (cur2, p) \<leftarrow> parse_digits m cur1 0;
        Some (cur2, fs\<lparr>prec_opt := opt, prec := p\<rparr>) })"

definition parse_length :: "mem \<Rightarrow> u64 \<Rightarrow> npf_format_spec \<Rightarrow> u64 \<times> npf_format_spec" where
  "parse_length m cur fs =
     (if m cur = 104
      then if m (cur + 1) = 104 then (cur + 2, fs\<lparr>length_modifier := LEN_CHAR\<rparr>)
           else (cur + 1, fs\<lparr>length_modifier := LEN_SHORT\<rparr>)
      else if m cur = 108
      then if m (cur + 1) = 108 then (cur + 2, fs\<lparr>length_modifier := LEN_LONG_LONG\<rparr>)
           else (cur + 1, fs\<lparr>length_modifier := LEN_LONG\<rparr>)
      else if m cur = 106 then (cur + 1, fs\<lparr>length_modifier := LEN_INTMAX\<rparr>)
      else if m cur = 122 then (cur + 1, fs\<lparr>length_modifier := LEN_SIZET\<rparr>)
      else if m cur = 116 then (cur + 1, fs\<lparr>length_modifier := LEN_PTRDIFFT\<rparr>)
      else (cur, fs\<lparr>length_modifier := LEN_NONE\<rparr>))"

definition integer_conv :: "npf_conversion \<Rightarrow> npf_format_spec \<Rightarrow> npf_format_spec" where
  "integer_conv cv fs =
     (let fs1 = fs\<lparr>conv_spec := cv\<rparr> in
      if prec_opt fs \<noteq> OPT_NONE then fs1\<lparr>leading_zero_pad := 0\<rparr> else fs1)"

definition parse_conv :: "u8 \<Rightarrow> npf_format_spec \<Rightarrow> npf_format_spec option" where
  "parse_conv c fs =
     (if c = 37 then Some (fs\<lparr>conv_spec := CONV_PERCENT, prec_opt := OPT_NONE\<rparr>)
      else if c = 99 then Some (fs\<lparr>conv_spec := CONV_CHAR, prec_opt := OPT_NONE\<rparr>)
      else if c = 115 then Some (fs\<lparr>conv_spec := CONV_STRING, leading_zero_pad := 0\<rparr>)
      else if c = 105 \<or> c = 100 then Some (integer_conv CONV_SIGNED_INT fs)
      else if c = 111 then Some (integer_conv CONV_OCTAL fs)
      else if c = 117 then Some (integer_conv CONV_UNSIGNED_INT fs)
      else if c = 88 then Some (integer_conv CONV_HEX_INT (fs\<lparr>case_adjust := 0\<rparr>))
      else if c = 120 then Some (integer_conv CONV_HEX_INT fs)
      else if c = 112 then Some (fs\<lparr>conv_spec := CONV_POINTER, prec_opt := OPT_NONE\<rparr>)
      else None)"

text \<open>
  The parser assigns every field that is read later; the others start from fixed values here. The
  result is the length of the conversion, 0 if it is not one.
\<close>

definition npf_parse_format_spec :: "mem \<Rightarrow> u64 \<Rightarrow> (u64 \<times> npf_format_spec) option" where
  "npf_parse_format_spec m format = do {
     let fs0 = \<lparr>prepend = 0, alt_form = 0, field_width_opt = OPT_NONE, field_width = 0,
       left_justified = 0, leading_zero_pad = 0, prec_opt = OPT_NONE, prec = 0,
       length_modifier = LEN_NONE, conv_spec = CONV_PERCENT, case_adjust = 97 - 65\<rparr>;
     (cur1, fs1) \<leftarrow> parse_flags m format fs0;
     (cur2, fs2) \<leftarrow> parse_width m cur1 fs1;
     (cur3, fs3) \<leftarrow> parse_prec m cur2 fs2;
     let (cur4, fs4) = parse_length m cur3 fs3;
     Some (case parse_conv (m cur4) fs4 of None \<Rightarrow> (0, fs4) | Some fs5 \<Rightarrow> (cur4 + 1 - format, fs5)) }"

subsection \<open>Numbers\<close>

text \<open>Both fill the buffer with the last digit first; the result is what they have written.\<close>

function itoa_loop :: "int \<Rightarrow> int \<Rightarrow> u8 list" where
  "itoa_loop sg i =
     (48 + of_int (sg * (i smod 10))) # (if i sdiv 10 = 0 then [] else itoa_loop sg (i sdiv 10))"
  by pat_completeness auto

termination itoa_loop
proof (relation "measure (\<lambda>(sg, i). nat \<bar>i\<bar>)")
  fix sg i :: int assume "i sdiv 10 \<noteq> 0"
  then have "\<bar>i sdiv 10\<bar> < \<bar>i\<bar>"
    by (auto simp: signed_divide_int_def sgn_if split: if_splits)
  then show "((sg, i sdiv 10), sg, i) \<in> measure (\<lambda>(sg, i). nat \<bar>i\<bar>)" by simp
qed simp

definition npf_itoa_rev :: "int \<Rightarrow> u8 list" where
  "npf_itoa_rev i = itoa_loop (if i \<ge> 0 then 1 else -1) i"

partial_function (option) npf_utoa_rev :: "u64 \<Rightarrow> u64 \<Rightarrow> u8 \<Rightarrow> u8 list option" where
  "npf_utoa_rev i base case_adj =
     (let d = i mod base;
          c = (if d < 10 then 48 + ucast d else 65 + case_adj + ucast (d - 10))
      in if i div base = 0 then Some [c]
         else do { cs \<leftarrow> npf_utoa_rev (i div base) base case_adj; Some (c # cs) })"


subsection \<open>Converting an argument\<close>

text \<open>\<open>NPF_EXTRACT\<close>: the value of an argument slot at the width that the length modifier names.\<close>

definition extract_signed :: "npf_length_modifier \<Rightarrow> u64 \<Rightarrow> int" where
  "extract_signed len v =
     (case len of
        LEN_NONE \<Rightarrow> sint (ucast v :: u32)
      | LEN_SHORT \<Rightarrow> sint (ucast v :: u16)
      | LEN_LONG_DOUBLE \<Rightarrow> sint (ucast v :: u32)
      | LEN_CHAR \<Rightarrow> sint (ucast v :: u8)
      | _ \<Rightarrow> sint v)"

definition extract_unsigned :: "npf_length_modifier \<Rightarrow> u64 \<Rightarrow> u64" where
  "extract_unsigned len v =
     (case len of
        LEN_NONE \<Rightarrow> ucast (ucast v :: u32)
      | LEN_SHORT \<Rightarrow> ucast (ucast v :: u16)
      | LEN_LONG_DOUBLE \<Rightarrow> ucast (ucast v :: u32)
      | LEN_CHAR \<Rightarrow> ucast (ucast v :: u8)
      | _ \<Rightarrow> v)"

definition star_width :: "npf_format_spec \<Rightarrow> u64 list \<Rightarrow> (npf_format_spec \<times> u64 list) option" where
  "star_width fs args =
     (if field_width_opt fs \<noteq> OPT_STAR then Some (fs, args)
      else case args of
        [] \<Rightarrow> None
      | a # rest \<Rightarrow>
          let w = sint (ucast a :: u32); fs1 = fs\<lparr>field_width_opt := OPT_LITERAL, field_width := w\<rparr>
          in Some (if w < 0 then fs1\<lparr>field_width := wrap32 (- w), left_justified := 1\<rparr> else fs1, rest))"

definition star_prec :: "npf_format_spec \<Rightarrow> u64 list \<Rightarrow> (npf_format_spec \<times> u64 list) option" where
  "star_prec fs args =
     (if prec_opt fs \<noteq> OPT_STAR then Some (fs, args)
      else case args of
        [] \<Rightarrow> None
      | a # rest \<Rightarrow>
          let p = sint (ucast a :: u32)
          in Some (fs\<lparr>prec_opt := (if p \<ge> 0 then OPT_LITERAL else OPT_NONE), prec := p\<rparr>, rest))"

text \<open>The characters of a string argument, up to the precision if there is one.\<close>

partial_function (option) string_chars :: "mem \<Rightarrow> npf_format_spec \<Rightarrow> u64 \<Rightarrow> int \<Rightarrow> u8 list option" where
  "string_chars m fs s n =
     (if (prec_opt fs = OPT_NONE \<or> n < prec fs) \<and> m s \<noteq> 0
      then do { cs \<leftarrow> string_chars m fs (s + 1) (wrap32 (n + 1)); Some (m s # cs) }
      else Some [])"

record conversion =
  cbuf :: "u8 list"
  sign_c :: u8
  need_0x :: u8
  zero :: bool

definition convert_unsigned :: "npf_format_spec \<Rightarrow> u64 \<Rightarrow> (npf_format_spec \<times> conversion) option" where
  "convert_unsigned fs val = do {
     let base = (if conv_spec fs = CONV_OCTAL then 8 else if conv_spec fs = CONV_HEX_INT then 16 else 10);
     (fs1, buf) \<leftarrow>
       (if val = 0 \<and> prec_opt fs = OPT_LITERAL \<and> prec fs = 0
        then Some (if conv_spec fs = CONV_OCTAL \<and> alt_form fs \<noteq> 0 then fs\<lparr>prec := 1\<rparr> else fs, [])
        else do { cs \<leftarrow> npf_utoa_rev val base (case_adjust fs); Some (fs, cs) });
     let buf' = (if val \<noteq> 0 \<and> alt_form fs \<noteq> 0 \<and> conv_spec fs = CONV_OCTAL then buf @ [48] else buf);
     let need = (if val \<noteq> 0 \<and> alt_form fs \<noteq> 0 \<and> conv_spec fs = CONV_HEX_INT then 88 + case_adjust fs else 0);
     Some (fs1, \<lparr>cbuf = buf', sign_c = 0, need_0x = need, zero = (val = 0)\<rparr>) }"

definition convert_arg :: "mem \<Rightarrow> npf_format_spec \<Rightarrow> u64 \<Rightarrow> (npf_format_spec \<times> conversion) option" where
  "convert_arg m fs a =
     (case conv_spec fs of
        CONV_PERCENT \<Rightarrow> Some (fs, \<lparr>cbuf = [37], sign_c = 0, need_0x = 0, zero = False\<rparr>)
      | CONV_CHAR \<Rightarrow> Some (fs, \<lparr>cbuf = [ucast a], sign_c = 0, need_0x = 0, zero = False\<rparr>)
      | CONV_STRING \<Rightarrow> do {
          cs \<leftarrow> string_chars m fs a 0;
          Some (fs, \<lparr>cbuf = cs, sign_c = 0, need_0x = 0, zero = False\<rparr>) }
      | CONV_SIGNED_INT \<Rightarrow>
          let val = extract_signed (length_modifier fs) a in
          Some (fs, \<lparr>cbuf = (if val = 0 \<and> prec_opt fs = OPT_LITERAL \<and> prec fs = 0 then [] else npf_itoa_rev val),
            sign_c = (if val < 0 then 45 else prepend fs), need_0x = 0, zero = (val = 0)\<rparr>)
      | CONV_POINTER \<Rightarrow> do {
          cs \<leftarrow> npf_utoa_rev a 16 (97 - 65);
          Some (fs, \<lparr>cbuf = cs, sign_c = 0, need_0x = 120, zero = False\<rparr>) }
      | _ \<Rightarrow> convert_unsigned fs (extract_unsigned (length_modifier fs) a))"

definition convert :: "mem \<Rightarrow> npf_format_spec \<Rightarrow> u64 list \<Rightarrow> (npf_format_spec \<times> conversion \<times> u64 list) option" where
  "convert m fs args =
     (if conv_spec fs = CONV_PERCENT
      then do { (fs1, cv) \<leftarrow> convert_arg m fs 0; Some (fs1, cv, args) }
      else case args of
        [] \<Rightarrow> None
      | a # rest \<Rightarrow> do { (fs1, cv) \<leftarrow> convert_arg m fs a; Some (fs1, cv, rest) })"

subsection \<open>Printing\<close>

text \<open>\<open>npf_putc_cnt\<close>: the characters are counted and passed on to \<open>pc\<close>.\<close>

definition npf_putc_cnt :: "(u8 \<Rightarrow> 's \<Rightarrow> 's) \<Rightarrow> u8 \<Rightarrow> 's \<times> u32 \<Rightarrow> 's \<times> u32" where
  "npf_putc_cnt pc c st = (pc c (fst st), snd st + 1)"

primrec putc_times :: "(u8 \<Rightarrow> 's \<Rightarrow> 's) \<Rightarrow> nat \<Rightarrow> u8 \<Rightarrow> 's \<times> u32 \<Rightarrow> 's \<times> u32" where
  "putc_times pc 0 c st = st"
| "putc_times pc (Suc n) c st = putc_times pc n c (npf_putc_cnt pc c st)"

definition put_0x :: "(u8 \<Rightarrow> 's \<Rightarrow> 's) \<Rightarrow> u8 \<Rightarrow> 's \<times> u32 \<Rightarrow> 's \<times> u32" where
  "put_0x pc need st = (if need \<noteq> 0 then npf_putc_cnt pc need (npf_putc_cnt pc 48 st) else st)"

definition put_sign :: "(u8 \<Rightarrow> 's \<Rightarrow> 's) \<Rightarrow> u8 \<Rightarrow> 's \<times> u32 \<Rightarrow> 's \<times> u32" where
  "put_sign pc c st = (if c \<noteq> 0 then npf_putc_cnt pc c st else st)"

definition pad_char :: "npf_format_spec \<Rightarrow> conversion \<Rightarrow> u8" where
  "pad_char fs cv =
     (if field_width_opt fs = OPT_LITERAL
      then if leading_zero_pad fs \<noteq> 0
           then if conv_spec fs \<noteq> CONV_STRING \<and> conv_spec fs \<noteq> CONV_CHAR \<and> conv_spec fs \<noteq> CONV_PERCENT
                then if prec_opt fs = OPT_LITERAL \<and> prec fs = 0 \<and> zero cv then 32 else 48
                else 0
           else 32
      else 0)"

definition prec_pad :: "npf_format_spec \<Rightarrow> conversion \<Rightarrow> int" where
  "prec_pad fs cv =
     (if conv_spec fs \<noteq> CONV_STRING then npf_max 0 (wrap32 (prec fs - int (length (cbuf cv)))) else 0)"

definition field_pad :: "npf_format_spec \<Rightarrow> conversion \<Rightarrow> int" where
  "field_pad fs cv =
     npf_max 0 (wrap32 (field_width fs - int (length (cbuf cv)) - (if sign_c cv \<noteq> 0 then 1 else 0)
       - (if need_0x cv \<noteq> 0 then 2 else 0) - prec_pad fs cv))"

definition emit :: "(u8 \<Rightarrow> 's \<Rightarrow> 's) \<Rightarrow> npf_format_spec \<Rightarrow> conversion \<Rightarrow> 's \<times> u32 \<Rightarrow> 's \<times> u32" where
  "emit pc fs cv st0 =
     (let pad_c = pad_char fs cv;
          pads = putc_times pc (nat (field_pad fs cv)) pad_c;
          sign_first = (left_justified fs = 0 \<and> pad_c = 48);
          st1 = (if left_justified fs = 0 \<and> pad_c \<noteq> 0
                 then if pad_c = 48 then pads (put_0x pc (need_0x cv) (put_sign pc (sign_c cv) st0))
                      else put_0x pc (need_0x cv) (pads st0)
                 else put_0x pc (need_0x cv) st0);
          st2 = (if conv_spec fs = CONV_STRING
                 then fold (npf_putc_cnt pc) (cbuf cv) st1
                 else fold (npf_putc_cnt pc) (rev (cbuf cv))
                        (putc_times pc (nat (prec_pad fs cv)) 48
                          (if sign_first then st1 else put_sign pc (sign_c cv) st1)))
      in if left_justified fs \<noteq> 0 \<and> pad_c \<noteq> 0 then pads st2 else st2)"

partial_function (option) npf_vpprintf ::
    "(u8 \<Rightarrow> 's \<Rightarrow> 's) \<Rightarrow> mem \<Rightarrow> u64 \<Rightarrow> u64 list \<Rightarrow> 's \<times> u32 \<Rightarrow> ('s \<times> u32) option" where
  "npf_vpprintf pc m cur args st =
     (if m cur = 0 then Some st
      else if m cur \<noteq> 37 then npf_vpprintf pc m (cur + 1) args (npf_putc_cnt pc (m cur) st)
      else do {
        (fs_len, fs) \<leftarrow> npf_parse_format_spec m cur;
        if fs_len = 0 then npf_vpprintf pc m (cur + 1) args (npf_putc_cnt pc (m cur) st)
        else do {
          (fs1, args1) \<leftarrow> star_width fs args;
          (fs2, args2) \<leftarrow> star_prec fs1 args1;
          (fs3, cv, args3) \<leftarrow> convert m fs2 args2;
          npf_vpprintf pc m (cur + fs_len) args3 (emit pc fs3 cv st) } })"

record npf_bufputc_ctx =
  dst :: u64
  len :: u64
  cur :: u64
  out_mem :: mem

definition npf_bufputc :: "u8 \<Rightarrow> npf_bufputc_ctx \<Rightarrow> npf_bufputc_ctx" where
  "npf_bufputc c bpc =
     (if cur bpc < len bpc
      then bpc\<lparr>cur := cur bpc + 1, out_mem := (out_mem bpc)(dst bpc + cur bpc := c)\<rparr>
      else bpc)"

definition npf_bufputc_nop :: "u8 \<Rightarrow> npf_bufputc_ctx \<Rightarrow> npf_bufputc_ctx" where
  "npf_bufputc_nop c bpc = bpc"

definition npf_vsnprintf :: "mem \<Rightarrow> u64 \<Rightarrow> u64 \<Rightarrow> u64 \<Rightarrow> u64 list \<Rightarrow> (u32 \<times> mem) option" where
  "npf_vsnprintf m buffer bufsz format vlist = do {
     let pc = (if buffer \<noteq> NULL then npf_bufputc else npf_bufputc_nop);
     (ctx, n) \<leftarrow> npf_vpprintf pc m format vlist (\<lparr>dst = buffer, len = bufsz, cur = 0, out_mem = m\<rparr>, 0);
     let m1 = out_mem (pc 0 ctx);
     Some (n, if buffer \<noteq> NULL \<and> bufsz \<noteq> 0 then m1(buffer + (bufsz - 1) := 0) else m1) }"

text \<open>The variants with an argument list of their own only collect the arguments.\<close>

definition npf_snprintf :: "mem \<Rightarrow> u64 \<Rightarrow> u64 \<Rightarrow> u64 \<Rightarrow> u64 list \<Rightarrow> (u32 \<times> mem) option" where
  "npf_snprintf m buffer bufsz format args = npf_vsnprintf m buffer bufsz format args"

definition npf_pprintf :: "(u8 \<Rightarrow> 's \<Rightarrow> 's) \<Rightarrow> 's \<Rightarrow> mem \<Rightarrow> u64 \<Rightarrow> u64 list \<Rightarrow> (u32 \<times> 's) option" where
  "npf_pprintf pc pc_ctx m format args =
     map_option (\<lambda>(s, n). (n, s)) (npf_vpprintf pc m format args (pc_ctx, 0))"


section \<open>Digits\<close>

text \<open>The decimal digits of a number, the last one first.\<close>

function dec_rev :: "nat \<Rightarrow> u8 list" where
  "dec_rev n = (48 + of_nat (n mod 10)) # (if n div 10 = 0 then [] else dec_rev (n div 10))"
  by pat_completeness auto

termination dec_rev
  by (relation "measure id") auto

declare dec_rev.simps [simp del] itoa_loop.simps [simp del]

lemma itoa_step:
  "int n sdiv 10 = int (n div 10)" "int n smod 10 = int (n mod 10)"
  "- int n sdiv 10 = - int (n div 10)" "- int n smod 10 = - int (n mod 10)"
proof -
  show q: "int n sdiv 10 = int (n div 10)" "- int n sdiv 10 = - int (n div 10)"
    by (simp_all add: signed_divide_int_def sgn_if zdiv_int)
  show "int n smod 10 = int (n mod 10)" "- int n smod 10 = - int (n mod 10)"
    by (cases "n = 0"; simp add: signed_modulo_int_def zmod_int sgn_if)+
qed

lemma itoa_loop_dec: "itoa_loop 1 (int n) = dec_rev n" "itoa_loop (- 1) (- int n) = dec_rev n"
proof (induction n rule: less_induct)
  case (less n)
  have IH: "itoa_loop 1 (int (n div 10)) = dec_rev (n div 10)" "itoa_loop (- 1) (- int (n div 10)) = dec_rev (n div 10)"
    if "n div 10 \<noteq> 0"
    using less [of "n div 10"] that by auto
  have c: "(of_int (int (n mod 10)) :: u8) = of_nat (n mod 10)" by (rule of_int_of_nat_eq)
  have one: "1 * x = x" "- 1 * - x = x" for x :: int by simp_all
  consider (last) "n div 10 = 0" "int (n div 10) = 0" "- int (n div 10) = 0"
    | (more) "n div 10 \<noteq> 0" "int (n div 10) \<noteq> 0" "- int (n div 10) \<noteq> 0" by linarith
  then have "itoa_loop 1 (int n) = dec_rev n \<and> itoa_loop (- 1) (- int n) = dec_rev n"
  proof cases
    case last
    then show ?thesis
      by (intro conjI; subst itoa_loop.simps, subst dec_rev.simps, simp only: itoa_step one c if_True simp_thms)
  next
    case more
    then show ?thesis
      by (intro conjI; subst itoa_loop.simps, subst dec_rev.simps, simp only: itoa_step one c IH if_False simp_thms)
  qed
  then show "itoa_loop 1 (int n) = dec_rev n" "itoa_loop (- 1) (- int n) = dec_rev n" by simp_all
qed

lemma npf_itoa_rev_dec: "npf_itoa_rev i = dec_rev (nat \<bar>i\<bar>)"
proof (cases "0 \<le> i")
  case True
  then show ?thesis using itoa_loop_dec(1) [of "nat i"] by (simp add: npf_itoa_rev_def)
next
  case False
  then show ?thesis using itoa_loop_dec(2) [of "nat (- i)"] by (simp add: npf_itoa_rev_def)
qed

lemma dec_rev_length: "n < 10 ^ k \<Longrightarrow> 0 < k \<Longrightarrow> length (dec_rev n) \<le> k"
proof (induction k arbitrary: n)
  case (Suc k)
  show ?case
  proof (cases "n div 10 = 0")
    case False
    then have "0 < k" using Suc.prems(1) by (cases k) auto
    moreover have "n div 10 < 10 ^ k" using Suc.prems(1) by auto
    ultimately show ?thesis using Suc.IH by (subst dec_rev.simps) simp
  qed (subst dec_rev.simps, simp)
qed simp

lemma npf_utoa_rev_length:
  assumes "2 \<le> unat base" and "unat i < unat base ^ k" and "0 < k"
  obtains cs where "npf_utoa_rev i base adj = Some cs" "length cs \<le> k"
proof -
  have "\<exists>cs. npf_utoa_rev i base adj = Some cs \<and> length cs \<le> k"
    using assms(2,3)
  proof (induction k arbitrary: i)
    case (Suc k)
    show ?case
    proof (cases "i div base = 0")
      case False
      then have nz: "unat i div unat base \<noteq> 0" by (metis unat_0_iff unat_div)
      then have "0 < k" using Suc.prems(1) by (cases k) auto
      moreover have "unat (i div base) < unat base ^ k"
        using Suc.prems(1) by (simp add: unat_div less_mult_imp_div_less mult.commute)
      ultimately obtain cs where "npf_utoa_rev (i div base) base adj = Some cs" "length cs \<le> k"
        using Suc.IH by blast
      with False show ?thesis by (subst npf_utoa_rev.simps) (simp add: Let_def)
    qed (subst npf_utoa_rev.simps, simp add: Let_def)
  qed simp
  with that show ?thesis by blast
qed

text \<open>A 64-bit number has at most 22 digits in the bases that are used.\<close>

lemma utoa_22:
  assumes "base \<in> {8, 10, 16}"
  obtains cs where "npf_utoa_rev i base adj = Some cs" "length cs \<le> 22"
proof -
  have "unat i < 2 ^ 64" using unat_lt_64 [of i] by simp
  also have "(2 :: nat) ^ 64 \<le> unat base ^ 22" using assms by auto
  finally have lt: "unat i < unat base ^ 22" .
  have "2 \<le> unat base" using assms by auto
  then show ?thesis by (rule npf_utoa_rev_length [OF _ lt, of adj]) (use that in auto)
qed


section \<open>What is printed\<close>

text \<open>The characters that a conversion prints.\<close>

definition spec_text :: "npf_format_spec \<Rightarrow> conversion \<Rightarrow> u8 list" where
  "spec_text fs cv =
     (let pad_c = pad_char fs cv; pad = replicate (nat (field_pad fs cv)) pad_c;
          ox = (if need_0x cv \<noteq> 0 then [48, need_0x cv] else []);
          sg = (if sign_c cv \<noteq> 0 then [sign_c cv] else []);
          str = (conv_spec fs = CONV_STRING);
          num = replicate (nat (prec_pad fs cv)) 48 @ rev (cbuf cv)
      in if left_justified fs = 0 \<and> pad_c = 48 then sg @ ox @ pad @ (if str then cbuf cv else num)
         else if left_justified fs = 0 \<and> pad_c \<noteq> 0 then pad @ ox @ (if str then cbuf cv else sg @ num)
         else ox @ (if str then cbuf cv else sg @ num) @ (if left_justified fs \<noteq> 0 \<and> pad_c \<noteq> 0 then pad else []))"

lemma putc_times_fold: "putc_times pc n c st = fold (npf_putc_cnt pc) (replicate n c) st"
  by (induction n arbitrary: st) simp_all

lemma emit_fold: "emit pc fs cv st = fold (npf_putc_cnt pc) (spec_text fs cv) st"
  by (simp add: emit_def spec_text_def Let_def putc_times_fold put_0x_def put_sign_def)

lemma fold_putc: "fold (npf_putc_cnt pc) cs st = (fold pc cs (fst st), snd st + of_nat (length cs))"
  by (induction cs arbitrary: st) (simp_all add: npf_putc_cnt_def)

abbreviation snoc :: "u8 \<Rightarrow> u8 list \<Rightarrow> u8 list" where
  "snoc \<equiv> (\<lambda>c cs. cs @ [c])"

lemma fold_snoc: "fold snoc cs ds = ds @ cs"
  by (induction cs arbitrary: ds) simp_all


text \<open>
  What a call prints does not depend on what becomes of the characters: a run that only collects
  them determines every other run.
\<close>

lemma vpprintf_collect:
  assumes "npf_vpprintf snoc m c args (cs0, n0) = Some (cs, n)"
  shows "npf_vpprintf pc m c args (fold pc cs0 s, n0) = Some (fold pc cs s, n) \<and>
    (\<exists>ds. cs = cs0 @ ds \<and> n = n0 + of_nat (length ds))"
proof -
  have "\<forall>cs0 n0 cs n. st = (cs0, n0) \<and> r = (cs, n) \<and> sn = snoc \<longrightarrow>
      npf_vpprintf pc m c args (fold pc cs0 s, n0) = Some (fold pc cs s, n) \<and>
      (\<exists>ds. cs = cs0 @ ds \<and> n = n0 + of_nat (length ds))"
    if "npf_vpprintf sn m c args st = Some r" for sn m c args st r
    using that
  proof (induction rule: npf_vpprintf.raw_induct [rotated, consumes 1])
    case (1 f sn m c args st r)
    note IH = 1(1) [rule_format, OF _ conjI [OF _ conjI]]
    show ?case
    proof (intro allI impI, elim conjE)
      fix cs0 n0 cs n assume e: "st = (cs0, n0)" "r = (cs, n)" "sn = snoc"
      have step: "npf_vpprintf pc m c' args' (fold pc (cs0 @ xs) s, n0 + of_nat (length xs)) = Some (fold pc cs s, n) \<and>
          (\<exists>ds. cs = cs0 @ ds \<and> n = n0 + of_nat (length ds))"
        if "f snoc m c' args' (cs0 @ xs, n0 + of_nat (length xs)) = Some (cs, n)" for c' args' xs
      proof -
        from IH [OF that refl refl refl] obtain ds where
          "npf_vpprintf pc m c' args' (fold pc (cs0 @ xs) s, n0 + of_nat (length xs)) = Some (fold pc cs s, n)"
          "cs = (cs0 @ xs) @ ds" "n = n0 + of_nat (length xs) + of_nat (length ds)" by blast
        then show ?thesis by (intro conjI exI [of _ "xs @ ds"]) simp_all
      qed
      note step1 = step [of "c + 1" args "[m c]", simplified] and stepn = step [simplified]
      show "npf_vpprintf pc m c args (fold pc cs0 s, n0) = Some (fold pc cs s, n) \<and>
          (\<exists>ds. cs = cs0 @ ds \<and> n = n0 + of_nat (length ds))"
        using 1(2) step1 unfolding e
        by (subst npf_vpprintf.simps)
          (auto simp: emit_fold fold_putc fold_snoc npf_putc_cnt_def split: if_splits bind_splits dest: stepn)
    qed
  qed
  with assms show ?thesis by blast
qed


section \<open>Printing into a buffer\<close>

definition stored :: "mem \<Rightarrow> u64 \<Rightarrow> u8 list \<Rightarrow> mem" where
  "stored m a cs = (\<lambda>x. if unat (x - a) < length cs then cs ! unat (x - a) else m x)"

lemma stored_Nil [simp]: "stored m a [] = m"
  by (simp add: stored_def)

lemma stored_Cons: "length cs < 2 ^ 64 \<Longrightarrow> stored (m(a := c)) (a + 1) cs = stored m a (c # cs)"
proof
  fix x assume l: "length cs < 2 ^ 64"
  show "stored (m(a := c)) (a + 1) cs x = stored m a (c # cs) x"
  proof (cases "x = a")
    case True
    with l show ?thesis by (simp add: stored_def)
  next
    case False
    then have "unat (x - a) \<noteq> 0" "unat (x - (a + 1)) = unat (x - a) - 1"
      using unat_pred [of "x - a"] by (simp_all add: unat_eq_0 algebra_simps)
    with False show ?thesis by (auto simp: stored_def nth_Cons')
  qed
qed

lemma fold_bufputc:
  "unat c \<le> unat k \<Longrightarrow> fold npf_bufputc cs \<lparr>dst = b, len = k, cur = c, out_mem = m\<rparr> =
     \<lparr>dst = b, len = k, cur = c + of_nat (min (length cs) (unat k - unat c)),
      out_mem = stored m (b + c) (take (unat k - unat c) cs)\<rparr>"
proof (induction cs arbitrary: c m)
  case (Cons x cs)
  show ?case
  proof (cases "c < k")
    case True
    then have lt: "unat c < unat k" by (simp add: word_less_nat_alt)
    have u: "unat (c + 1) = unat c + 1"
      using lt unat_lt_64 [of k] by (subst unat_plus_no_wrap) simp_all
    obtain d where d: "unat k - unat c = Suc d" "unat k - unat (c + 1) = d"
      using lt u by (metis Suc_diff_Suc add.commute plus_1_eq_Suc)
    have "d < 2 ^ 64" using d unat_lt_64 [of k] by simp
    then have l: "length (take d cs) < 2 ^ 64" by simp
    have "fold npf_bufputc (x # cs) \<lparr>dst = b, len = k, cur = c, out_mem = m\<rparr> =
        fold npf_bufputc cs \<lparr>dst = b, len = k, cur = c + 1, out_mem = m(b + c := x)\<rparr>"
      using True by (simp add: npf_bufputc_def)
    also have "\<dots> = \<lparr>dst = b, len = k, cur = c + 1 + of_nat (min (length cs) d),
        out_mem = stored (m(b + c := x)) (b + (c + 1)) (take d cs)\<rparr>"
      by (rule Cons.IH [of "c + 1" "m(b + c := x)", unfolded d(2)]) (use u lt in simp)
    finally show ?thesis
      using stored_Cons [OF l, of m "b + c" x] d(1) by (simp add: algebra_simps)
  next
    case False
    with Cons.prems have "unat k - unat c = 0" "c = k" by (simp_all add: word_less_nat_alt word_unat_eq_iff)
    moreover from this have "fold npf_bufputc cs \<lparr>dst = b, len = k, cur = c, out_mem = m\<rparr> =
        \<lparr>dst = b, len = k, cur = c, out_mem = m\<rparr>" using Cons.IH [of c m] by simp
    moreover have "npf_bufputc x \<lparr>dst = b, len = k, cur = k, out_mem = m\<rparr> =
        \<lparr>dst = b, len = k, cur = k, out_mem = m\<rparr>" by (simp add: npf_bufputc_def)
    ultimately show ?thesis by simp
  qed
qed simp

lemma vsnprintf_text:
  assumes printed: "npf_vpprintf snoc m format args ([], 0) = Some (cs, n)" and b: "buffer \<noteq> NULL" "bufsz \<noteq> 0"
  shows "npf_vsnprintf m buffer bufsz format args = Some (of_nat (length cs),
    (stored m buffer (take (unat bufsz) (cs @ [0])))(buffer + (bufsz - 1) := 0))"
proof -
  let ?c = "\<lparr>dst = buffer, len = bufsz, cur = 0, out_mem = m\<rparr>"
  have vp: "npf_vpprintf npf_bufputc m format args (?c, 0) = Some (fold npf_bufputc cs ?c, n)"
    and n: "n = of_nat (length cs)"
    using vpprintf_collect [OF printed, of npf_bufputc ?c] by simp_all
  have "npf_bufputc 0 (fold npf_bufputc cs ?c) = fold npf_bufputc (cs @ [0]) ?c" by simp
  also have "out_mem \<dots> = stored m buffer (take (unat bufsz) (cs @ [0]))"
    using fold_bufputc [of 0 bufsz "cs @ [0]" buffer m] by simp
  finally show ?thesis using vp n b by (simp add: npf_vsnprintf_def)
qed

lemma vsnprintf_contents:
  assumes printed: "npf_vpprintf snoc m format args ([], 0) = Some (cs, n)" and b: "buffer \<noteq> NULL" "bufsz \<noteq> 0"
  obtains m' where "npf_vsnprintf m buffer bufsz format args = Some (of_nat (length cs), m')"
    "\<And>k. k < min (length cs) (unat bufsz - 1) \<Longrightarrow> m' (buffer + of_nat k) = cs ! k"
    "m' (buffer + of_nat (min (length cs) (unat bufsz - 1))) = 0"
    "\<And>x. x \<notin> region buffer (unat bufsz) \<Longrightarrow> m' x = m x"
proof -
  define l where "l = unat bufsz - 1"
  define m' where "m' = (stored m buffer (take (unat bufsz) (cs @ [0])))(buffer + (bufsz - 1) := 0)"
  have ub: "unat bufsz = Suc l" using b(2) by (simp add: l_def unat_gt_0)
  then have ll: "l < 2 ^ 64" "bufsz - 1 = of_nat l"
    using unat_lt_64 [of bufsz] unat_pred [OF b(2)] by (simp_all add: word_unat_eq_iff unat_of_nat)
  have at: "m' (buffer + of_nat k) = (if k = l then 0 else if k < Suc (length cs) then (cs @ [0]) ! k else m (buffer + of_nat k))"
    if "k \<le> l" for k
  proof -
    have u: "unat (of_nat k :: u64) = k" using that ll(1) by (simp add: unat_of_nat)
    moreover have "(of_nat k :: u64) = of_nat l \<longleftrightarrow> k = l" using u ll(1) by (auto simp: unat_of_nat dest: arg_cong [of _ _ unat])
    ultimately show ?thesis using that by (auto simp: m'_def stored_def ub ll(2) simp del: take_append)
  qed
  have "m' x = m x" if "x \<notin> region buffer (unat bufsz)" for x
  proof -
    have "x \<noteq> buffer + (bufsz - 1)" using that in_region_offset [of l "Suc l" buffer] ll ub by auto
    moreover have "\<not> unat (x - buffer) < unat bufsz" using that by (simp add: region_def)
    ultimately show ?thesis by (simp add: m'_def stored_def del: take_append)
  qed
  moreover have "m' (buffer + of_nat k) = cs ! k" if "k < min (length cs) (unat bufsz - 1)" for k
    using at [of k] that by (simp add: ub nth_append)
  moreover have "m' (buffer + of_nat (min (length cs) (unat bufsz - 1))) = 0"
    using at [of "min (length cs) l"] by (simp add: ub nth_append min_def)
  ultimately show ?thesis using that vsnprintf_text [OF assms] m'_def by blast
qed


section \<open>The decimal conversion\<close>

lemma dec_digit:
  assumes "d < 10"
  shows "strtol_digit (48 + of_nat d) = Some (int d)" "48 + of_nat d \<noteq> (0 :: u8)"
proof -
  have "d = 0 \<or> d = 1 \<or> d = 2 \<or> d = 3 \<or> d = 4 \<or> d = 5 \<or> d = 6 \<or> d = 7 \<or> d = 8 \<or> d = 9"
    using assms by auto
  then show "strtol_digit (48 + of_nat d) = Some (int d)" "48 + of_nat d \<noteq> (0 :: u8)"
    by (elim disjE; simp add: strtol_digit_def)+
qed

lemma digits_value_append: "digits_value b a (xs @ ys) = digits_value b (digits_value b a xs) ys"
  by (induction xs arbitrary: a) simp_all

lemma dec_rev_value:
  "\<exists>ds. digits_of 10 (rev (dec_rev n)) = Some ds \<and> digits_value 10 0 ds = int n \<and> 0 \<notin> set (dec_rev n)"
proof (induction n rule: less_induct)
  case (less n)
  let ?c = "48 + of_nat (n mod 10) :: u8"
  have c: "strtol_digit ?c = Some (int (n mod 10))" "?c \<noteq> 0" using dec_digit [of "n mod 10"] by simp_all
  show ?case
  proof (cases "n div 10 = 0")
    case True
    then have "dec_rev n = [?c]" by (subst dec_rev.simps) simp
    with True c show ?thesis by (simp add: digits_of_def)
  next
    case False
    then obtain ds where ds: "digits_of 10 (rev (dec_rev (n div 10))) = Some ds" "digits_value 10 0 ds = int (n div 10)"
      "0 \<notin> set (dec_rev (n div 10))" using less [of "n div 10"] by auto
    have e: "dec_rev n = ?c # dec_rev (n div 10)" using False by (subst dec_rev.simps) simp
    have "digits_of 10 (rev (dec_rev n)) = Some (ds @ [int (n mod 10)])"
      using ds(1) c(1) unfolding e by (auto simp: digits_of_def split: if_splits)
    moreover have "digits_value 10 0 (ds @ [int (n mod 10)]) = int n"
      using ds(2) by (simp add: digits_value_append zdiv_int zmod_int)
    ultimately show ?thesis using ds(3) c(2) e by auto
  qed
qed

lemma strtol_loop_signed:
  assumes "cstr m s cs" and "digits_of 10 cs = Some ds" and "sign = 1 \<or> sign = - 1"
    and "0 \<le> result" and "result \<le> LONG_MAX"
  shows "\<exists>e. strtol_loop m s 10 sign result =
    Some (if digits_value 10 result ds \<le> LONG_MAX then digits_value 10 result ds * sign
          else if sign = 1 then LONG_MAX else LONG_MIN, e)"
  using assms
proof (induction cs arbitrary: s ds result)
  case Nil
  then show ?case by (subst strtol_loop.simps) (auto simp: digits_of_def)
next
  case (Cons c cs)
  obtain d ds' where d: "strtol_digit c = Some d" "d < 10" "0 \<le> d"
    and ds: "ds = d # ds'" "digits_of 10 cs = Some ds'" "\<forall>x \<in> set ds'. 0 \<le> x"
    using digits_of_Cons [OF Cons.prems(2)] by blast
  have c: "m s = c" "c \<noteq> 0" using Cons.prems(1) by simp_all
  have cut: "(result > LONG_MAX div 10 \<or> result = LONG_MAX div 10 \<and> d > LONG_MAX mod 10) \<longleftrightarrow> result * 10 + d > LONG_MAX"
    by (rule cutoff_iff) (use d in simp_all)
  show ?case
  proof (cases "result * 10 + d > LONG_MAX")
    case True
    have "result * 10 + d \<le> digits_value 10 (result * 10 + d) ds'"
      by (rule digits_value_ge) (use Cons.prems ds d in auto)
    with True c d ds cut show ?thesis by (subst strtol_loop.simps) simp
  next
    case False
    have e: "strtol_loop m s 10 sign result = strtol_loop m (s + 1) 10 sign (result * 10 + d)"
      using False c d cut by (subst strtol_loop.simps) auto
    show ?thesis
      unfolding e ds(1) digits_value.simps by (rule Cons.IH) (use Cons.prems d ds False in auto)
  qed
qed

text \<open>\<open>strtol\<close> reads a decimal number with its sign.\<close>

lemma strtol_decimal:
  assumes "cstr m s ((if v < 0 then [45] else []) @ rev (dec_rev (nat \<bar>v\<bar>)))" and "LONG_MIN \<le> v" "v \<le> LONG_MAX"
  shows "\<exists>e. strtol m s 10 = Some (v, e)"
proof -
  obtain ds where ds: "digits_of 10 (rev (dec_rev (nat \<bar>v\<bar>))) = Some ds" "digits_value 10 0 ds = \<bar>v\<bar>"
    using dec_rev_value [of "nat \<bar>v\<bar>"] by auto
  obtain c cs where cs: "rev (dec_rev (nat \<bar>v\<bar>)) = c # cs"
    by (metis dec_rev.simps list.distinct(1) neq_Nil_conv rev_is_Nil_conv)
  have dig: "\<exists>d. strtol_digit c = Some d" using digits_of_Cons ds(1) unfolding cs by blast
  then have nc: "\<not> is_space c" "c \<noteq> 45" "c \<noteq> 43" by (auto simp: strtol_digit_def is_space_def)
  define sign :: int where "sign = (if v < 0 then - 1 else 1)"
  define s1 where "s1 = (if v < 0 then s + 1 else s)"
  have c1: "cstr m s1 (c # cs)" using assms(1) by (simp add: s1_def cs split: if_splits)
  have first: "m s = (if v < 0 then 45 else c)" using assms(1) by (simp add: cs split: if_splits)
  have "strtol_skip m s = Some s"
    using first nc(1) by (subst strtol_skip.simps) (simp add: is_space_def)
  then have "strtol m s 10 = strtol_loop m s1 10 sign 0"
    using first nc by (simp add: strtol_def s1_def sign_def)
  moreover obtain e where "strtol_loop m s1 10 sign 0 = Some (if \<bar>v\<bar> \<le> LONG_MAX then \<bar>v\<bar> * sign
      else if sign = 1 then LONG_MAX else LONG_MIN, e)"
  proof -
    have "sign = 1 \<or> sign = - 1" "0 \<le> LONG_MAX" by (simp_all add: sign_def LONG_MAX_def)
    from strtol_loop_signed [OF c1 ds(1) [unfolded cs] this(1) order_refl this(2)] ds(2) that show ?thesis by auto
  qed
  ultimately show ?thesis
    using assms(2,3) by (auto simp: sign_def LONG_MAX_def LONG_MIN_def split: if_splits)
qed


definition decimal :: "int \<Rightarrow> u8 list" where
  "decimal v = (if v < 0 then [45] else []) @ rev (dec_rev (nat \<bar>v\<bar>))"

lemma decimal_length: "length (decimal (sint (v :: u64))) \<le> 20" "0 \<notin> set (decimal i)"
proof -
  have "nat \<bar>sint v\<bar> < 10 ^ 19"
    using sint_greater_eq [of v] sint_less [of v] by (auto simp: nat_less_iff)
  then have "length (dec_rev (nat \<bar>sint v\<bar>)) \<le> 19" by (rule dec_rev_length) simp
  moreover have len: "length (decimal i) \<le> 1 + length (dec_rev (nat \<bar>i\<bar>))" for i by (simp add: decimal_def)
  ultimately show "length (decimal (sint v)) \<le> 20" using len [of "sint v"] by linarith
  show "0 \<notin> set (decimal i)" using dec_rev_value [of "nat \<bar>i\<bar>"] by (auto simp: decimal_def)
qed

text \<open>What \<open>"%ld"\<close> prints.\<close>

lemma print_ld:
  assumes "cstr m f [37, 108, 100]"
  shows "npf_vpprintf snoc m f [v] ([], 0) = Some (decimal (sint v), of_nat (length (decimal (sint v))))"
proof -
  have b: "m f = 37" "m (f + 1) = 108" "m (f + 2) = 100" "m (f + 3) = 0"
    using assms by (simp_all add: add.assoc)
  define fs where "fs = \<lparr>prepend = 0, alt_form = 0, field_width_opt = OPT_NONE, field_width = 0,
       left_justified = 0, leading_zero_pad = 0, prec_opt = OPT_NONE, prec = 0,
       length_modifier = LEN_LONG, conv_spec = CONV_SIGNED_INT, case_adjust = 32\<rparr>"
  have flags: "parse_flags m f x = Some (f + 1, x)" for x
    by (subst parse_flags.simps) (simp add: b)
  have digits: "parse_digits m (f + 1) 0 = Some (f + 1, 0)"
    by (subst parse_digits.simps) (simp add: b)
  have parse: "npf_parse_format_spec m f = Some (3, fs)"
    by (simp add: npf_parse_format_spec_def flags parse_width_def digits parse_prec_def parse_length_def
        parse_conv_def integer_conv_def b fs_def add.assoc)
  let ?cv = "\<lparr>cbuf = npf_itoa_rev (sint v), sign_c = (if sint v < 0 then 45 else 0), need_0x = 0, zero = (sint v = 0)\<rparr>"
  have conv: "star_width fs [v] = Some (fs, [v])" "star_prec fs [v] = Some (fs, [v])"
    "convert m fs [v] = Some (fs, ?cv, [])"
    by (simp_all add: star_width_def star_prec_def convert_def convert_arg_def extract_signed_def fs_def Let_def)
  have len: "length (npf_itoa_rev (sint v)) \<le> 20"
    using decimal_length(1) [of v] by (simp add: decimal_def npf_itoa_rev_dec split: if_splits)
  have "wrap32 (- int (length (npf_itoa_rev (sint v)))) = - int (length (npf_itoa_rev (sint v)))"
    unfolding wrap32_def using len by (intro signed_take_bit_int_eq_self) simp_all
  then have "spec_text fs ?cv = decimal (sint v)"
    by (simp add: spec_text_def pad_char_def prec_pad_def fs_def decimal_def npf_itoa_rev_dec npf_max_def)
  then have em: "emit snoc fs ?cv ([], 0) = (decimal (sint v), of_nat (length (decimal (sint v))))"
    by (simp add: emit_fold fold_putc fold_snoc)
  have stop: "npf_vpprintf snoc m (f + 3) [] st = Some st" for st
    by (subst npf_vpprintf.simps) (simp add: b)
  show ?thesis
    by (subst npf_vpprintf.simps) (simp add: b parse conv em stop)
qed

lemma cstr_of_bytes:
  assumes "\<And>k. k < length cs \<Longrightarrow> m (a + of_nat k) = cs ! k" "m (a + of_nat (length cs)) = 0" "0 \<notin> set cs"
  shows "cstr m a cs"
  using assms
proof (induction cs arbitrary: a)
  case (Cons c cs)
  have "cstr m (a + 1) cs"
  proof (rule Cons.IH)
    show "m (a + 1 + of_nat k) = cs ! k" if "k < length cs" for k
      using Cons.prems(1) [of "Suc k"] that by (simp add: add.assoc)
  qed (use Cons.prems(2,3) in \<open>auto simp: add.assoc\<close>)
  with Cons.prems(1) [of 0] Cons.prems(3) show ?case by auto
qed simp


section \<open>Properties\<close>

text \<open>
  C16: Text printed into a buffer arrives there: if a format and its arguments print the characters
  \<open>cs\<close>, then \<open>npf_vsnprintf\<close> returns their number, the buffer holds them, cut off so that there is
  room for the terminating zero, followed by that zero, and no byte outside the buffer has changed.
\<close>

theorem npf_vsnprintf_correct:
  assumes "npf_vpprintf (\<lambda>c cs. cs @ [c]) m format args ([], 0) = Some (cs, n)"
    and "buffer \<noteq> NULL" and "bufsz \<noteq> 0"
  shows "\<exists>m'. npf_vsnprintf m buffer bufsz format args = Some (of_nat (length cs), m') \<and>
    (\<forall>k < min (length cs) (unat bufsz - 1). m' (buffer + of_nat k) = cs ! k) \<and>
    m' (buffer + of_nat (min (length cs) (unat bufsz - 1))) = 0 \<and>
    (\<forall>x. x \<notin> region buffer (unat bufsz) \<longrightarrow> m' x = m x)"
  by (rule vsnprintf_contents [OF assms]) blast

definition ld_mem :: mem where
  "ld_mem = (\<lambda>_. 0)(100 := 37, 101 := 108, 102 := 100)"

lemma ld_mem_format: "cstr ld_mem 100 [37, 108, 100]"
  by (simp add: ld_mem_def)

lemma decimal_neg: "decimal (- 42) = [45, 52, 50]"
proof -
  have "dec_rev 42 = [50, 52]" by (subst dec_rev.simps, subst dec_rev.simps) simp
  then show ?thesis by (simp add: decimal_def)
qed

theorem npf_vsnprintf_correct_witness:
  "\<exists>m'. npf_vsnprintf ld_mem 200 3 100 [- 42] = Some (3, m') \<and> m' 200 = 45 \<and> m' 201 = 52 \<and> m' 202 = 0 \<and> m' 203 = 0"
proof -
  have p: "npf_vpprintf snoc ld_mem 100 [- 42] ([], 0) = Some ([45, 52, 50], 3)"
    using print_ld [OF ld_mem_format, of "- 42"] by (simp add: decimal_neg)
  obtain m' where m': "npf_vsnprintf ld_mem 200 3 100 [- 42] = Some (3, m')"
    "\<forall>k < 2. m' (200 + of_nat k) = [45, 52, 50] ! k" "m' 202 = 0" "\<forall>x. x \<notin> region 200 3 \<longrightarrow> m' x = ld_mem x"
    using npf_vsnprintf_correct [OF p, of 200 3] by auto
  have "m' 203 = 0" using m'(4) by (simp add: region_def ld_mem_def)
  with m'(1,3) m'(2) [rule_format, of 0] m'(2) [rule_format, of 1] show ?thesis by simp
qed

text \<open>
  C21: A number printed with \<open>"%ld"\<close> into a buffer of at least 21 bytes is read back by \<open>strtol\<close> as
  the same number, for every value of a \<open>long\<close>, the smallest one included.
\<close>

theorem print_read_roundtrip:
  assumes "cstr m format [37, 108, 100]" and "buffer \<noteq> NULL" and "21 \<le> unat bufsz"
  shows "\<exists>n m' e. npf_vsnprintf m buffer bufsz format [v] = Some (n, m') \<and> strtol m' buffer 10 = Some (sint v, e)"
proof -
  have "bufsz \<noteq> 0" using assms(3) by auto
  then obtain m' where m': "npf_vsnprintf m buffer bufsz format [v] = Some (of_nat (length (decimal (sint v))), m')"
    "\<And>k. k < min (length (decimal (sint v))) (unat bufsz - 1) \<Longrightarrow> m' (buffer + of_nat k) = decimal (sint v) ! k"
    "m' (buffer + of_nat (min (length (decimal (sint v))) (unat bufsz - 1))) = 0"
    using vsnprintf_contents [OF print_ld [OF assms(1)] assms(2), of bufsz] by metis
  have "min (length (decimal (sint v))) (unat bufsz - 1) = length (decimal (sint v))"
    using decimal_length(1) [of v] assms(3) by simp
  with m'(2,3) decimal_length(2) have "cstr m' buffer (decimal (sint v))"
    by (intro cstr_of_bytes) simp_all
  then have "\<exists>e. strtol m' buffer 10 = Some (sint v, e)"
    unfolding decimal_def
    by (rule strtol_decimal) (use sint_greater_eq [of v] sint_less [of v] in \<open>simp_all add: LONG_MIN_def LONG_MAX_def\<close>)
  with m'(1) show ?thesis by blast
qed

theorem print_read_roundtrip_witness:
  "\<forall>v. \<exists>n m' e. npf_vsnprintf ld_mem 200 32 100 [v] = Some (n, m') \<and> strtol m' 200 10 = Some (sint v, e)"
  using print_read_roundtrip [OF ld_mem_format, of 200 32] by simp

text \<open>
  C33: The conversion buffer of 23 bytes is never overrun: every conversion of a number, a character or
  a pointer, of any width and with any flags, succeeds and fills at most that many bytes.
\<close>

theorem conversion_buffer_bound:
  assumes "conv_spec fs \<noteq> CONV_STRING"
  shows "\<exists>fs' cv rest. convert m fs (a # args) = Some (fs', cv, rest) \<and>
    length (cbuf cv) \<le> NANOPRINTF_CONVERSION_BUFFER_SIZE"
proof -
  have itoa: "length (npf_itoa_rev (extract_signed l a)) \<le> 23" for l
  proof -
    have "\<bar>extract_signed l a\<bar> \<le> 2 ^ 63"
      using sint_greater_eq [of "ucast a :: u32"] sint_less [of "ucast a :: u32"] sint_greater_eq [of "ucast a :: u16"]
        sint_less [of "ucast a :: u16"] sint_greater_eq [of "ucast a :: u8"] sint_less [of "ucast a :: u8"]
        sint_greater_eq [of a] sint_less [of a]
      by (cases l) (simp_all add: extract_signed_def abs_le_iff)
    then have "nat \<bar>extract_signed l a\<bar> < 10 ^ 23" by (simp add: nat_less_iff)
    then show ?thesis unfolding npf_itoa_rev_dec by (rule dec_rev_length) simp
  qed
  have uns: "\<exists>fs' cv. convert_unsigned fs v = Some (fs', cv) \<and> length (cbuf cv) \<le> 23" for v
  proof -
    define base :: u64 where "base = (if conv_spec fs = CONV_OCTAL then 8 else if conv_spec fs = CONV_HEX_INT then 16 else 10)"
    have "base \<in> {8, 10, 16}" by (simp add: base_def)
    then obtain cs where "npf_utoa_rev v base (case_adjust fs) = Some cs" "length cs \<le> 22" by (rule utoa_22)
    then show ?thesis
      unfolding convert_unsigned_def base_def [symmetric] by (auto simp: Let_def)
  qed
  obtain ps where "npf_utoa_rev a 16 32 = Some ps" "length ps \<le> 22"
    using utoa_22 [of 16 a 32] by auto
  moreover obtain fs' cv where "convert_unsigned fs (extract_unsigned (length_modifier fs) a) = Some (fs', cv)" "length (cbuf cv) \<le> 23"
    using uns by blast
  ultimately show ?thesis
    using itoa [of "length_modifier fs"] assms
    by (cases "conv_spec fs")
      (auto simp: convert_def convert_arg_def NANOPRINTF_CONVERSION_BUFFER_SIZE_def Let_def)
qed

theorem conversion_buffer_bound_witness:
  "\<exists>fs' cv rest. convert (\<lambda>_. 0) \<lparr>prepend = 0, alt_form = 35, field_width_opt = OPT_NONE, field_width = 0,
       left_justified = 0, leading_zero_pad = 0, prec_opt = OPT_NONE, prec = 0,
       length_modifier = LEN_LONG, conv_spec = CONV_OCTAL, case_adjust = 32\<rparr> [- 1] = Some (fs', cv, rest) \<and>
     length (cbuf cv) \<le> NANOPRINTF_CONVERSION_BUFFER_SIZE"
  by (rule conversion_buffer_bound) simp

end
