(* ===== verification/Pci.thy ===== *)
theory Pci
  imports Port_Io
begin

text \<open>
  The PCI configuration space, \<open>kernel/src/sys/pci.c\<close>: reading and writing its registers through
  the ports \<open>0xCF8\<close> and \<open>0xCFC\<close>, the descriptor of a device and the list of the devices that the
  kernel logs at start-up. \<open>pci_debug_log\<close> returns what it traces.
\<close>

section \<open>Definitions\<close>

record pci_device =
  pd_base :: u32
  pd_interrupt :: u32
  pd_bus :: u16
  pd_device :: u16
  pd_function :: u16
  pd_vendor_id :: u16
  pd_device_id :: u16
  pd_class_id :: u8
  pd_subclass_id :: u8
  pd_interface_id :: u8
  pd_revision :: u8

definition pci_id :: "u16 \<Rightarrow> u16 \<Rightarrow> u16 \<Rightarrow> u32 \<Rightarrow> u32" where
  "pci_id bus device function regoffset =
     push_bit 31 0x1 OR push_bit 16 (ucast bus AND 0xFF) OR push_bit 11 (ucast device AND 0x1F) OR
     push_bit 8 (ucast function AND 0x07) OR (regoffset AND 0xFC)"

definition pci_read :: "u16 \<Rightarrow> u16 \<Rightarrow> u16 \<Rightarrow> u32 \<Rightarrow> u32 ports \<Rightarrow> u32 \<times> u32 ports" where
  "pci_read bus device function regoffset s =
     (let s1 = outl 0xCF8 (pci_id bus device function regoffset) s;
          (result, s2) = inl 0xCFC s1
      in (drop_bit (unat (push_bit 3 (regoffset mod 4))) result, s2))"

definition pci_write :: "u16 \<Rightarrow> u16 \<Rightarrow> u16 \<Rightarrow> u32 \<Rightarrow> u32 \<Rightarrow> u32 ports \<Rightarrow> u32 ports" where
  "pci_write bus device function regoffset data s =
     outl 0xCFC data (outl 0xCF8 (pci_id bus device function regoffset) s)"

text \<open>
  The field \<open>base\<close> is not assigned: the struct is a local variable, and \<open>junk\<close> is what happened to
  be in its place.
\<close>

definition get_device_descriptor :: "u32 \<Rightarrow> u16 \<Rightarrow> u16 \<Rightarrow> u16 \<Rightarrow> u32 ports \<Rightarrow> pci_device \<times> u32 ports" where
  "get_device_descriptor junk bus device function s =
     (let (vendor, s1) = pci_read bus device function 0x00 s;
          (dev, s2) = pci_read bus device function 0x02 s1;
          (cls, s3) = pci_read bus device function 0x0b s2;
          (sub, s4) = pci_read bus device function 0x0a s3;
          (iface, s5) = pci_read bus device function 0x09 s4;
          (rev, s6) = pci_read bus device function 0x08 s5;
          (intr, s7) = pci_read bus device function 0x3c s6
      in (\<lparr>pd_base = junk, pd_interrupt = intr, pd_bus = bus, pd_device = device, pd_function = function,
           pd_vendor_id = ucast vendor, pd_device_id = ucast dev, pd_class_id = ucast cls,
           pd_subclass_id = ucast sub, pd_interface_id = ucast iface, pd_revision = ucast rev\<rparr>, s7))"

text \<open>A traced line: bus, device, device id, function, class, subclass and whether it is USB.\<close>

type_synonym pci_line = "u8 \<times> u8 \<times> u16 \<times> u8 \<times> u8 \<times> u8 \<times> bool"

definition log_function :: "u32 \<Rightarrow> nat \<Rightarrow> nat \<Rightarrow> nat \<Rightarrow> pci_line list \<times> u32 ports \<Rightarrow> pci_line list \<times> u32 ports" where
  "log_function junk bus device function = (\<lambda>(lines, s).
     let (desc, s') = get_device_descriptor junk (of_nat bus) (of_nat device) (of_nat function) s in
     if pd_vendor_id desc = 0x0000 \<or> pd_vendor_id desc = 0xFFFF then (lines, s')
     else (lines @ [(of_nat bus, of_nat device, pd_device_id desc, of_nat function, pd_class_id desc,
             pd_subclass_id desc, pd_class_id desc = 0x0C \<and> pd_subclass_id desc = 0x03)], s'))"

definition pci_debug_log :: "u32 \<Rightarrow> u32 ports \<Rightarrow> pci_line list \<times> u32 ports" where
  "pci_debug_log junk s =
     fold (\<lambda>bus. fold (\<lambda>device. fold (log_function junk bus device) [0..<8]) [0..<32]) [0..<8] ([], s)"


section \<open>The configuration space\<close>

text \<open>
  The register that an access means: functions are numbered by bus, device and function, and the
  256 bytes of each are read in words of four bytes.
\<close>

definition config_address :: "nat \<Rightarrow> nat \<Rightarrow> nat \<Rightarrow> nat \<Rightarrow> nat" where
  "config_address bus device function reg = 2 ^ 31 + 65536 * bus + 2048 * device + 256 * function + reg"

definition config_word :: "(u32 \<Rightarrow> u32) \<Rightarrow> nat \<Rightarrow> nat \<Rightarrow> nat \<Rightarrow> nat \<Rightarrow> u32" where
  "config_word cfg bus device function reg = cfg (of_nat (config_address bus device function reg))"

text \<open>
  The host bridge: the data port shows the register whose address was written last to the address
  port, all ones if there was none.
\<close>

definition pci_host :: "(u32 \<Rightarrow> u32) \<Rightarrow> u32 ports \<Rightarrow> bool" where
  "pci_host cfg s \<longleftrightarrow> (\<forall>ws n. answer s ws n 0xCFC =
     (case last_written 0xCF8 ws of Some a \<Rightarrow> cfg a | None \<Rightarrow> 0xFFFFFFFF))"

definition function_line :: "(u32 \<Rightarrow> u32) \<Rightarrow> nat \<Rightarrow> nat \<Rightarrow> nat \<Rightarrow> pci_line list" where
  "function_line cfg b d f =
     (let id = config_word cfg b d f 0; cls = config_word cfg b d f 8;
          vendor = ucast id :: u16; class_id = ucast (drop_bit 24 cls) :: u8; sub = ucast (drop_bit 16 cls) :: u8
      in if vendor = 0 \<or> vendor = 0xFFFF then []
         else [(of_nat b, of_nat d, ucast (drop_bit 16 id), of_nat f, class_id, sub, class_id = 0x0C \<and> sub = 0x03)])"

lemma or_plus:
  fixes x y :: u32
  assumes "y < 2 ^ k" and "k < 32"
  shows "push_bit k x OR y = push_bit k x + y"
proof -
  have "take_bit k y = y"
    using assms by (simp add: take_bit_eq_mod mod_word_less)
  then have "\<not> bit y n" if "k \<le> n" for n
    using that by (metis bit_take_bit_iff not_le)
  then show ?thesis
    by (intro disjunctive_add [symmetric]) (auto simp: bit_push_bit_iff)
qed

lemma mask_small:
  assumes "n < 2 ^ k" and "k \<le> 8"
  shows "(ucast (of_nat n :: u16) :: u32) AND mask k = of_nat n"
proof -
  have "2 ^ k \<le> (2 ^ 8 :: nat)" using assms(2) by (intro power_increasing) simp_all
  then have n: "n < 256" using assms(1) by simp
  then have "unat (ucast (of_nat n :: u16) :: u32) = n"
    by (simp add: unsigned_ucast_eq unat_of_nat take_bit_nat_eq_self)
  then have e: "(ucast (of_nat n :: u16) :: u32) = of_nat n" using n by (simp add: word_unat_eq_iff unat_of_nat)
  have "take_bit k (of_nat n :: u32) = of_nat (take_bit k n)" by (rule of_nat_take_bit [symmetric])
  also have "take_bit k n = n" using assms(1) by (rule take_bit_nat_eq_self)
  finally show ?thesis unfolding e by (simp add: take_bit_eq_mask)
qed

lemma pci_id_address:
  assumes "b < 256" "d < 32" "f < 8" and "r < 256" "of_nat r AND 0xFC = (of_nat (r - r mod 4) :: u32)"
  shows "pci_id (of_nat b) (of_nat d) (of_nat f) (of_nat r) = of_nat (config_address b d f (r - r mod 4))"
proof -
  let ?r = "of_nat (r - r mod 4) :: u32"
  have m: "(0xFF :: u32) = mask 8" "(0x1F :: u32) = mask 5" "(0x07 :: u32) = mask 3"
    by (simp_all add: mask_eq_exp_minus_1)
  have small: "of_nat n < (2 ^ k :: u32)" if "n < 2 ^ k" "k < 32" for n k
  proof -
    have "(2 :: nat) ^ k < 2 ^ 32" using that(2) by (intro power_strict_increasing) simp_all
    then have "unat (of_nat (2 ^ k) :: u32) = 2 ^ k" "unat (of_nat n :: u32) = n"
      using that by (simp_all only: unat_of_nat) simp_all
    with that(1) have "(of_nat n :: u32) < of_nat (2 ^ k)" by (simp only: word_less_nat_alt)
    then show ?thesis by simp
  qed
  have p: "push_bit k (of_nat n) + of_nat l = (of_nat (2 ^ k * n + l) :: u32)" for k n l
    by (simp add: push_bit_eq_mult mult.commute)
  have s1: "push_bit 8 (of_nat f) OR ?r = of_nat (2 ^ 8 * f + (r - r mod 4))"
    using assms(4) by (subst or_plus) (auto intro!: small simp only: p, simp_all)
  have s2: "push_bit 11 (of_nat d) OR of_nat (2 ^ 8 * f + (r - r mod 4)) = (of_nat (2 ^ 11 * d + (2 ^ 8 * f + (r - r mod 4))) :: u32)"
    using assms(3,4) by (subst or_plus) (auto intro!: small simp only: p, simp_all)
  have s3: "push_bit 16 (of_nat b) OR of_nat (2 ^ 11 * d + (2 ^ 8 * f + (r - r mod 4))) =
      (of_nat (2 ^ 16 * b + (2 ^ 11 * d + (2 ^ 8 * f + (r - r mod 4)))) :: u32)"
    using assms(2-4) by (subst or_plus) (auto intro!: small simp only: p, simp_all)
  have s4: "push_bit 31 (of_nat 1) OR of_nat (2 ^ 16 * b + (2 ^ 11 * d + (2 ^ 8 * f + (r - r mod 4)))) =
      (of_nat (2 ^ 31 * 1 + (2 ^ 16 * b + (2 ^ 11 * d + (2 ^ 8 * f + (r - r mod 4))))) :: u32)"
    using assms(1-4) by (subst or_plus) (auto intro!: small simp only: p, simp_all)
  have "pci_id (of_nat b) (of_nat d) (of_nat f) (of_nat r) =
      push_bit 31 (of_nat 1) OR (push_bit 16 (of_nat b) OR (push_bit 11 (of_nat d) OR (push_bit 8 (of_nat f) OR ?r)))"
    using assms mask_small [of b 8] mask_small [of d 5] mask_small [of f 3]
    by (simp only: pci_id_def m or.assoc) simp
  then show ?thesis
    unfolding s1 s2 s3 s4 by (simp add: config_address_def add.assoc)
qed


lemma pci_read_host:
  assumes "pci_host cfg s"
  shows "\<exists>s'. pci_read b d f r s = (drop_bit (unat (push_bit 3 (r mod 4))) (cfg (pci_id b d f r)), s') \<and> pci_host cfg s'"
proof -
  let ?s1 = "outl 0xCF8 (pci_id b d f r) s"
  have "inl 0xCFC ?s1 = (cfg (pci_id b d f r), ?s1\<lparr>reads := reads ?s1 + 1\<rparr>)"
    using assms by (simp add: inl_def pci_host_def)
  then show ?thesis
    using assms by (simp add: pci_read_def pci_host_def)
qed

lemma log_function_host:
  assumes host: "pci_host cfg s" and r: "b < 8" "d < 32" "f < 8"
  shows "\<exists>s'. log_function junk b d f (lines, s) = (lines @ function_line cfg b d f, s') \<and> pci_host cfg s'"
proof -
  let ?b = "of_nat b :: u16" and ?d = "of_nat d :: u16" and ?f = "of_nat f :: u16"
  let ?rd = "pci_read ?b ?d ?f"
  have id: "pci_id ?b ?d ?f 0x00 = of_nat (config_address b d f 0)" "pci_id ?b ?d ?f 0x02 = of_nat (config_address b d f 0)"
    "pci_id ?b ?d ?f 0x0b = of_nat (config_address b d f 8)" "pci_id ?b ?d ?f 0x0a = of_nat (config_address b d f 8)"
    "pci_id ?b ?d ?f 0x09 = of_nat (config_address b d f 8)" "pci_id ?b ?d ?f 0x08 = of_nat (config_address b d f 8)"
    using r pci_id_address [of b d f 0] pci_id_address [of b d f 2] pci_id_address [of b d f 11]
      pci_id_address [of b d f 10] pci_id_address [of b d f 9] pci_id_address [of b d f 8] by simp_all
  obtain s1 where s1: "?rd 0x00 s = (config_word cfg b d f 0, s1)" "pci_host cfg s1"
    using pci_read_host [OF host, of ?b ?d ?f "0x00"] by (auto simp: id config_word_def)
  obtain s2 where s2: "?rd 0x02 s1 = (drop_bit 16 (config_word cfg b d f 0), s2)" "pci_host cfg s2"
    using pci_read_host [OF s1(2), of ?b ?d ?f "0x02"] by (auto simp: id config_word_def)
  obtain s3 where s3: "?rd 0x0b s2 = (drop_bit 24 (config_word cfg b d f 8), s3)" "pci_host cfg s3"
    using pci_read_host [OF s2(2), of ?b ?d ?f "0x0b"] by (auto simp: id config_word_def)
  obtain s4 where s4: "?rd 0x0a s3 = (drop_bit 16 (config_word cfg b d f 8), s4)" "pci_host cfg s4"
    using pci_read_host [OF s3(2), of ?b ?d ?f "0x0a"] by (auto simp: id config_word_def)
  obtain s5 where s5: "?rd 0x09 s4 = (drop_bit 8 (config_word cfg b d f 8), s5)" "pci_host cfg s5"
    using pci_read_host [OF s4(2), of ?b ?d ?f "0x09"] by (auto simp: id config_word_def)
  obtain s6 where s6: "?rd 0x08 s5 = (config_word cfg b d f 8, s6)" "pci_host cfg s6"
    using pci_read_host [OF s5(2), of ?b ?d ?f "0x08"] by (auto simp: id config_word_def)
  obtain x s7 where s7: "?rd 0x3c s6 = (x, s7)" "pci_host cfg s7"
    using pci_read_host [OF s6(2), of ?b ?d ?f "0x3c"] by blast
  show ?thesis
    using s7(2) by (auto simp: log_function_def get_device_descriptor_def s1(1) s2(1) s3(1) s4(1) s5(1) s6(1) s7(1)
        function_line_def Let_def)
qed

text \<open>A fold whose steps append what they find.\<close>

lemma fold_append_lines:
  assumes "\<And>x lines s. x \<in> set xs \<Longrightarrow> P s \<Longrightarrow> \<exists>s'. g x (lines, s) = (lines @ h x, s') \<and> P s'" and "P s"
  shows "\<exists>s'. fold g xs (lines, s) = (lines @ concat (map h xs), s') \<and> P s'"
  using assms
proof (induction xs arbitrary: lines s)
  case (Cons x xs)
  obtain s1 where s1: "g x (lines, s) = (lines @ h x, s1)" "P s1"
    using Cons.prems(1) [of x s lines] Cons.prems(2) by auto
  obtain s2 where "fold g xs (lines @ h x, s1) = ((lines @ h x) @ concat (map h xs), s2)" "P s2"
    using Cons.IH [of s1 "lines @ h x"] Cons.prems(1) s1(2) by auto
  with s1(1) show ?case by simp
qed simp


section \<open>Properties\<close>

text \<open>
  C32: On a machine whose host bridge shows at the data port the register last selected at the address
  port, the start-up log lists exactly the functions that are there: one line for each of the 8 by 32
  by 8 functions whose vendor number is neither zero nor all ones, in the order of their numbers, with
  the device number, class and subclass that its configuration space holds at the documented places.
\<close>

theorem pci_debug_log_correct:
  assumes "pci_host cfg s"
  shows "fst (pci_debug_log junk s) =
    concat (map (\<lambda>b. concat (map (\<lambda>d. concat (map (function_line cfg b d) [0..<8])) [0..<32])) [0..<8])"
proof -
  have dev: "\<exists>s'. fold (log_function junk b d) [0..<8] (lines, s) =
      (lines @ concat (map (function_line cfg b d) [0..<8]), s') \<and> pci_host cfg s'"
    if "pci_host cfg s" "b < 8" "d < 32" for b d lines s
    by (rule fold_append_lines) (use that log_function_host in auto)
  have bus: "\<exists>s'. fold (\<lambda>d. fold (log_function junk b d) [0..<8]) [0..<32] (lines, s) =
      (lines @ concat (map (\<lambda>d. concat (map (function_line cfg b d) [0..<8])) [0..<32]), s') \<and> pci_host cfg s'"
    if "pci_host cfg s" "b < 8" for b lines s
    by (rule fold_append_lines) (use that dev in auto)
  have "\<exists>s'. pci_debug_log junk s = ([] @ concat (map (\<lambda>b. concat (map (\<lambda>d.
      concat (map (function_line cfg b d) [0..<8])) [0..<32])) [0..<8]), s') \<and> pci_host cfg s'"
    unfolding pci_debug_log_def by (rule fold_append_lines) (use assms bus in auto)
  then show ?thesis by auto
qed

text \<open>A machine with one USB controller, at bus 0, device 1, function 2.\<close>

definition usb_config :: "u32 \<Rightarrow> u32" where
  "usb_config a = (if a = 0x80000A00 then 0x12348086 else if a = 0x80000A08 then 0x0C033000 else 0xFFFFFFFF)"

definition usb_machine :: "u32 ports" where
  "usb_machine = \<lparr>written = [], reads = 0, answer = (\<lambda>ws n p.
     case last_written 0xCF8 ws of Some a \<Rightarrow> usb_config a | None \<Rightarrow> 0xFFFFFFFF)\<rparr>"

theorem pci_debug_log_correct_witness:
  "(0, 1, 0x1234, 2, 0x0C, 0x03, True) \<in> set (fst (pci_debug_log 0 usb_machine))"
proof -
  have "pci_host usb_config usb_machine" by (simp add: pci_host_def usb_machine_def)
  note eq = pci_debug_log_correct [OF this, of 0]
  have "(0, 1, 0x1234, 2, 0x0C, 0x03, True) \<in> set (function_line usb_config 0 1 2)"
    by (simp add: function_line_def config_word_def config_address_def usb_config_def)
  then show ?thesis unfolding eq by force
qed

end
