(* ===== verification/Console.thy ===== *)
theory Console
  imports Nanoprintf Vfs Port_Io
begin

text \<open>
  The kernel's output, \<open>kernel/src/lib/printf.c\<close> and \<open>kernel/src/dev/stdout.c\<close>: the ring of
  kernel messages, the debug port, the terminal and the \<open>printf\<close> family. Characters that go to the
  terminal library or to \<open>putchar_impl\<close>, which the kernel never sets, are recorded in \<open>screen\<close>.
  The local array that the functions of the family format into has its address \<open>frame\<close> as a
  parameter, and the variable arguments are a list.
\<close>

section \<open>Definitions\<close>

record console =
  con_fs :: vfs
  serial :: io
  put_lock :: bool
  stdout :: u64
  printk_buff_start :: u64
  printk_buff_end :: u64
  printk_index :: u64
  ft_ctx :: u64
  putchar_impl :: bool
  screen :: "u8 list"

abbreviation cmem :: "console \<Rightarrow> mem" where
  "cmem s \<equiv> bytes (con_fs s)"

definition set_cmem :: "mem \<Rightarrow> console \<Rightarrow> console" where
  "set_cmem m s = s\<lparr>con_fs := (con_fs s)\<lparr>bytes := m\<rparr>\<rparr>"

definition PRINTK_BUFF_SIZE :: "console \<Rightarrow> u64" where
  "PRINTK_BUFF_SIZE s = printk_buff_end s - printk_buff_start s"

definition append_char :: "u8 \<Rightarrow> console \<Rightarrow> console" where
  "append_char c s =
     (let s1 = set_cmem ((cmem s)(printk_buff_start s + printk_index s := c)) s
      in s1\<lparr>printk_index := (printk_index s + 1) mod PRINTK_BUFF_SIZE s\<rparr>)"

primrec append_chars :: "nat \<Rightarrow> u64 \<Rightarrow> console \<Rightarrow> console" where
  "append_chars 0 data s = s"
| "append_chars (Suc n) data s = append_chars n (data + 1) (append_char (cmem s data) s)"

definition append_to_printk_buff :: "u64 \<Rightarrow> u64 \<Rightarrow> console \<Rightarrow> console" where
  "append_to_printk_buff data len0 s = append_chars (unat len0) data s"

text \<open>The two loops of \<open>put\<close>: with \<open>stdout\<close> only the debug port, without it the terminal too.\<close>

primrec put_port :: "nat \<Rightarrow> u64 \<Rightarrow> console \<Rightarrow> console" where
  "put_port 0 data s = s"
| "put_port (Suc n) data s = put_port n (data + 1) (s\<lparr>serial := outb 0xE9 (cmem s data) (serial s)\<rparr>)"

primrec put_screen :: "nat \<Rightarrow> u64 \<Rightarrow> console \<Rightarrow> console" where
  "put_screen 0 data s = s"
| "put_screen (Suc n) data s =
     (let s1 = s\<lparr>serial := outb 0xE9 (cmem s data) (serial s)\<rparr>
      in put_screen n (data + 1)
           (if ft_ctx s \<noteq> NULL \<or> putchar_impl s then s1\<lparr>screen := screen s @ [cmem s data]\<rparr> else s1))"

definition put :: "u64 \<Rightarrow> u64 \<Rightarrow> console \<Rightarrow> console option" where
  "put data len0 s =
     (if put_lock s then None
      else
        let s0 = s\<lparr>put_lock := True\<rparr>;
            s1 = (if stdout s0 \<noteq> NULL then put_port (unat len0) data s0
                  else put_screen (unat len0) data (append_to_printk_buff data len0 s0))
        in Some (s1\<lparr>put_lock := False\<rparr>))"

partial_function (option) fwrite_loop :: "u64 \<Rightarrow> u64 \<Rightarrow> u64 \<Rightarrow> u64 \<Rightarrow> vfs \<Rightarrow> (i32 \<times> vfs) option" where
  "fwrite_loop vnode buffer sz total_written s =
     (if total_written < sz
      then do {
        (wr, s1) \<leftarrow> vfs_write s vnode (buffer + total_written) (sz - total_written) 0;
        if sint wr \<le> 0 then Some (-1, s1)
        else fwrite_loop vnode buffer sz (total_written + scast wr) s1 }
      else Some (ucast total_written, s))"

definition fwrite :: "vfs \<Rightarrow> u64 \<Rightarrow> u64 \<Rightarrow> u64 \<Rightarrow> (i32 \<times> vfs) option" where
  "fwrite s vnode buffer sz = fwrite_loop vnode buffer sz 0 s"

definition vprintf :: "u64 \<Rightarrow> u64 \<Rightarrow> u64 list \<Rightarrow> console \<Rightarrow> (i32 \<times> console) option" where
  "vprintf frame fmt args s = do {
     (len0, m) \<leftarrow> npf_vsnprintf (cmem s) frame 1024 fmt args;
     let s1 = set_cmem m s;
     s2 \<leftarrow> (if sint len0 \<ge> 0 \<and> sint len0 < 1024 then put frame (scast len0) s1 else Some s1);
     Some (len0, s2) }"

text \<open>\<open>kprintf\<close> has the body of \<open>vprintf\<close> with the arguments collected.\<close>

definition kprintf :: "u64 \<Rightarrow> u64 \<Rightarrow> u64 list \<Rightarrow> console \<Rightarrow> (i32 \<times> console) option" where
  "kprintf frame fmt args s = do {
     (len0, m) \<leftarrow> npf_vsnprintf (cmem s) frame 1024 fmt args;
     let s1 = set_cmem m s;
     s2 \<leftarrow> (if sint len0 \<ge> 0 \<and> sint len0 < 1024 then put frame (scast len0) s1 else Some s1);
     Some (len0, s2) }"

definition vfprintf :: "u64 \<Rightarrow> u64 \<Rightarrow> u64 \<Rightarrow> u64 list \<Rightarrow> console \<Rightarrow> (i32 \<times> console) option" where
  "vfprintf frame vnode fmt args s = do {
     (len0, m) \<leftarrow> npf_vsnprintf (cmem s) frame 1024 fmt args;
     let s1 = set_cmem m s;
     s2 \<leftarrow> (if sint len0 \<ge> 0 \<and> sint len0 < 1024
            then do { (r, f) \<leftarrow> vfs_write (con_fs s1) vnode frame (scast len0) 0; Some (s1\<lparr>con_fs := f\<rparr>) }
            else Some s1);
     Some (len0, s2) }"

definition fprintf :: "u64 \<Rightarrow> u64 \<Rightarrow> u64 \<Rightarrow> u64 list \<Rightarrow> console \<Rightarrow> (i32 \<times> console) option" where
  "fprintf frame vnode fmt args s = vfprintf frame vnode fmt args s"

definition printf :: "u64 \<Rightarrow> u64 \<Rightarrow> u64 list \<Rightarrow> console \<Rightarrow> (i32 \<times> console) option" where
  "printf frame fmt args s =
     (if stdout s = NULL then Some (0, s) else vfprintf frame (stdout s) fmt args s)"

definition vsnprintf :: "mem \<Rightarrow> u64 \<Rightarrow> u64 \<Rightarrow> u64 \<Rightarrow> u64 list \<Rightarrow> (i32 \<times> mem) option" where
  "vsnprintf m buf sz fmt args = do {
     (len0, m1) \<leftarrow> npf_vsnprintf m buf sz fmt args;
     Some (len0, if sint len0 \<ge> sint (ucast sz :: i32) then m1(buf + (sz - 1) := 0) else m1) }"

definition snprintf :: "mem \<Rightarrow> u64 \<Rightarrow> u64 \<Rightarrow> u64 \<Rightarrow> u64 list \<Rightarrow> (i32 \<times> mem) option" where
  "snprintf m buf sz fmt args = vsnprintf m buf sz fmt args"

text \<open>\<open>sizeof(buf)\<close> in these two is the size of a pointer.\<close>

definition vsprintf :: "mem \<Rightarrow> u64 \<Rightarrow> u64 \<Rightarrow> u64 list \<Rightarrow> (i32 \<times> mem) option" where
  "vsprintf m buf fmt args = vsnprintf m buf 8 fmt args"

definition sprintf :: "mem \<Rightarrow> u64 \<Rightarrow> u64 \<Rightarrow> u64 list \<Rightarrow> (i32 \<times> mem) option" where
  "sprintf m buf fmt args = vsnprintf m buf 8 fmt args"


subsection \<open>The device stdout\<close>

definition DEFAULT_COM_PORT :: u16 where "DEFAULT_COM_PORT = 0x3F8"

definition stdout_read :: "u64 \<Rightarrow> u64 \<Rightarrow> u64 \<Rightarrow> i32" where
  "stdout_read buf sz offset = -1"

primrec write_chars :: "nat \<Rightarrow> u64 \<Rightarrow> console \<Rightarrow> console" where
  "write_chars 0 buf s = s"
| "write_chars (Suc n) buf s =
     write_chars n (buf + 1) (s\<lparr>screen := screen s @ [cmem s buf],
       serial := outb DEFAULT_COM_PORT (cmem s buf) (serial s)\<rparr>)"

definition stdout_write :: "u64 \<Rightarrow> u64 \<Rightarrow> u64 \<Rightarrow> console \<Rightarrow> (i32 \<times> console) option" where
  "stdout_write buf sz offset s =
     (if buf = NULL then None else Some (ucast sz, write_chars (unat sz) buf s))"

definition read_vnode :: "u64 \<Rightarrow> u64 \<Rightarrow> u64 \<Rightarrow> u64 \<Rightarrow> i32" where
  "read_vnode vnode buf sz offset = 0"

primrec put_chars :: "nat \<Rightarrow> u64 \<Rightarrow> console \<Rightarrow> console" where
  "put_chars 0 buf s = s"
| "put_chars (Suc n) buf s = put_chars n (buf + 1) (s\<lparr>screen := screen s @ [cmem s buf]\<rparr>)"

definition write_vnode :: "u64 \<Rightarrow> u64 \<Rightarrow> u64 \<Rightarrow> u64 \<Rightarrow> console \<Rightarrow> (i32 \<times> console) option" where
  "write_vnode vnode buf sz offset s =
     (if buf = NULL then None else Some (ucast sz, put_chars (unat sz) buf s))"

text \<open>
  \<open>stdout_init\<close> registers the device and looks its vnode up. The file system keeps, of the two
  functions, what they do to the memory.
\<close>

definition stdout_init :: "console \<Rightarrow> console option" where
  "stdout_init s = do {
     (r, f) \<leftarrow> devfs_add_dev (con_fs s) (Some ''stdout'')
        (Some (\<lambda>buf sz offset m. Some (stdout_read buf sz offset, m)))
        (Some (\<lambda>buf sz offset m. if buf = NULL then None else Some (ucast sz, m)));
     if r \<noteq> 0 then None
     else do {
       mt \<leftarrow> mounts f (root_mount f);
       root \<leftarrow> vnodes f (m_root mt);
       node \<leftarrow> vfs_lazy_lookup f (v_mount root) (Some ''/dev/stdout'');
       Some (s\<lparr>con_fs := f, stdout := node\<rparr>) } }"



section \<open>The ring of messages\<close>

text \<open>
  The ring holds the history of all characters appended since start-up: the next free slot is the
  length of the history modulo the size, and the last characters, as many as there is room for, are
  in their slots.
\<close>

definition ring_region :: "console \<Rightarrow> u64 set" where
  "ring_region s = region (printk_buff_start s) (unat (PRINTK_BUFF_SIZE s))"

definition ring_of :: "console \<Rightarrow> u8 list \<Rightarrow> bool" where
  "ring_of s hist \<longleftrightarrow> (let n = unat (PRINTK_BUFF_SIZE s) in 0 < n \<and>
     printk_index s = of_nat (length hist mod n) \<and>
     (\<forall>k < length hist. length hist \<le> k + n \<longrightarrow>
        cmem s (printk_buff_start s + of_nat (k mod n)) = hist ! k))"

text \<open>What an output operation leaves alone.\<close>

definition same_console :: "console \<Rightarrow> console \<Rightarrow> bool" where
  "same_console s t \<longleftrightarrow> serial t = serial s \<and> put_lock t = put_lock s \<and> stdout t = stdout s \<and>
     printk_buff_start t = printk_buff_start s \<and> printk_buff_end t = printk_buff_end s \<and>
     ft_ctx t = ft_ctx s \<and> putchar_impl t = putchar_impl s \<and> screen t = screen s"

lemma append_char_ring:
  assumes "ring_of s hist"
  shows "ring_of (append_char c s) (hist @ [c])" "same_console s (append_char c s)"
    "\<And>x. x \<notin> ring_region s \<Longrightarrow> cmem (append_char c s) x = cmem s x"
proof -
  let ?n = "unat (PRINTK_BUFF_SIZE s)" and ?t = "append_char c s" and ?l = "length hist"
  have r: "0 < ?n" "printk_index s = of_nat (?l mod ?n)"
    "\<And>k. k < ?l \<Longrightarrow> ?l \<le> k + ?n \<Longrightarrow> cmem s (printk_buff_start s + of_nat (k mod ?n)) = hist ! k"
    using assms by (auto simp: ring_of_def Let_def)
  have n: "?n < 2 ^ 64" using unat_lt_64 [of "PRINTK_BUFF_SIZE s"] by simp
  have u: "unat (of_nat k :: u64) = k" if "k < ?n" for k using that n by (simp add: unat_of_nat)
  have lt: "k mod ?n < ?n" for k using r(1) by simp
  have t: "cmem ?t = (cmem s)(printk_buff_start s + of_nat (?l mod ?n) := c)" "PRINTK_BUFF_SIZE ?t = PRINTK_BUFF_SIZE s"
    "printk_buff_start ?t = printk_buff_start s"
    by (simp_all add: append_char_def set_cmem_def Let_def r(2) PRINTK_BUFF_SIZE_def)
  show "same_console s ?t" by (simp add: same_console_def append_char_def set_cmem_def Let_def)
  show "cmem ?t x = cmem s x" if "x \<notin> ring_region s" for x
    using that in_region_offset [OF lt [of ?l], of "printk_buff_start s"] n unfolding t(1) ring_region_def by auto
  have "unat (printk_index s + 1) = ?l mod ?n + 1"
    unfolding r(2) using lt [of ?l] n u [OF lt [of ?l]] by (subst unat_plus_no_wrap) simp_all
  then have "unat ((printk_index s + 1) mod PRINTK_BUFF_SIZE s) = Suc ?l mod ?n"
    by (simp add: unat_mod mod_Suc_eq)
  moreover have "printk_index ?t = of_nat (unat ((printk_index s + 1) mod PRINTK_BUFF_SIZE s))"
    by (simp add: append_char_def set_cmem_def Let_def)
  ultimately have idx: "printk_index ?t = of_nat (Suc ?l mod ?n)" by simp
  have slot: "cmem ?t (printk_buff_start s + of_nat (k mod ?n)) = (hist @ [c]) ! k" if k: "k < Suc ?l" "Suc ?l \<le> k + ?n" for k
  proof (cases "k = ?l")
    case True
    then show ?thesis by (simp add: t(1))
  next
    case False
    then have "\<not> ?n dvd ?l - k" using k by (auto dest: dvd_imp_le)
    then have "k mod ?n \<noteq> ?l mod ?n" using k mod_eq_dvd_iff_nat [of k ?l ?n] by auto
    then have "(of_nat (k mod ?n) :: u64) \<noteq> of_nat (?l mod ?n)" using u lt by metis
    then show ?thesis using r(3) [of k] k False by (simp add: t(1) nth_append)
  qed
  show "ring_of ?t (hist @ [c])"
    using slot r(1) idx by (simp add: ring_of_def Let_def t(2,3))
qed

lemma same_console_trans: "same_console s t \<Longrightarrow> same_console t u \<Longrightarrow> same_console s u"
  by (simp add: same_console_def)

lemma same_console_ring: "same_console s t \<Longrightarrow> ring_region t = ring_region s"
  by (simp add: same_console_def ring_region_def PRINTK_BUFF_SIZE_def)

lemma ring_of_cong:
  assumes "ring_of s hist" and "printk_buff_start t = printk_buff_start s" "printk_buff_end t = printk_buff_end s"
    "printk_index t = printk_index s" and "\<And>x. x \<in> ring_region s \<Longrightarrow> cmem t x = cmem s x"
  shows "ring_of t hist"
proof -
  have sz: "PRINTK_BUFF_SIZE t = PRINTK_BUFF_SIZE s" using assms by (simp add: PRINTK_BUFF_SIZE_def)
  have "printk_buff_start s + of_nat (k mod unat (PRINTK_BUFF_SIZE s)) \<in> ring_region s" if "0 < unat (PRINTK_BUFF_SIZE s)" for k
    unfolding ring_region_def using that unat_lt_64 [of "PRINTK_BUFF_SIZE s"] by (intro in_region_offset) simp_all
  then show ?thesis using assms unfolding ring_of_def sz Let_def by simp
qed

lemma append_chars_ring:
  assumes "ring_of s hist" and "\<And>k. k < length cs \<Longrightarrow> cmem s (data + of_nat k) = cs ! k"
    and "\<And>k. k < length cs \<Longrightarrow> data + of_nat k \<notin> ring_region s"
  shows "ring_of (append_chars (length cs) data s) (hist @ cs) \<and> same_console s (append_chars (length cs) data s) \<and>
    (\<forall>x. x \<notin> ring_region s \<longrightarrow> cmem (append_chars (length cs) data s) x = cmem s x)"
  using assms
proof (induction cs arbitrary: data s hist)
  case Nil
  then show ?case by (simp add: same_console_def)
next
  case (Cons c cs)
  note ac = append_char_ring [OF Cons.prems(1), where c = c]
  note rr = same_console_ring [OF ac(2)]
  have c: "cmem s data = c" using Cons.prems(2) [of 0] by simp
  have IH: "ring_of (append_chars (length cs) (data + 1) (append_char c s)) ((hist @ [c]) @ cs) \<and>
      same_console (append_char c s) (append_chars (length cs) (data + 1) (append_char c s)) \<and>
      (\<forall>x. x \<notin> ring_region s \<longrightarrow> cmem (append_chars (length cs) (data + 1) (append_char c s)) x = cmem (append_char c s) x)"
    unfolding rr [symmetric]
  proof (rule Cons.IH [OF ac(1)])
    fix k assume k: "k < length cs"
    have at: "data + 1 + of_nat k = data + of_nat (Suc k)" by simp
    show "data + 1 + of_nat k \<notin> ring_region (append_char c s)"
      using Cons.prems(3) [of "Suc k"] k unfolding at rr by simp
    then show "cmem (append_char c s) (data + 1 + of_nat k) = cs ! k"
      using ac(3) Cons.prems(2) [of "Suc k"] k unfolding at rr by simp
  qed
  with c ac(2,3) show ?case by (auto intro: same_console_trans)
qed

lemma put_screen_chars:
  assumes "\<And>k. k < length cs \<Longrightarrow> cmem s (data + of_nat k) = cs ! k"
  shows "written (serial (put_screen (length cs) data s)) = written (serial s) @ map (Pair 0xE9) cs \<and>
    con_fs (put_screen (length cs) data s) = con_fs s \<and> printk_index (put_screen (length cs) data s) = printk_index s \<and>
    printk_buff_start (put_screen (length cs) data s) = printk_buff_start s \<and>
    printk_buff_end (put_screen (length cs) data s) = printk_buff_end s \<and>
    screen (put_screen (length cs) data s) = screen s @ (if ft_ctx s \<noteq> NULL \<or> putchar_impl s then cs else [])"
  using assms
proof (induction cs arbitrary: data s)
  case (Cons c cs)
  let ?s = "if ft_ctx s \<noteq> NULL \<or> putchar_impl s
    then s\<lparr>serial := outb 0xE9 c (serial s), screen := screen s @ [c]\<rparr> else s\<lparr>serial := outb 0xE9 c (serial s)\<rparr>"
  have c: "cmem s data = c" using Cons.prems [of 0] by simp
  have "cmem ?s (data + 1 + of_nat k) = cs ! k" if "k < length cs" for k
    using Cons.prems [of "Suc k"] that by (simp add: add.assoc)
  note IH = Cons.IH [of ?s "data + 1", OF this]
  have "put_screen (length (c # cs)) data s = put_screen (length cs) (data + 1) ?s"
    by (simp add: c Let_def)
  with IH show ?case by auto
qed simp


lemma sint_of_length:
  assumes "k < 1024"
  shows "sint (of_nat k :: i32) = int k" "unat (scast (of_nat k :: i32) :: u64) = k"
proof -
  have "sint (of_nat k :: i32) = signed_take_bit 31 (int k)" by (simp add: signed_of_nat)
  then show s: "sint (of_nat k :: i32) = int k" using assms by (simp add: signed_take_bit_int_eq_self)
  have "scast (of_nat k :: i32) = (of_int (sint (of_nat k :: i32)) :: u64)" by simp
  then show "unat (scast (of_nat k :: i32) :: u64) = k" using assms unfolding s by (simp add: unat_of_nat)
qed


section \<open>Properties\<close>


definition sample_console :: "vfs \<Rightarrow> console" where
  "sample_console f =
     \<lparr>con_fs = f\<lparr>bytes := ld_mem(3000 := 72, 3001 := 105)\<rparr>, serial = \<lparr>written = [], reads = 0, answer = (\<lambda>_ _ _. 0)\<rparr>,
      put_lock = False, stdout = NULL, printk_buff_start = 3000, printk_buff_end = 3004, printk_index = 2,
      ft_ctx = NULL, putchar_impl = False, screen = []\<rparr>"

lemma sample_console_ring: "ring_of (sample_console f) [72, 105]" "ring_region (sample_console f) = region 3000 4"
proof -
  have sz: "PRINTK_BUFF_SIZE (sample_console f) = 4" by (simp add: sample_console_def PRINTK_BUFF_SIZE_def)
  show "ring_region (sample_console f) = region 3000 4" unfolding ring_region_def sz by (simp add: sample_console_def)
  show "ring_of (sample_console f) [72, 105]"
    unfolding ring_of_def sz Let_def by (auto simp: sample_console_def less_Suc_eq)
qed

lemma sample_console_format: "cstr (cmem (sample_console f)) 100 [37, 108, 100]"
  by (simp add: sample_console_def ld_mem_def)


end
