(* ===== verification/Syscall_Props.thy ===== *)
theory Syscall_Props
  imports Syscall Ramfs Vfs_Locks Sched_Props
begin

text \<open>
  What a process sees of the system calls through \<open>syscall_handler\<close>: every error is reported in
  \<open>rax\<close> and in the control block and has no other effect, and data written to a file can be read
  back through the descriptor.
\<close>

section \<open>The running process\<close>

definition running :: "kernel \<Rightarrow> u64 \<Rightarrow> pcb \<Rightarrow> bool" where
  "running k p b \<longleftrightarrow> scheduler_get_current (sc k) = Some p \<and> p \<noteq> NULL \<and> pcbs (sc k) p = Some b"

definition with_pcb :: "u64 \<Rightarrow> pcb \<Rightarrow> kernel \<Rightarrow> kernel" where
  "with_pcb p b k = k\<lparr>sc := (sc k)\<lparr>pcbs := (pcbs (sc k))(p \<mapsto> b)\<rparr>\<rparr>"

lemma with_pcb_simps [simp]:
  "fs (with_pcb p b k) = fs k" "pcbs (sc (with_pcb p b k)) p = Some b"
  "with_pcb p b (with_pcb p b' k) = with_pcb p b k"
  "scheduler_get_current (sc (with_pcb p b k)) = scheduler_get_current (sc k)"
  "proc_at (sc (with_pcb p b k)) i = proc_at (sc k) i" "count (sc (with_pcb p b k)) = count (sc k)"
  by (simp_all add: with_pcb_def scheduler_get_current_def proc_at_def)

lemma with_pcb_fs: "with_pcb p b (k\<lparr>fs := f\<rparr>) = (with_pcb p b k)\<lparr>fs := f\<rparr>"
  by (simp add: with_pcb_def)

lemma running_with_pcb: "running k p b \<Longrightarrow> running (with_pcb p b' k) p b'"
  by (simp add: running_def)

lemma running_fs: "running (k\<lparr>fs := f\<rparr>) p b \<longleftrightarrow> running k p b"
  by (simp add: running_def)

lemma running_call: "running k p b \<Longrightarrow> with_current k f = f p b"
  by (simp add: running_def with_current_def)

lemma pcb_touch_running: "pcbs (sc k) p = Some b \<Longrightarrow> pcb_touch p f k = with_pcb p (f b) k"
  by (simp add: pcb_touch_def pcb_upd_def with_pcb_def)

text \<open>The handler around a call that leaves the process alive.\<close>

definition after_call :: "i32 \<Rightarrow> pcb \<Rightarrow> pcb" where
  "after_call status b = b\<lparr>errno := (if sint status < 0 then - status else errno b), in_syscall := False\<rparr>"

lemma syscall_handler_call:
  assumes r: "running k p b"
    and call: "(if rax c < SYSCALL_TABLE_SIZE then syscall_table (with_pcb p (b\<lparr>in_syscall := True\<rparr>) k) c
      else Some (- EINVAL, with_pcb p (b\<lparr>in_syscall := True\<rparr>) k)) = Some (status, k')"
    and alive: "pcbs (sc k') p = Some b'" and tty: "- status = ENOTTY \<Longrightarrow> rdi c < 1024"
  shows "syscall_handler k c = Some (c\<lparr>rax := scast status\<rparr>, with_pcb p (after_call status b') k')"
  using assms
  by (auto simp: syscall_handler_def running_def pcb_touch_running after_call_def Let_def linorder_not_less split: if_splits)


section \<open>Errors\<close>

text \<open>The errors of a running process that depend on its descriptors and on the arguments.\<close>

definition closed :: "pcb \<Rightarrow> i32 \<Rightarrow> bool" where
  "closed b fd \<longleftrightarrow> 0 \<le> sint fd \<and> sint fd < 1024 \<and> fd_table b (unat fd) = NULL"

definition denied :: "vfs \<Rightarrow> pcb \<Rightarrow> i32 \<Rightarrow> u64 \<Rightarrow> bool" where
  "denied s b fd action \<longleftrightarrow> 0 \<le> sint fd \<and> sint fd < 1024 \<and> fd_table b (unat fd) \<noteq> NULL \<and>
     (case vnodes s (fd_table b (unat fd)) of None \<Rightarrow> False
      | Some v \<Rightarrow> \<not> mode_allows v (u_uid (whoami b)) (u_gid (whoami b)) action)"

inductive syscall_error :: "kernel \<Rightarrow> pcb \<Rightarrow> register_ctx \<Rightarrow> u32 \<Rightarrow> bool" for k b c where
  unknown: "rax c \<ge> SYSCALL_TABLE_SIZE \<Longrightarrow> syscall_error k b c EINVAL"
| no_uname: "rax c = 10 \<Longrightarrow> syscall_error k b c ENOTIMPL"
| bad_fd: "rax c \<in> {3, 4, 8} \<Longrightarrow> closed b (ucast (rdi c)) \<Longrightarrow> syscall_error k b c EBADF"
| bad_write: "rax c = 3 \<Longrightarrow> denied (fs k) b (ucast (rdi c)) 2 \<Longrightarrow> syscall_error k b c EACCES"
| bad_read: "rax c = 4 \<Longrightarrow> denied (fs k) b (ucast (rdi c)) 1 \<Longrightarrow> syscall_error k b c EACCES"
| no_buffer: "rax c = 5 \<Longrightarrow> rsi c = NULL \<Longrightarrow> syscall_error k b c EFAULT"
| bad_stat: "rax c = 5 \<Longrightarrow> rsi c \<noteq> NULL \<Longrightarrow> closed b (ucast (rdi c)) \<Longrightarrow> syscall_error k b c EBADF"
| no_ioctl: "rax c = 8 \<Longrightarrow> rdi c < 1024 \<Longrightarrow> fd_table b (unat (rdi c)) \<noteq> NULL \<Longrightarrow>
    vnodes (fs k) (fd_table b (unat (rdi c))) = Some v \<Longrightarrow> v_ops v \<noteq> None \<Longrightarrow> syscall_error k b c ENOTTY"
| bad_close: "rax c = 2 \<Longrightarrow> pid b < count (sc k) \<Longrightarrow> proc_at (sc k) (pid b) = Some p \<Longrightarrow> p \<noteq> NULL \<Longrightarrow>
    pcbs (sc k) p = Some b \<Longrightarrow> running k p b \<Longrightarrow> sint (ucast (rdi c) :: i32) < 0 \<or> sint (ucast (rdi c) :: i32) \<ge> 1024 \<or> closed b (ucast (rdi c)) \<Longrightarrow>
    syscall_error k b c EBADF"
| bad_pid: "rax c = 2 \<Longrightarrow> pid b \<ge> count (sc k) \<Longrightarrow> syscall_error k b c EBADPID"

lemma allowed_mode: "p \<noteq> NULL \<Longrightarrow> vnodes s p = Some v \<Longrightarrow>
    vfs_am_i_allowed s p uid gid action = Some (mode_allows v uid gid action)"
  by (auto simp: vfs_am_i_allowed_def mode_allows_def mode_bits action_cases action_bit_def Let_def)

lemma errno_value: "syscall_error k b c e \<Longrightarrow> sint (- e) < 0 \<and> scast (- e) = (- ucast e :: u64)"
  by (erule syscall_error.cases) (simp_all add: errno_defs)

lemmas call_defs = syscall_table_def sys_close_def sys_write_def sys_read_def sys_stat_def sys_ioctl_def sys_uname_def
  SYSCALL_TABLE_SIZE_def Let_def

lemma fd_vnode_in_syscall: "fd_vnode (b\<lparr>in_syscall := x\<rparr>) fd = fd_vnode b fd"
  by (simp add: fd_vnode_def)

lemma closed_fd: "closed b fd \<Longrightarrow> fd_vnode b fd = Some NULL"
  by (simp add: closed_def fd_vnode_def)

lemma denied_fd:
  assumes "denied s b fd action"
  shows "\<exists>f. fd_vnode b fd = Some f \<and> f \<noteq> NULL \<and>
    vfs_am_i_allowed s f (u_uid (whoami b)) (u_gid (whoami b)) action = Some False"
  using assms by (auto simp: denied_def fd_vnode_def allowed_mode split: option.splits)

lemma small_fd:
  assumes "x < (1024 :: u64)"
  shows "sint (ucast x :: i32) = int (unat x)" "unat (ucast x :: i32) = unat x" "uint x < 1024"
proof -
  have x: "unat x < 1024" using assms by (simp add: word_less_nat_alt)
  then show u: "unat (ucast x :: i32) = unat x" by (simp add: unsigned_ucast_eq take_bit_nat_eq_self)
  then have "int (unat (ucast x :: i32)) = int (unat x)" by (simp only:)
  then have i: "uint (ucast x :: i32) = uint x" by (simp only: uint_nat)
  show l: "uint x < 1024" using assms by (simp add: word_less_def)
  have "signed_take_bit 31 (uint x) = uint x"
    by (rule signed_take_bit_int_eq_self) (use l order_trans [OF _ uint_ge_0 [of x]] in simp_all)
  then show "sint (ucast x :: i32) = int (unat x)" by (simp add: sint_uint i)
qed

lemma syscall_error_call:
  assumes "running k p b" and "syscall_error k b c e"
  shows "(if rax c < SYSCALL_TABLE_SIZE then syscall_table (with_pcb p (b\<lparr>in_syscall := True\<rparr>) k) c
      else Some (- EINVAL, with_pcb p (b\<lparr>in_syscall := True\<rparr>) k)) = Some (- e, with_pcb p (b\<lparr>in_syscall := True\<rparr>) k)"
proof -
  note r = running_with_pcb [OF assms(1), of "b\<lparr>in_syscall := True\<rparr>"]
  note d = running_call [OF r] call_defs
  show ?thesis
    using assms(2)
  proof cases
    case (bad_close q)
    then have "q = p" using assms(1) by (simp add: running_def)
    with bad_close show ?thesis
      by (auto simp: d scheduler_proc_remove_vnode_def closed_def)
  next
    case (no_ioctl v)
    then have "fd_vnode b (ucast (rdi c)) = Some (fd_table b (unat (rdi c)))"
      using small_fd [OF no_ioctl(3)] by (simp add: fd_vnode_def)
    with no_ioctl show ?thesis by (auto simp: d fd_vnode_in_syscall)
  next
    case unknown
    then show ?thesis by (simp add: SYSCALL_TABLE_SIZE_def linorder_not_less [symmetric])
  next
    case no_uname
    then show ?thesis by (simp add: d)
  next
    case bad_fd
    then show ?thesis using closed_fd by (auto simp: d fd_vnode_in_syscall)
  next
    case bad_write
    from denied_fd [OF bad_write(3)] bad_write(1,2) show ?thesis by (auto simp: d fd_vnode_in_syscall)
  next
    case bad_read
    from denied_fd [OF bad_read(3)] bad_read(1,2) show ?thesis by (auto simp: d fd_vnode_in_syscall)
  next
    case no_buffer
    then show ?thesis by (simp add: d)
  next
    case bad_stat
    then show ?thesis using closed_fd by (auto simp: d fd_vnode_in_syscall)
  next
    case bad_pid
    then show ?thesis by (auto simp: d scheduler_proc_remove_vnode_def)
  qed
qed

text \<open>
  C15: A failing system call tells the process why and does nothing else: the number of the error is
  returned negated in \<open>rax\<close> and kept in the control block, the process is out of the call again, and
  nothing else in the kernel changes. The errors are an unknown number, \<open>uname\<close>, a closed descriptor,
  missing permission to read or write, a missing \<open>stat\<close> buffer, \<open>ioctl\<close> on a vnode, and closing what
  is not open.
\<close>

theorem syscall_errors_reported:
  assumes "running k p b" and "syscall_error k b c e"
  shows "syscall_handler k c = Some (c\<lparr>rax := - ucast e\<rparr>, with_pcb p (b\<lparr>errno := e, in_syscall := False\<rparr>) k)"
proof -
  have "e = ENOTTY \<Longrightarrow> rdi c < 1024"
    using assms(2) by (auto elim!: syscall_error.cases simp: errno_defs)
  then show ?thesis
    using syscall_handler_call [OF assms(1) syscall_error_call [OF assms]] errno_value [OF assms(2)]
    by (simp add: after_call_def)
qed

definition one_kernel :: "vfs \<Rightarrow> sched \<Rightarrow> pcb \<Rightarrow> kernel" where
  "one_kernel f s b = \<lparr>fs = f, sc = (one_proc s b)\<lparr>current_pid := 0\<rparr>\<rparr>"

lemma one_kernel_running: "running (one_kernel f s b) 0x8000 b" "fs (one_kernel f s b) = f"
  by (simp_all add: running_def one_kernel_def one_proc_def scheduler_get_current_def proc_at_def PROC_MAX_PROCS_def)

theorem syscall_errors_reported_witness:
  "\<forall>f s b c. syscall_handler (one_kernel f s (b\<lparr>fd_table := (\<lambda>_. NULL)\<rparr>)) (c\<lparr>rax := 3, rdi := 7\<rparr>) =
     Some (c\<lparr>rax := - 2, rdi := 7\<rparr>,
       with_pcb 0x8000 (b\<lparr>fd_table := (\<lambda>_. NULL), errno := EBADF, in_syscall := False\<rparr>) (one_kernel f s (b\<lparr>fd_table := (\<lambda>_. NULL)\<rparr>)))"
proof (intro allI)
  fix f s and b :: pcb and c :: register_ctx
  let ?b = "b\<lparr>fd_table := (\<lambda>_. NULL)\<rparr>" and ?c = "c\<lparr>rax := 3, rdi := 7\<rparr>"
  have "syscall_error (one_kernel f s ?b) ?b ?c EBADF"
    by (rule bad_fd) (simp_all add: closed_def)
  from syscall_errors_reported [OF one_kernel_running(1) this]
  show "syscall_handler (one_kernel f s ?b) ?c = Some (c\<lparr>rax := - 2, rdi := 7\<rparr>,
       with_pcb 0x8000 (b\<lparr>fd_table := (\<lambda>_. NULL), errno := EBADF, in_syscall := False\<rparr>) (one_kernel f s ?b))"
    by (simp add: EBADF_def)
qed


section \<open>Reading and writing\<close>

lemma status_small:
  assumes "unat (n :: u64) < 2 ^ 31"
  shows "sint (ucast n :: i32) = int (unat n)" "scast (ucast n :: i32) = n" "(ucast n :: i32) \<noteq> - 1"
proof -
  have "int (unat n) < int (2 ^ 31)" using assms by (simp only: of_nat_less_iff)
  then have "uint n < 2 ^ 31" by simp
  then have i: "uint (ucast n :: i32) = uint n" by (simp add: unsigned_ucast_eq take_bit_int_eq_self)
  have "signed_take_bit 31 (uint n) = uint n"
    by (rule signed_take_bit_int_eq_self) (use \<open>uint n < 2 ^ 31\<close> order_trans [OF _ uint_ge_0 [of n]] in simp_all)
  then show s: "sint (ucast n :: i32) = int (unat n)" by (simp add: sint_uint i)
  then have "(of_int (sint (ucast n :: i32)) :: u64) = n" by simp
  then show "scast (ucast n :: i32) = n" by simp
  show "(ucast n :: i32) \<noteq> - 1"
  proof
    assume "(ucast n :: i32) = - 1"
    with s have "int (unat n) = - 1" by simp
    then show False by linarith
  qed
qed

lemma mode_allows_cong:
  "v_mode w = v_mode v \<Longrightarrow> v_uid w = v_uid v \<Longrightarrow> v_gid w = v_gid v \<Longrightarrow> mode_allows v uid gid action \<Longrightarrow> mode_allows w uid gid action"
  by (simp add: mode_allows_def)

lemma sys_write_file:
  assumes r: "running k p b" and fd: "fd_vnode b fd = Some f" and a: "vnodes (fs k) f = Some v" "mode_allows v (u_uid (whoami b)) (u_gid (whoami b)) 2"
    and f: "file_holds (fs k) f c" and w: "write_ok (fs k) f c buf n 0" and n: "n \<noteq> 0" "unat n < 2 ^ 31"
  shows "\<exists>t. sys_write k fd buf n = Some (ucast n, k\<lparr>fs := t\<rparr>) \<and> file_holds t f (splice c 0 (chunk (bytes (fs k)) buf (unat n))) \<and>
    file_data t f = (if unat n \<le> length c then file_data (fs k) f else hd (answers (fs k))) \<and> access_of t f = access_of (fs k) f"
proof -
  have "f \<noteq> NULL" "buf \<noteq> NULL" using f w by (simp_all add: file_holds_def write_ok_def)
  moreover obtain t where "vfs_write (fs k) f buf n 0 = Some (ucast n, t)" "file_holds t f (splice c 0 (chunk (bytes (fs k)) buf (unat n)))"
    "file_data t f = (if unat n \<le> length c then file_data (fs k) f else hd (answers (fs k)))" "access_of t f = access_of (fs k) f"
    using vfs_write_file [OF f w] by auto
  ultimately show ?thesis
    using fd a n status_small(3) [OF n(2)]
    by (intro exI [of _ t]) (simp add: sys_write_def running_call [OF r] allowed_mode [OF _ a(1)])
qed

lemma sys_read_file:
  assumes r: "running k p b" and fd: "fd_vnode b fd = Some f" and a: "vnodes (fs k) f = Some v" "mode_allows v (u_uid (whoami b)) (u_gid (whoami b)) 1"
    and f: "file_holds (fs k) f c" and n: "n \<noteq> 0" "unat n < 2 ^ 31" "unat n \<le> length c" and o: "out \<noteq> NULL"
    and d: "region out (unat n) \<inter> region (file_data (fs k) f) (length c) = {}"
  shows "\<exists>t. sys_read k fd out n = Some (ucast n, k\<lparr>fs := t\<rparr>) \<and> file_holds t f c \<and> chunk (bytes t) out (unat n) = take (unat n) c"
proof -
  have "f \<noteq> NULL" using f by (simp add: file_holds_def)
  moreover have "0 < unat n" using n(1) by (simp add: unat_gt_0)
  then have "unat (0 :: u64) < length c" using n(3) by (cases c) simp_all
  then obtain t and j :: u64 where "vfs_read (fs k) f out n 0 = Some (ucast j, t)" "unat j = min (unat n) (length c)"
    "chunk (bytes t) out (unat j) = take (unat n) c" "file_holds t f c"
    using vfs_read_ramfs [OF f o _ d, of 0] by auto
  moreover from this(2) n(3) have "j = n" by (simp add: word_unat_eq_iff)
  ultimately show ?thesis
    using fd a n o status_small(3) [OF n(2)]
    by (intro exI [of _ t]) (simp add: sys_read_def running_call [OF r] allowed_mode [OF _ a(1)])
qed


text \<open>The file of two bytes at \<open>0x2000\<close>, open to everybody, is descriptor 0 of the process.\<close>

definition open_vfs :: vfs where
  "open_vfs = file_vfs\<lparr>vnodes := map_option (v_mode_update (\<lambda>_. 0x1FF)) \<circ> vnodes file_vfs\<rparr>"

lemma open_vfs_holds:
  "file_holds open_vfs 0x2000 [0, 1]" "file_data open_vfs 0x2000 = 0x8000" "bytes open_vfs = bytes file_vfs"
  using file_vfs_holds by (auto simp: file_holds_def file_data_def open_vfs_def file_vfs_def)

lemma open_vfs_mode:
  obtains v where "vnodes open_vfs 0x2000 = Some v" "mode_allows v uid gid 1" "mode_allows v uid gid 2"
  by (rule that) (auto simp: open_vfs_def file_vfs_def mode_allows_def action_bit_def)


end
