(* ===== verification/Vma_Props.thy ===== *)
theory Vma_Props
  imports Vma Address_Space
begin

text \<open>
  What an allocation of virtual memory gives the caller: the list of regions of a context, that
  \<open>vma_create_context\<close> builds one, and that \<open>vma_alloc\<close> appends a region and backs all its pages with
  cleared frames of its own.
\<close>

section \<open>Blocks of the kernel's own\<close>

text \<open>
  The structs lie in pages of the allocator that are neither free nor tables of the address space.
\<close>

definition kblock :: "pmm \<Rightarrow> u64 \<Rightarrow> u64 \<Rightarrow> bool" where
  "kblock s root b \<longleftrightarrow> b \<noteq> NULL \<and> region b 4096 \<inter> (owned s root \<union> stack_region s) = {}"

lemma kblock_loads:
  assumes "loads root k s t" and "kblock s root b"
  shows "kblock t root b" "\<And>x. x \<in> region b 4096 \<Longrightarrow> mem t x = mem s x"
proof -
  have "region b 4096 \<inter> owned s root = {}" using assms(2) by (auto simp: kblock_def)
  note lo = loads_outside [OF assms(1) this]
  have su: "same_setup s t" using assms(1) by (simp add: loads_def)
  show "kblock t root b"
    using assms(2) lo(1) same_setup_simps(2) [OF su] by (auto simp: kblock_def)
  show "mem t x = mem s x" if "x \<in> region b 4096" for x using lo(2) that by blast
qed

text \<open>A write into such blocks changes nothing that the allocator and the page tables know.\<close>

lemma kblock_write:
  assumes inv: "vm_inv s root" and b: "\<forall>b \<in> B. kblock s root b"
    and m: "\<forall>x. x \<notin> (\<Union>b \<in> B. region b 4096) \<longrightarrow> m x = mem s x"
  shows "vm_inv (s\<lparr>mem := m\<rparr>) root" "stack_list (s\<lparr>mem := m\<rparr>) = stack_list s" "same_setup s (s\<lparr>mem := m\<rparr>)"
    "owned (s\<lparr>mem := m\<rparr>) root = owned s root" "leaf (s\<lparr>mem := m\<rparr>) root v = leaf s root v"
    "kblock (s\<lparr>mem := m\<rparr>) root c = kblock s root c"
proof -
  have "m x = mem s x" if "x \<in> owned s root \<union> stack_region s" for x
    using b m that by (auto simp: kblock_def)
  note dw = data_write [OF inv refl this]
  show "vm_inv (s\<lparr>mem := m\<rparr>) root" "stack_list (s\<lparr>mem := m\<rparr>) = stack_list s" "leaf (s\<lparr>mem := m\<rparr>) root v = leaf s root v"
    and su: "same_setup s (s\<lparr>mem := m\<rparr>)"
    using dw by blast+
  show o: "owned (s\<lparr>mem := m\<rparr>) root = owned s root"
    unfolding owned_def using dw(2,4) same_setup_simps(1) [OF su] by simp
  show "kblock (s\<lparr>mem := m\<rparr>) root c = kblock s root c"
    unfolding kblock_def o same_setup_simps(2) [OF su] by simp
qed

text \<open>The eight-byte fields of a struct.\<close>

lemma field_region: "unat x \<le> 4088 \<Longrightarrow> region (b + x) 8 \<subseteq> region b 4096"
  using region_sub [of "unat x" 8 4096 b] by simp

lemma field_other:
  assumes "unat x + 8 \<le> unat y \<or> unat y + 8 \<le> unat x" and "unat x < 4096" "unat y < 4096"
  shows "load64 (store64 m (b + x) v) (b + y) = load64 m (b + y)"
proof (rule load_store64_disjoint)
  show "region (b + x) 8 \<inter> region (b + y) 8 = {}"
    using region_disjoint [of x 8 y 8 b] assms by (simp add: add.commute)
qed

lemma field_apart:
  assumes "region b 4096 \<inter> region c 4096 = {}" and "unat x \<le> 4088" "unat y \<le> 4088"
  shows "load64 (store64 m (b + x) v) (c + y) = load64 m (c + y)"
  using assms field_region [of x b] field_region [of y c] by (intro load_store64_disjoint) blast

text \<open>The fields that the model reads are words of a block.\<close>

lemmas vma_fields = region_start_def region_size_def region_flags_def region_next_def region_prev_def
  ctx_pagemap_def ctx_root_def

lemma field_keep:
  assumes "\<And>x. x \<in> region b 4096 \<Longrightarrow> mem t x = mem s x"
  shows "region_start t b = region_start s b" "region_size t b = region_size s b" "region_flags t b = region_flags s b"
    "region_next t b = region_next s b" "region_prev t b = region_prev s b"
    "ctx_pagemap t b = ctx_pagemap s b" "ctx_root t b = ctx_root s b"
proof -
  have "load64 (mem t) (b + x) = load64 (mem s) (b + x)" if "unat x \<le> 4088" for x
    by (rule load64_region) (use assms field_region [OF that] in blast)
  from this [of 0] this [of 8] this [of 16] this [of 24] this [of 32]
  show "region_start t b = region_start s b" "region_size t b = region_size s b" "region_flags t b = region_flags s b"
    "region_next t b = region_next s b" "region_prev t b = region_prev s b"
    "ctx_pagemap t b = ctx_pagemap s b" "ctx_root t b = ctx_root s b"
    by (simp_all add: vma_fields)
qed

lemma kblock_fields:
  assumes "loads root k s t" and "kblock s root b"
  shows "region_start t b = region_start s b" "region_size t b = region_size s b" "region_flags t b = region_flags s b"
    "region_next t b = region_next s b" "region_prev t b = region_prev s b"
    "ctx_pagemap t b = ctx_pagemap s b" "ctx_root t b = ctx_root s b"
  by (rule field_keep, erule kblock_loads(2) [OF assms])+

lemma clear_zero:
  assumes "\<And>x. x \<in> region a 4096 \<Longrightarrow> mem s x = 0" and "unat n \<le> 4096"
  shows "clear a n s = s"
proof -
  have "memset (mem s) a 0 n = block_fill (mem s) a 0 (unat n)"
    unfolding memset_def using assms(2) by (simp add: memset_loop_fill)
  also have "\<dots> = mem s"
    using assms by (auto simp: block_fill_def region_def fun_eq_iff)
  finally show ?thesis by (simp add: clear_def)
qed


section \<open>Contexts\<close>

fun linked :: "pmm \<Rightarrow> u64 list \<Rightarrow> bool" where
  "linked s [] = False"
| "linked s [r] \<longleftrightarrow> region_next s r = NULL"
| "linked s (r # q # rs) \<longleftrightarrow> region_next s r = q \<and> linked s (q # rs)"

text \<open>No region ends before the next one starts, as the code computes the end.\<close>

fun packed :: "pmm \<Rightarrow> u64 list \<Rightarrow> bool" where
  "packed s (r # q # rs) \<longleftrightarrow> \<not> region_start s r + region_size s r < region_start s q \<and> packed s (q # rs)"
| "packed s _ \<longleftrightarrow> True"

primrec apart :: "u64 list \<Rightarrow> bool" where
  "apart [] \<longleftrightarrow> True"
| "apart (b # bs) \<longleftrightarrow> (\<forall>c \<in> set bs. region b 4096 \<inter> region c 4096 = {}) \<and> apart bs"

lemma apart_snoc: "apart (bs @ [c]) \<longleftrightarrow> apart bs \<and> (\<forall>b \<in> set bs. region b 4096 \<inter> region c 4096 = {})"
  by (induction bs) auto

definition vma_ok :: "pmm \<Rightarrow> u64 \<Rightarrow> u64 \<Rightarrow> u64 list \<Rightarrow> bool" where
  "vma_ok s root ctx rs \<longleftrightarrow> vm_inv s root \<and> (\<forall>b \<in> set (ctx # rs). kblock s root b) \<and> apart (ctx # rs) \<and>
     HIGHER_HALF s root \<noteq> NULL \<and> ctx_pagemap s ctx = HIGHER_HALF s root \<and> ctx_root s ctx = hd rs \<and>
     linked s rs \<and> packed s rs"

lemma find_gap_packed:
  assumes "linked s rs" "packed s rs" "NULL \<notin> set rs"
  shows "find_gap s (hd rs) = Some (last rs)"
  using assms
proof (induction s rs rule: linked.induct)
  case (2 s r)
  then show ?case by (subst find_gap.simps) simp
next
  case (3 s r q rs)
  then show ?case by (subst find_gap.simps) simp
qed simp

lemma linked_cong:
  assumes "\<And>b. b \<in> set rs \<Longrightarrow> region_next t b = region_next s b" and "linked s rs"
  shows "linked t rs"
  using assms by (induction s rs rule: linked.induct) auto

lemma packed_cong:
  assumes "\<And>b. b \<in> set rs \<Longrightarrow> region_start t b = region_start s b \<and> region_size t b = region_size s b" and "packed s rs"
  shows "packed t rs"
  using assms by (induction s rs rule: packed.induct) auto

lemma linked_last: "linked s rs \<Longrightarrow> region_next s (last rs) = NULL"
  by (induction s rs rule: linked.induct) auto

lemma linked_snoc:
  assumes "linked s rs" and "\<And>b. b \<in> set (butlast rs) \<Longrightarrow> region_next t b = region_next s b"
    and "region_next t (last rs) = new" "region_next t new = NULL"
  shows "linked t (rs @ [new])"
  using assms
proof (induction s rs rule: linked.induct)
  case (3 s r q rs)
  then show ?case by (cases rs) auto
qed auto

lemma packed_snoc:
  assumes "packed s rs" "rs \<noteq> []" and "\<not> region_start s (last rs) + region_size s (last rs) < region_start s new"
  shows "packed s (rs @ [new])"
  using assms
proof (induction s rs rule: packed.induct)
  case (1 s r q rs)
  then show ?case by (cases rs) auto
qed auto


section \<open>Backing a region\<close>

lemma back_region_ok:
  assumes "vm_inv s root" and "4 * n \<le> length (stack_list s)" and "kblock s root ctx" "kblock s root rg"
    and "ctx_pagemap s ctx = HIGHER_HALF s root" "region_start s rg = a" "region_flags s rg = flags"
    and "unat a + 4096 * (i + n) \<le> 2 ^ 47"
  shows "\<exists>s'. back_region n ctx rg (of_nat i) s = (True, s') \<and> loads root (4 * n) s s' \<and>
    (\<forall>v. (\<forall>j < n. \<not> same_page v (a + of_nat (4096 * (i + j)))) \<longrightarrow> leaf s' root v = leaf s root v) \<and>
    (\<forall>j < n. page_is s' root (a + of_nat (4096 * (i + j))) flags (\<lambda>_. 0))"
  using assms
proof (induction n arbitrary: s i)
  case 0
  then show ?case by (simp add: loads_refl)
next
  case (Suc n)
  let ?v = "\<lambda>k. a + of_nat (4096 * k)"
  have sep: "\<not> same_page (?v i) (?v j)" if "i < j" "j < i + Suc n" for j
  proof -
    have u: "unat (?v k) = unat a + 4096 * k" if "k < i + Suc n" for k
    proof -
      have b: "4096 * k < 2 ^ 47" using that Suc.prems(8) by simp
      then have "unat (of_nat (4096 * k) :: u64) = 4096 * k" by (simp add: unat_of_nat del: of_nat_mult)
      then show ?thesis using that Suc.prems(8) by (subst unat_plus_no_wrap) (simp_all del: of_nat_mult)
    qed
    have "unat (?v i) < 2 ^ 48" "unat (?v j) < 2 ^ 48" "unat (?v i) div 4096 \<noteq> unat (?v j) div 4096"
      using u [of i] u [OF that(2)] that Suc.prems(8) by auto
    then show ?thesis by (simp only: same_page_div) simp
  qed
  have "stack_list s \<noteq> []" using Suc.prems(2) by (auto simp del: length_stack_list)
  from request_private [OF Suc.prems(1) this] obtain q s1 where q: "pmm_request_page s = (q, s1)" "frame_ok s q" "loads root 1 s s1"
    "\<And>w. leaf s1 root w = leaf s root w" "page_frame s q \<inter> owned s1 root = {}" "\<And>x. x \<in> page_frame s q \<Longrightarrow> mem s1 x = 0"
    "Suc (length (stack_list s1)) = length (stack_list s)"
    by metis
  have v1: "vm_inv s1 root" "HIGHER_HALF s1 = HIGHER_HALF s" "page_frame s1 = page_frame s"
    using q(3) same_setup_simps(1,4) by (auto simp: loads_def)
  define s2 where "s2 = vmm_map s1 (HIGHER_HALF s root) (?v i) q flags"
  have "3 \<le> length (stack_list s1)" using Suc.prems(2) q(7) by (simp del: length_stack_list)
  note vm = vmm_map_loads [OF v1(1) this, of "?v i" q flags, unfolded v1(2), folded s2_def]
  have l2: "loads root 4 s s2" using loads_trans [OF q(3) vm(1)] by simp
  have v2: "vm_inv s2 root" "HIGHER_HALF s2 = HIGHER_HALF s" "page_frame s2 = page_frame s"
    using l2 same_setup_simps(1,4) by (auto simp: loads_def)
  have p2: "page_is s2 root (?v i) flags (\<lambda>_. 0)"
  proof -
    have "HIGHER_HALF s q + of_nat j \<in> page_frame s q" if "j < 4096" for j
      using that by (simp add: page_frame_def in_region_offset)
    then show ?thesis
      using loads_outside [OF vm(1) q(5)] q(2,6) vm(2) [of "?v i"] v2
      unfolding page_is_def frame_ok_def by (auto simp: same_page_def)
  qed
  have "\<exists>s'. back_region n ctx rg (of_nat (Suc i)) s2 = (True, s') \<and> loads root (4 * n) s2 s' \<and>
    (\<forall>v. (\<forall>j < n. \<not> same_page v (?v (Suc i + j))) \<longrightarrow> leaf s' root v = leaf s2 root v) \<and>
    (\<forall>j < n. page_is s' root (?v (Suc i + j)) flags (\<lambda>_. 0))"
    by (rule Suc.IH)
      (use v2 Suc.prems kblock_loads(1) [OF l2] kblock_fields [OF l2] loads_free [OF l2, of "4 * n"] in auto)
  then obtain s' where s': "back_region n ctx rg (of_nat (Suc i)) s2 = (True, s')" "loads root (4 * n) s2 s'"
    "\<And>v. (\<And>j. j < n \<Longrightarrow> \<not> same_page v (?v (Suc i + j))) \<Longrightarrow> leaf s' root v = leaf s2 root v"
    "\<And>j. j < n \<Longrightarrow> page_is s' root (?v (Suc i + j)) flags (\<lambda>_. 0)"
    by blast
  have "back_region (Suc n) ctx rg (of_nat i) s = (True, s')"
    using s'(1) q(1,2) kblock_fields [OF q(3)] Suc.prems(3-7)
    by (simp add: frame_ok_def s2_def mult.commute add.commute PAGE_SIZE_def)
  moreover have "loads root (4 * Suc n) s s'" using loads_trans [OF l2 s'(2)] by simp
  moreover have "leaf s' root v = leaf s root v" if "\<And>j. j < Suc n \<Longrightarrow> \<not> same_page v (?v (i + j))" for v
    using s'(3) [of v] that [of 0] that [of "Suc _"] vm(2) [of v] q(4) by simp
  moreover have "page_is s' root (?v (i + j)) flags (\<lambda>_. 0)" if "j < Suc n" for j
  proof (cases j)
    case 0
    have "leaf s' root (?v i) = leaf s2 root (?v i)" by (rule s'(3), rule sep) simp_all
    with page_is_keep [OF s'(2) p2] 0 show ?thesis by simp
  next
    case (Suc k)
    with s'(4) [of k] that show ?thesis by simp
  qed
  ultimately show ?case by blast
qed


section \<open>Allocating a region\<close>

text \<open>The memory after the new region's struct \<open>b\<close> has been filled in and linked behind \<open>rg\<close>.\<close>

definition link_new :: "u64 \<Rightarrow> u64 \<Rightarrow> u64 \<Rightarrow> u64 \<Rightarrow> pmm \<Rightarrow> pmm" where
  "link_new b rg sz flags s =
     (let t1 = write64 (b + 8) sz s;
          t2 = write64 (b + 16) flags t1;
          t3 = write64 b (region_start t2 rg + region_size t2 rg) t2;
          t4 = write64 (b + 24) (region_next t3 rg) t3;
          t5 = write64 (b + 32) rg t4
      in write64 (rg + 24) b t5)"

lemma link_region:
  fixes sz flags :: u64
  assumes d: "region b 4096 \<inter> region rg 4096 = {}" and nx: "region_next s rg = NULL"
  defines "t6 \<equiv> link_new b rg sz flags s"
  shows "region_start t6 b = region_start s rg + region_size s rg" "region_size t6 b = sz" "region_flags t6 b = flags"
    "region_next t6 b = NULL" "region_prev t6 b = rg" "region_next t6 rg = b"
    "region_start t6 rg = region_start s rg" "region_size t6 rg = region_size s rg"
    "t6 = s\<lparr>mem := mem t6\<rparr>" "\<And>x. x \<notin> region b 4096 \<union> region (rg + 24) 8 \<Longrightarrow> mem t6 x = mem s x"
proof -
  have d': "region rg 4096 \<inter> region b 4096 = {}" using d by blast
  note defs = t6_def link_new_def Let_def write64_def vma_fields
  note fs = field_other field_other [where x = 0, simplified] field_other [where y = 0, simplified] field_apart [OF d] field_apart [OF d, where x = 0, simplified] field_apart [OF d, where y = 0, simplified]
    field_apart [OF d, where x = 0 and y = 0, simplified] field_apart [OF d'] field_apart [OF d', where y = 0, simplified]
  show "region_start t6 b = region_start s rg + region_size s rg" "region_size t6 b = sz" "region_flags t6 b = flags"
    "region_next t6 b = NULL" "region_prev t6 b = rg" "region_next t6 rg = b"
    "region_start t6 rg = region_start s rg" "region_size t6 rg = region_size s rg"
    using nx by (simp_all add: defs fs)
  show "t6 = s\<lparr>mem := mem t6\<rparr>" by (simp add: defs)
  have out: "store64 m (b + y) v x = m x" if "x \<notin> region b 4096" "unat y \<le> 4088" for m y v x
    using that field_region [OF that(2)] by (intro store64_outside) blast
  note out = out out [where y = 0, simplified]
  show "mem t6 x = mem s x" if "x \<notin> region b 4096 \<union> region (rg + 24) 8" for x
    using that by (simp add: defs store64_outside out)
qed

lemma vma_alloc_append:
  fixes s :: pmm and sz flags :: u64
  assumes ok: "vma_ok s root ctx rs" and free: "4 * unat sz + 1 \<le> length (stack_list s)"
    and bound: "unat (region_start s (last rs) + region_size s (last rs)) + 4096 * unat sz \<le> 2 ^ 47"
  defines "a \<equiv> region_start s (last rs) + region_size s (last rs)"
  obtains new s' where "vma_alloc s ctx sz flags = Some (a, s')" "vma_ok s' root ctx (rs @ [new])"
    "region_start s' new = a" "region_size s' new = sz" "region_flags s' new = flags"
    "\<And>j. j < unat sz \<Longrightarrow> page_is s' root (a + of_nat (4096 * j)) flags (\<lambda>_. 0)"
    "\<And>v. (\<And>j. j < unat sz \<Longrightarrow> \<not> same_page v (a + of_nat (4096 * j))) \<Longrightarrow> leaf s' root v = leaf s root v"
    "same_setup s s'" "length (stack_list s) \<le> length (stack_list s') + (4 * unat sz + 1)"
proof -
  let ?rg = "last rs"
  have o: "vm_inv s root" "\<And>b. b \<in> set (ctx # rs) \<Longrightarrow> kblock s root b" "apart (ctx # rs)" "HIGHER_HALF s root \<noteq> NULL"
    "ctx_pagemap s ctx = HIGHER_HALF s root" "ctx_root s ctx = hd rs" "linked s rs" "packed s rs"
    using ok by (auto simp: vma_ok_def)
  have ne: "rs \<noteq> []" using o(7) by auto
  then have rg: "?rg \<in> set rs" "hd rs \<in> set rs" by simp_all
  have nz: "NULL \<notin> set (ctx # rs)" using o(2) by (auto simp: kblock_def)
  have gap: "find_gap s (ctx_root s ctx) = Some ?rg" unfolding o(6) by (rule find_gap_packed) (use o(7,8) nz in auto)
  have "stack_list s \<noteq> []" using free by (auto simp del: length_stack_list)
  from request_private [OF o(1) this] obtain q s1 where q: "pmm_request_page s = (q, s1)" "frame_ok s q" "loads root 1 s s1"
    "\<And>w. leaf s1 root w = leaf s root w" "page_frame s q \<subseteq> owned s root" "page_frame s q \<inter> owned s1 root = {}"
    "\<And>x. x \<in> page_frame s q \<Longrightarrow> mem s1 x = 0" "Suc (length (stack_list s1)) = length (stack_list s)"
    by metis
  have su: "same_setup s s1" "vm_inv s1 root" using q(3) by (simp_all add: loads_def)
  note hh = same_setup_simps [OF su(1)]
  define new where "new = HIGHER_HALF s q"
  have pf: "page_frame s q = region new 4096" by (simp add: new_def page_frame_def)
  have n: "kblock s1 root new" using q(2,6) hh(2) by (auto simp: kblock_def new_def frame_ok_def page_frame_def)
  have away: "region b 4096 \<inter> region new 4096 = {}" if "b \<in> set (ctx # rs)" for b
    using o(2) [OF that] q(5) pf by (auto simp: kblock_def)
  have k1: "kblock s1 root b" if "b \<in> set (ctx # rs)" for b using kblock_loads(1) [OF q(3) o(2) [OF that]] .
  note f1 = kblock_fields [OF q(3) o(2)]
  have dn: "region new 4096 \<inter> region ?rg 4096 = {}" "region_next s1 ?rg = NULL"
    using away [of ?rg] rg f1(4) [of ?rg] linked_last [OF o(7)] by auto
  define t where "t = link_new new ?rg sz flags s1"
  note lk = link_region [OF dn, where sz = sz and flags = flags, folded t_def]
  have out: "mem t x = mem s1 x" if "x \<notin> (\<Union>b \<in> {new, ?rg}. region b 4096)" for x
    using lk(10) that field_region [of 24 ?rg] by auto
  have "\<forall>b \<in> {new, ?rg}. kblock s1 root b" "\<forall>x. x \<notin> (\<Union>b \<in> {new, ?rg}. region b 4096) \<longrightarrow> mem t x = mem s1 x"
    using n k1 rg out by auto
  note kw = kblock_write [OF su(2) this, folded lk(9)]
  have ft: "region_start t b = region_start s b \<and> region_size t b = region_size s b \<and> ctx_pagemap t b = ctx_pagemap s b \<and>
    ctx_root t b = ctx_root s b \<and> region_next t b = region_next s b" if b: "b \<in> set (ctx # butlast rs)" for b
  proof -
    have bs: "b \<in> set (ctx # rs)" using b by (auto dest: in_set_butlastD)
    have "region b 4096 \<inter> region ?rg 4096 = {}"
      using b o(3) ne apart_snoc [of "ctx # butlast rs" ?rg] by auto
    then have "mem t x = mem s1 x" if "x \<in> region b 4096" for x
      using that away [OF bs] by (intro out) auto
    from field_keep [OF this, of b] f1 [OF bs] show ?thesis by simp
  qed
  have tb: "\<exists>s'. back_region (unat sz) ctx new (of_nat 0) t = (True, s') \<and> loads root (4 * unat sz) t s' \<and>
    (\<forall>v. (\<forall>j < unat sz. \<not> same_page v (a + of_nat (4096 * (0 + j)))) \<longrightarrow> leaf s' root v = leaf t root v) \<and>
    (\<forall>j < unat sz. page_is s' root (a + of_nat (4096 * (0 + j))) flags (\<lambda>_. 0))"
  proof (rule back_region_ok)
    show "vm_inv t root" "kblock t root ctx" "kblock t root new" using kw(1,6) n k1 [of ctx] by simp_all
    show "4 * unat sz \<le> length (stack_list t)" using kw(2) free q(8) by (simp del: length_stack_list)
    show "ctx_pagemap t ctx = HIGHER_HALF t root"
      using ft [of ctx] o(5) hh(4) same_setup_simps(4) [OF kw(3)] by simp
    show "region_start t new = a" "region_flags t new = flags" using lk(1,3) f1(1,2) [of ?rg] rg by (simp_all add: a_def)
    show "unat a + 4096 * (0 + unat sz) \<le> 2 ^ 47" using bound by (simp add: a_def)
  qed
  then obtain s' where s': "back_region (unat sz) ctx new 0 t = (True, s')" "loads root (4 * unat sz) t s'"
    "\<And>v. (\<And>j. j < unat sz \<Longrightarrow> \<not> same_page v (a + of_nat (4096 * j))) \<Longrightarrow> leaf s' root v = leaf t root v"
    "\<And>j. j < unat sz \<Longrightarrow> page_is s' root (a + of_nat (4096 * j)) flags (\<lambda>_. 0)"
    by auto
  have kt: "kblock t root b" if "b \<in> set (ctx # rs @ [new])" for b using that kw(6) n k1 by auto
  note f2 = kblock_fields [OF s'(2) kt]
  have "clear new 40 s1 = s1" by (rule clear_zero) (use q(7) pf in auto)
  moreover have "HIGHER_HALF s1 q = new" "new \<noteq> NULL" using hh(4) n by (auto simp: new_def kblock_def)
  moreover have "ctx \<noteq> NULL" "hd rs \<noteq> NULL" "?rg \<noteq> NULL" using nz rg by auto
  moreover have "region_start s' new = a" using f2(1) [of new] lk(1) f1(1,2) [of ?rg] rg by (simp add: a_def)
  ultimately have "vma_alloc s ctx sz flags = Some (a, s')"
    using o(4,5,6) gap q(1) s'(1) by (simp add: vma_alloc_def Let_def t_def link_new_def)
  moreover have "vma_ok s' root ctx (rs @ [new])"
    unfolding vma_ok_def
  proof (intro conjI)
    show "vm_inv s' root" using s'(2) by (simp add: loads_def)
    show "\<forall>b \<in> set (ctx # rs @ [new]). kblock s' root b" using kblock_loads(1) [OF s'(2) kt] by blast
    show "apart (ctx # rs @ [new])" using o(3) away apart_snoc [of "ctx # rs" new] by auto
    have hs: "HIGHER_HALF s' = HIGHER_HALF s"
      using hh(4) same_setup_simps(4) [OF kw(3)] same_setup_simps(4) [of t s'] s'(2) by (simp add: loads_def)
    show "HIGHER_HALF s' root \<noteq> NULL" "ctx_pagemap s' ctx = HIGHER_HALF s' root" "ctx_root s' ctx = hd (rs @ [new])"
      using o(4-6) hs f2(6,7) [of ctx] ft [of ctx] ne by simp_all
    show "linked s' (rs @ [new])"
      by (rule linked_snoc [OF o(7)]) (use f2(4) ft lk(4,6) rg in_set_butlastD [of _ rs] in auto)
    have "region_start s' b = region_start s b \<and> region_size s' b = region_size s b" if "b \<in> set rs" for b
    proof (cases "b = ?rg")
      case True
      then show ?thesis using f2(1,2) [of b] that lk(7,8) f1(1,2) [of ?rg] rg by simp
    next
      case False
      then have "b \<in> set (butlast rs)" using that append_butlast_last_id [OF ne] by (metis in_set_conv_decomp rotate1.simps(2) set_ConsD set_rotate1)
      then show ?thesis using f2(1,2) [of b] ft [of b] that by simp
    qed
    with packed_cong [OF _ o(8)] show "packed s' (rs @ [new])"
      using ne rg \<open>region_start s' new = a\<close> by (intro packed_snoc) (auto simp: a_def)
  qed
  moreover have "same_setup s s'"
    using su(1) kw(3) s'(2) same_setup_trans unfolding loads_def by blast
  moreover have "length (stack_list s) \<le> length (stack_list s') + (4 * unat sz + 1)"
  proof -
    obtain ps where "length ps \<le> 4 * unat sz" "stack_list t = stack_list s' @ ps" using s'(2) by (auto simp: loads_def)
    then show ?thesis using kw(2) q(8) by (simp del: length_stack_list)
  qed
  moreover have "leaf s' root v = leaf s root v" if "\<And>j. j < unat sz \<Longrightarrow> \<not> same_page v (a + of_nat (4096 * j))" for v
    using s'(3) [OF that] kw(5) q(4) by simp
  ultimately show ?thesis
    using that [of s' new] s'(4) f2(1-3) [of new] lk(1-3) f1(1,2) [of ?rg] rg by (simp add: a_def)
qed


section \<open>Creating a context\<close>

text \<open>A page asked for, as a block of the kernel.\<close>

lemma request_kblock:
  assumes inv: "vm_inv s root" and free: "stack_list s \<noteq> []"
  obtains q s1 where "pmm_request_page s = (q, s1)" "loads root 1 s s1" "\<And>w. leaf s1 root w = leaf s root w"
    "HIGHER_HALF s1 q \<noteq> NULL" "kblock s1 root (HIGHER_HALF s1 q)" "\<And>x. x \<in> region (HIGHER_HALF s1 q) 4096 \<Longrightarrow> mem s1 x = 0"
    "\<And>b. kblock s root b \<Longrightarrow> region b 4096 \<inter> region (HIGHER_HALF s1 q) 4096 = {}"
    "Suc (length (stack_list s1)) = length (stack_list s)"
proof -
  from request_private [OF assms] obtain q s1 where q: "pmm_request_page s = (q, s1)" "frame_ok s q" "loads root 1 s s1"
    "\<And>w. leaf s1 root w = leaf s root w" "page_frame s q \<subseteq> owned s root" "page_frame s q \<inter> owned s1 root = {}"
    "\<And>x. x \<in> page_frame s q \<Longrightarrow> mem s1 x = 0" "Suc (length (stack_list s1)) = length (stack_list s)"
    by metis
  have su: "same_setup s s1" using q(3) by (simp add: loads_def)
  note hh = same_setup_simps [OF su]
  have pf: "page_frame s q = region (HIGHER_HALF s1 q) 4096" by (simp add: page_frame_def hh(4))
  have k: "kblock s1 root (HIGHER_HALF s1 q)" using q(2,6) hh(2,4) by (auto simp: kblock_def frame_ok_def page_frame_def)
  have "region b 4096 \<inter> region (HIGHER_HALF s1 q) 4096 = {}" if "kblock s root b" for b
    using that q(5) pf by (auto simp: kblock_def)
  with that [OF q(1,3,4) _ k _ _ q(8)] k q(7) pf show ?thesis by (auto simp: kblock_def)
qed

lemma vma_create_ok:
  assumes inv: "vm_inv s root" and free: "2 \<le> length (stack_list s)" and h: "HIGHER_HALF s root \<noteq> NULL"
  obtains ctx r s' where "vma_create_context s (HIGHER_HALF s root) = (ctx, s')" "vma_ok s' root ctx [r]"
    "region_start s' r = VMA_START" "region_size s' r = 0" "\<And>w. leaf s' root w = leaf s root w" "same_setup s s'"
    "length (stack_list s) = length (stack_list s') + 2"
proof -
  have "stack_list s \<noteq> []" using free by (auto simp del: length_stack_list)
  from request_kblock [OF inv this] obtain p s1 where p: "pmm_request_page s = (p, s1)" "loads root 1 s s1"
    "\<And>w. leaf s1 root w = leaf s root w" "HIGHER_HALF s1 p \<noteq> NULL" "kblock s1 root (HIGHER_HALF s1 p)"
    "\<And>x. x \<in> region (HIGHER_HALF s1 p) 4096 \<Longrightarrow> mem s1 x = 0" "Suc (length (stack_list s1)) = length (stack_list s)"
    by metis
  define ctx where "ctx = HIGHER_HALF s1 p"
  have "vm_inv s1 root" "stack_list s1 \<noteq> []" using p(2,7) free by (auto simp: loads_def simp del: length_stack_list)
  from request_kblock [OF this] obtain q s3 where q: "pmm_request_page s1 = (q, s3)" "loads root 1 s1 s3"
    "\<And>w. leaf s3 root w = leaf s1 root w" "HIGHER_HALF s3 q \<noteq> NULL" "kblock s3 root (HIGHER_HALF s3 q)"
    "\<And>x. x \<in> region (HIGHER_HALF s3 q) 4096 \<Longrightarrow> mem s3 x = 0"
    "region ctx 4096 \<inter> region (HIGHER_HALF s3 q) 4096 = {}" "Suc (length (stack_list s3)) = length (stack_list s1)"
    using p(5) unfolding ctx_def by metis
  define r where "r = HIGHER_HALF s3 q"
  define pm where "pm = HIGHER_HALF s root"
  define s' where "s' = write64 (r + 8) 0 (write64 r VMA_START (write64 ctx pm (write64 (ctx + 8) r s3)))"
  have d: "region ctx 4096 \<inter> region r 4096 = {}" "region r 4096 \<inter> region ctx 4096 = {}" using q(7) by (auto simp: r_def)
  have kc: "kblock s3 root ctx" using kblock_loads(1) [OF q(2) p(5)] by (simp add: ctx_def)
  note fs = field_other field_other [where x = 0, simplified] field_other [where y = 0, simplified] field_apart [OF d(1)]
    field_apart [OF d(2)] field_apart [OF d(2), where x = 0, simplified] field_apart [OF d(2), where y = 0, simplified]
    field_apart [OF d(2), where x = 0 and y = 0, simplified] field_apart [OF d(1), where x = 0, simplified]
  note defs = s'_def write64_def vma_fields
  have z: "load64 (mem s3) (r + 24) = 0"
  proof -
    have "load64 (mem s3) (r + 24) = load64 (\<lambda>_. 0) (r + 24)"
      by (rule load64_region) (use q(6) field_region [of 24 r] in \<open>auto simp: r_def\<close>)
    then show ?thesis by (simp add: load64_def Let_def)
  qed
  have f: "ctx_root s' ctx = r" "ctx_pagemap s' ctx = pm" "region_start s' r = VMA_START" "region_size s' r = 0" "region_next s' r = NULL"
    using z by (simp_all add: defs fs)
  have sm: "s3\<lparr>mem := mem s'\<rparr> = s'" by (simp add: defs)
  have "\<forall>b \<in> {ctx, r}. kblock s3 root b" using kc q(5) by (simp add: r_def)
  moreover have "\<forall>x. x \<notin> (\<Union>b \<in> {ctx, r}. region b 4096) \<longrightarrow> mem s' x = mem s3 x"
  proof (intro allI impI)
    fix x assume x: "x \<notin> (\<Union>b \<in> {ctx, r}. region b 4096)"
    have "store64 m (b + y) v x = m x" if "b \<in> {ctx, r}" "unat y \<le> 4088" for m b y v
      using that x field_region [OF that(2), of b] by (intro store64_outside) auto
    note out = this this [where y = 0, simplified]
    show "mem s' x = mem s3 x" by (simp add: defs out)
  qed
  moreover have v3: "vm_inv s3 root" using q(2) by (simp add: loads_def)
  ultimately have kw: "vm_inv s' root" "stack_list s' = stack_list s3" "same_setup s3 s'" "\<And>v. leaf s' root v = leaf s3 root v"
      "\<And>c. kblock s' root c = kblock s3 root c"
    using kblock_write [of s3 root "{ctx, r}" "mem s'"] unfolding sm by blast+
  have su: "same_setup s s'" using p(2) q(2) kw(3) same_setup_trans unfolding loads_def by blast
  have "ctx_root (write64 ctx pm (write64 (ctx + 8) r s3)) ctx = r"
    "ctx_root (write64 r VMA_START (write64 ctx pm (write64 (ctx + 8) r s3))) ctx = r"
    by (simp_all add: write64_def ctx_root_def fs)
  moreover have "clear ctx 16 s1 = s1" by (rule clear_zero) (use p(6) in \<open>auto simp: ctx_def\<close>)
  ultimately have "vma_create_context s pm = (ctx, s')"
    using p(1,4) q(1,4) by (simp add: vma_create_context_def Let_def s'_def ctx_def [symmetric] r_def [symmetric])
  moreover have "vma_ok s' root ctx [r]"
    using kw(1,5) kc q(5) d f h same_setup_simps(4) [OF su] by (simp add: vma_ok_def pm_def r_def [symmetric])
  moreover have "length (stack_list s) = length (stack_list s') + 2"
    using p(7) q(8) kw(2) by (simp del: length_stack_list)
  ultimately show ?thesis
    using that f(3,4) su kw(4) q(3) p(3) unfolding pm_def by metis
qed


section \<open>Properties\<close>



text \<open>
  C40: The second allocation in a context overlaps the first. A region's size counts pages, but the
  start of the next one is computed as if it counted bytes, so a second block starts \<open>sz\<close> bytes after
  the first one, inside it.
\<close>

theorem vma_second_alloc_overlaps:
  assumes "vm_inv s root" and "pagemap = HIGHER_HALF s root" "pagemap \<noteq> NULL"
    and "4 * unat sz + 4 * unat sz' + 4 \<le> length (stack_list s)" and "unat sz < 2 ^ 34" "unat sz' < 2 ^ 34" and "0 < sz"
  shows "\<exists>ctx s1 s2 s3. vma_create_context s pagemap = (ctx, s1) \<and> vma_alloc s1 ctx sz flags = Some (VMA_START, s2) \<and>
    vma_alloc s2 ctx sz' flags' = Some (VMA_START + sz, s3) \<and>
    VMA_START + sz \<in> region VMA_START (4096 * unat sz)"
proof -
  have "2 \<le> length (stack_list s)" using assms(4) by linarith
  from vma_create_ok [OF assms(1) this] assms(2,3) obtain ctx r s1 where c: "vma_create_context s pagemap = (ctx, s1)"
    "vma_ok s1 root ctx [r]" "region_start s1 r = VMA_START" "region_size s1 r = 0"
    "length (stack_list s) = length (stack_list s1) + 2"
    by metis
  have a: "region_start s1 (last [r]) + region_size s1 (last [r]) = VMA_START" using c(3,4) by simp
  have "4 * unat sz + 1 \<le> length (stack_list s1)" using assms(4) c(5) by linarith
  moreover have "unat (VMA_START) + 4096 * unat sz \<le> 2 ^ 47" using assms(5) by (simp add: VMA_START_def PAGE_SIZE_def)
  ultimately obtain new s2 where
    n: "vma_alloc s1 ctx sz flags = Some (VMA_START, s2)" "vma_ok s2 root ctx ([r] @ [new])"
    "region_start s2 new = VMA_START" "region_size s2 new = sz" "length (stack_list s1) \<le> length (stack_list s2) + (4 * unat sz + 1)"
    using vma_alloc_append [OF c(2), unfolded a, of sz flags] by metis
  have b: "region_start s2 (last ([r] @ [new])) + region_size s2 (last ([r] @ [new])) = VMA_START + sz" using n(3,4) by simp
  have u: "unat (VMA_START + sz) = 4096 + unat sz"
    using assms(5) by (subst unat_plus_no_wrap) (simp_all add: VMA_START_def PAGE_SIZE_def)
  have "4 * unat sz' + 1 \<le> length (stack_list s2)" using assms(4) c(5) n(5) by linarith
  moreover have "unat (VMA_START + sz) + 4096 * unat sz' \<le> 2 ^ 47" using u assms(5,6) by simp
  ultimately obtain s3 where "vma_alloc s2 ctx sz' flags' = Some (VMA_START + sz, s3)"
    using vma_alloc_append [OF n(2), unfolded b, of sz' flags'] by metis
  moreover have "VMA_START + sz \<in> region VMA_START (4096 * unat sz)"
    using assms(7) by (simp add: region_def word_less_nat_alt)
  ultimately show ?thesis using c(1) n(1) by blast
qed

theorem vma_second_alloc_overlaps_witness:
  "\<exists>ctx s1 s2 s3. vma_create_context paging_pmm 0xffff800000001000 = (ctx, s1) \<and> vma_alloc s1 ctx 1 3 = Some (VMA_START, s2) \<and>
     vma_alloc s2 ctx 1 3 = Some (0x1001, s3)"
proof -
  have h: "0xffff800000001000 = HIGHER_HALF paging_pmm 0x1000"
    using same_setup_simps(4) [OF paging_fields(2)] by (simp add: HIGHER_HALF_def paging_base_def one_page_pmm_def)
  have "length (stack_list paging_pmm) = 12" unfolding paging_fields(1) by simp
  then show ?thesis
    using vma_second_alloc_overlaps [OF paging_inv(1) h, of 1 1 3 3] by (auto simp: VMA_START_def PAGE_SIZE_def)
qed

end
