(* ===== verification/Kernel_Space.thy ===== *)
theory Kernel_Space
  imports Vma_Props
begin

text \<open>
  The kernel's own address space: what \<open>vmm_init\<close> of \<open>kernel/src/mm/vmm.c\<close> maps, and the set-up
  of the memory in \<open>kmain\<close> (\<open>kernel/src/main.c\<close>) as the composition of the page allocator, the page
  tables and the first virtual memory context.

  The loops of \<open>vmm_init\<close> map over a million pages. A page table covers 512 of them, so a run of pages
  takes new tables only where it enters the range of another one.
\<close>

section \<open>Setting up the memory\<close>

text \<open>
  The answers of the boot loader are options, \<open>None\<close> for a response that is \<open>NULL\<close>. The kernel stops
  when one of them is missing.
\<close>

definition boot_memory :: "u64 option \<Rightarrow> memmap_entry list option \<Rightarrow> (u64 \<times> u64) option \<Rightarrow> kernel_image \<Rightarrow> vmm \<Rightarrow>
    (u64 \<times> vmm) option" where
  "boot_memory hhdm_response memmap_response kernel_address_response k v = do {
     offset \<leftarrow> hhdm_response;
     s \<leftarrow> pmm_init ((frames v)\<lparr>hhdm_offset := offset\<rparr>) memmap_response;
     (physical_base, virtual_base) \<leftarrow> kernel_address_response;
     v1 \<leftarrow> vmm_init (k\<lparr>kernel_phys_base := physical_base, kernel_virt_base := virtual_base\<rparr>) (v\<lparr>frames := s\<rparr>);
     let (ctx, s2) = vma_create_context (frames v1) (kernel_pagemap v1);
     if ctx = NULL \<or> ctx_root s2 ctx = NULL then None
     else Some (ctx, v1\<lparr>frames := s2\<rparr>) }"


section \<open>Canonical addresses\<close>

definition canonical :: "u64 \<Rightarrow> bool" where
  "canonical v \<longleftrightarrow> unat v < 2 ^ 47 \<or> 2 ^ 64 - 2 ^ 47 \<le> unat v"

lemma small_bit: "unat (x :: u64) < 2 ^ k \<Longrightarrow> k \<le> n \<Longrightarrow> \<not> bit x n"
proof
  assume a: "unat x < 2 ^ k" "k \<le> n" "bit x n"
  have "n < 64" using a(3) bit_imp_le_length [of x n] by simp
  have "bit (unat x) n" using a(3) by (simp add: bit_unsigned_iff)
  then have "2 ^ n \<le> unat x"
    by (metis bit_nat_def div_less even_zero linorder_not_le)
  moreover have "(2 :: nat) ^ k \<le> 2 ^ n" using a(2) by simp
  ultimately show False using a(1) by linarith
qed

lemma canonical_bit:
  assumes "canonical v" and "47 \<le> n" "n < 64"
  shows "bit v n = bit v 47"
proof (cases "unat v < 2 ^ 47")
  case True
  then show ?thesis using small_bit [of v 47] assms(2) by simp
next
  case False
  then have "2 ^ 64 - 2 ^ 47 \<le> unat v" using assms(1) by (simp add: canonical_def)
  moreover have "unat (NOT v) = 2 ^ 64 - 1 - unat v"
  proof -
    have "NOT v = - 1 - v" by (simp add: not_eq_complement)
    then have "unat (NOT v) = unat (- 1 :: u64) - unat v" by (simp add: unat_sub)
    then show ?thesis by (simp add: unsigned_minus_1_eq_mask mask_eq_exp_minus_1)
  qed
  ultimately have "unat (NOT v) < 2 ^ 47" by simp
  then have "\<not> bit (NOT v) n" "\<not> bit (NOT v) 47" using small_bit [of "NOT v" 47] assms(2) by simp_all
  then show ?thesis using assms(3) by (simp add: bit_not_iff)
qed

lemma same_page_canonical:
  assumes "canonical v" and "canonical w"
  shows "same_page v w \<longleftrightarrow> unat v div 4096 = unat w div 4096"
proof -
  have "same_page v w \<longleftrightarrow> drop_bit 12 v = drop_bit 12 w"
  proof
    assume s: "same_page v w"
    then have b: "bit v n = bit w n" if "12 \<le> n" "n < 48" for n
      using that by (simp add: same_page_iff)
    have "bit v n = bit w n" if "12 \<le> n" for n
    proof (cases "n < 48")
      case True
      with b that show ?thesis by blast
    next
      case False
      then have "n < 64 \<Longrightarrow> bit v n = bit w n"
        using canonical_bit [OF assms(1), of n] canonical_bit [OF assms(2), of n] b [of 47] by simp
      then show ?thesis using bit_imp_le_length [of v n] bit_imp_le_length [of w n] by auto
    qed
    then show "drop_bit 12 v = drop_bit 12 w"
      by (intro bit_word_eqI) (simp add: bit_drop_bit_eq)
  next
    assume e: "drop_bit 12 v = drop_bit 12 w"
    have "bit v n = bit w n" if "12 \<le> n" for n
      using arg_cong [OF e, of "\<lambda>x. bit x (n - 12)"] that by (simp add: bit_drop_bit_eq)
    then show "same_page v w" by (simp add: same_page_iff)
  qed
  also have "\<dots> \<longleftrightarrow> unat v div 4096 = unat w div 4096"
    by (simp add: word_unat_eq_iff drop_bit_eq_div unat_div)
  finally show ?thesis .
qed


section \<open>Mapping into an existing table\<close>

definition has_table :: "pmm \<Rightarrow> u64 \<Rightarrow> u64 \<Rightarrow> bool" where
  "has_table s root v \<longleftrightarrow> table_at s root [pml4_idx v, pml3_idx v, pml2_idx v] \<noteq> None"

lemma has_table_block:
  assumes "unat v div 2097152 = unat w div 2097152"
  shows "has_table s root v = has_table s root w"
proof -
  have e: "drop_bit 21 v = drop_bit 21 w"
    using assms by (simp add: word_unat_eq_iff drop_bit_eq_div unat_div)
  have b: "bit v n = bit w n" if "21 \<le> n" for n
    using arg_cong [OF e, of "\<lambda>x. bit x (n - 21)"] that by (simp add: bit_drop_bit_eq)
  have "drop_bit k (v AND push_bit k 0x1ff) = drop_bit k (w AND push_bit k 0x1ff)" if "21 \<le> k" for k
    using b that by (intro bit_word_eqI) (auto simp: bit_simps)
  then have "pml4_idx v = pml4_idx w" "pml3_idx v = pml3_idx w" "pml2_idx v = pml2_idx w"
    by (simp_all only: pml4_idx_def pml3_idx_def pml2_idx_def)
  then show ?thesis by (simp add: has_table_def)
qed

lemma leaf_has_table: "leaf s root v \<noteq> 0 \<Longrightarrow> has_table s root v"
  by (auto simp: leaf_def has_table_def split: option.splits)

lemma vmm_map_present:
  fixes phys flags :: u64
  assumes inv: "vm_inv s root" and "has_table s root v"
  defines "s' \<equiv> vmm_map s (HIGHER_HALF s root) v phys flags"
  shows "loads root 0 s s'" "leaf s' root w = (if same_page w v then phys OR flags else leaf s root w)"
proof -
  obtain p1 where p1: "table_at s root [pml4_idx v, pml3_idx v, pml2_idx v] = Some p1"
    using assms(2) by (auto simp: has_table_def)
  then have s': "s' = entry_set s (HIGHER_HALF s p1) (pml1_idx v) (phys OR flags)"
    by (auto simp: s'_def vmm_map_def next_table_def entry_table_def table_at_def table_step_def Let_def
        split: if_splits bind_splits)
  note set = entry_set_leaf [where e = "phys OR flags", OF inv p1 path_3(1) _ idx_less(1) [of v], folded s']
  show "loads root 0 s s'"
    using set(1,2,4) by (simp add: loads_def) (simp add: s')
  show "leaf s' root w = (if same_page w v then phys OR flags else leaf s root w)"
    using set(3) [of "[pml4_idx w, pml3_idx w, pml2_idx w]" "pml1_idx w"] path_3(1) idx_less(1)
    by (simp add: leaf_leaf_entry same_page_def)
qed

lemma map_step:
  fixes phys flags :: u64
  assumes inv: "vm_inv s root" and free: "has_table s root v \<or> 3 \<le> length (stack_list s)" and fl: "bit flags 0"
  defines "s' \<equiv> vmm_map s (HIGHER_HALF s root) v phys flags"
  shows "loads root (if has_table s root v then 0 else 3) s s'"
    "\<And>w. leaf s' root w = (if same_page w v then phys OR flags else leaf s root w)" "has_table s' root v"
proof -
  show "loads root (if has_table s root v then 0 else 3) s s'"
    using vmm_map_present(1) [OF inv] vmm_map_loads(1) [OF inv] free by (auto simp: s'_def)
  show l: "leaf s' root w = (if same_page w v then phys OR flags else leaf s root w)" for w
    using vmm_map_present(2) [OF inv] vmm_map_loads(2) [OF inv] free by (auto simp: s'_def)
  have "bit (phys OR flags) 0" using fl by (simp add: bit_or_iff)
  then have "phys OR flags \<noteq> 0" by (metis bit_0_eq bot_apply bot_bool_def)
  then show "has_table s' root v" using l [of v] by (intro leaf_has_table) (simp add: same_page_def)
qed


section \<open>Mapping a run of pages\<close>

text \<open>The number of pages that \<open>n\<close> pages from place \<open>o\<close> of a table on take for tables; \<open>e\<close> says
  whether the first of the tables exists.\<close>

definition run_cost :: "nat \<Rightarrow> nat \<Rightarrow> bool \<Rightarrow> nat" where
  "run_cost i n e = 3 * ((i + n + 511) div 512 - (if e then 1 else 0))"

lemma run_cost_Suc:
  "(if e then 0 else 3) + run_cost (Suc i) n True \<le> run_cost i (Suc n) e"
  "(if e then 0 else 3) + run_cost 0 n e' \<le> run_cost 511 (Suc n) e"
proof -
  have "1 \<le> (Suc i + n + 511) div 512" by (simp add: div_greater_zero_iff Suc_le_eq)
  then show "(if e then 0 else 3) + run_cost (Suc i) n True \<le> run_cost i (Suc n) e"
    by (cases e) (simp_all add: run_cost_def del: One_nat_def)
  have "511 + Suc n + 511 = (0 + n + 511) + 512" by simp
  then have "(511 + Suc n + 511) div 512 = Suc ((0 + n + 511) div 512)" by simp
  then show "(if e then 0 else 3) + run_cost 0 n e' \<le> run_cost 511 (Suc n) e"
    unfolding run_cost_def by (cases e; cases e') simp_all
qed

lemma run_cost_le:
  assumes "i < 512"
  shows "run_cost i n e \<le> 3 * (n div 512 + 2)"
proof -
  have "(i + n + 511) div 512 \<le> (n + 2 * 512) div 512" using assms by (intro div_le_mono) simp
  also have "\<dots> = n div 512 + 2" by (simp only: div_mult_self2 mult.commute)
  finally show ?thesis by (simp add: run_cost_def)
qed

lemma next_page_no:
  fixes x :: nat
  shows "(x + 4096) div 4096 = Suc (x div 4096)"
    "x div 4096 mod 512 < 511 \<Longrightarrow> (x + 4096) div 2097152 = x div 2097152"
proof -
  show 1: "(x + 4096) div 4096 = Suc (x div 4096)" by simp
  have "y div 2097152 = y div 4096 div 512" for y :: nat by (simp add: div_mult2_eq [symmetric])
  then show "x div 4096 mod 512 < 511 \<Longrightarrow> (x + 4096) div 2097152 = x div 2097152"
    using 1 div_Suc [of "x div 4096" 512] mod_Suc [of "x div 4096" 512] by simp
qed

lemma loads_more: "loads root k s t \<Longrightarrow> k \<le> l \<Longrightarrow> loads root l s t"
  by (auto simp: loads_def intro: order_trans)

abbreviation page_no :: "u64 \<Rightarrow> nat" where
  "page_no v \<equiv> unat v div 4096"

abbreviation (input) high :: "u64 \<Rightarrow> bool" where
  "high v \<equiv> 2 ^ 64 - 2 ^ 47 \<le> unat v"

lemma map_run:
  fixes virt phys :: "u64 \<Rightarrow> u64" and flags :: u64
  assumes "vm_inv s root" and "bit flags 0"
    and "run_cost (page_no (virt j) mod 512) n (has_table s root (virt j)) \<le> length (stack_list s)"
    and "unat limit \<le> unat j + 4096 * n" "n = 0 \<or> unat j + 4096 * (n - 1) < unat limit" "unat limit + 4096 \<le> 2 ^ 64"
    and "\<And>j. virt (j + 4096) = virt j + 4096" and "high (virt j)" "unat (virt j) + 4096 * n < 2 ^ 64"
  shows "\<exists>s'. map_range virt phys (HIGHER_HALF s root) flags j limit s = Some s' \<and>
    loads root (run_cost (page_no (virt j) mod 512) n (has_table s root (virt j))) s s' \<and>
    (\<forall>v. canonical v \<longrightarrow> leaf s' root v =
       (if page_no (virt j) \<le> page_no v \<and> page_no v < page_no (virt j) + n
        then phys (j + of_nat (4096 * (page_no v - page_no (virt j)))) OR flags else leaf s root v))"
  using assms
proof (induction n arbitrary: s j)
  case 0
  then have "\<not> j < limit" by (simp add: word_less_nat_alt)
  then have "map_range virt phys (HIGHER_HALF s root) flags j limit s = Some s"
    by (subst map_range.simps) simp
  with loads_more [OF loads_refl [OF 0(1)]] show ?case by auto
next
  case (Suc n)
  let ?v = "virt j"
  define i where "i = page_no ?v mod 512"
  define e where "e = has_table s root ?v"
  define s1 where "s1 = vmm_map s (HIGHER_HALF s root) ?v (phys j) flags"
  have i: "i < 512" by (simp add: i_def)
  have lt: "j < limit" using Suc.prems(5) by (auto simp: word_less_nat_alt)
  have j1: "unat (j + 4096) = unat j + 4096"
    by (subst unat_plus_no_wrap) (use lt Suc.prems(6) in \<open>simp_all add: word_less_nat_alt\<close>)
  have v1: "virt (j + 4096) = ?v + 4096" "unat (?v + 4096) = unat ?v + 4096"
    using Suc.prems(7,9) by (simp_all add: unat_plus_no_wrap)
  have "3 \<le> run_cost i (Suc n) False" by (simp add: run_cost_def)
  then have "e \<or> 3 \<le> length (stack_list s)"
    using Suc.prems(3) unfolding i_def e_def by (cases "has_table s root ?v") simp_all
  note st = map_step [OF Suc.prems(1) this [unfolded e_def] Suc.prems(2), of "phys j", folded s1_def e_def]
  have vm: "vm_inv s1 root" "HIGHER_HALF s1 = HIGHER_HALF s" using st(1) same_setup_simps(4) by (auto simp: loads_def)
  define c where "c = run_cost (page_no (virt (j + 4096)) mod 512) n (has_table s1 root (virt (j + 4096)))"
  have c: "(if e then 0 else 3) + c \<le> run_cost i (Suc n) e"
  proof (cases "i < 511")
    case True
    have "unat (?v + 4096) div 2097152 = unat ?v div 2097152"
      unfolding v1(2) using True by (intro next_page_no(2)) (simp add: i_def)
    then have "has_table s1 root (?v + 4096)" using st(3) has_table_block by blast
    moreover have "page_no (?v + 4096) mod 512 = Suc i"
      using True by (simp add: v1(2) next_page_no(1) i_def mod_Suc)
    ultimately show ?thesis using run_cost_Suc(1) by (simp add: c_def v1(1))
  next
    case False
    then have "i = 511" using i by simp
    moreover have "page_no (?v + 4096) mod 512 = 0"
      using \<open>i = 511\<close> by (simp add: v1(2) next_page_no(1) i_def mod_Suc)
    ultimately show ?thesis using run_cost_Suc(2) \<open>i = 511\<close> by (simp add: c_def v1(1))
  qed
  have "c \<le> length (stack_list s1)"
    by (rule loads_free [OF st(1)]) (use c Suc.prems(3) in \<open>simp add: i_def e_def\<close>)
  moreover have "unat limit \<le> unat (j + 4096) + 4096 * n" "n = 0 \<or> unat (j + 4096) + 4096 * (n - 1) < unat limit"
    using Suc.prems(4,5) j1 by (auto simp: algebra_simps nat_diff_split)
  moreover have "high (virt (j + 4096))" "unat (virt (j + 4096)) + 4096 * n < 2 ^ 64"
    using Suc.prems(8,9) v1 by simp_all
  ultimately obtain s' where s': "map_range virt phys (HIGHER_HALF s1 root) flags (j + 4096) limit s1 = Some s'"
    "loads root c s1 s'"
    "\<And>v. canonical v \<Longrightarrow> leaf s' root v = (if page_no (virt (j + 4096)) \<le> page_no v \<and> page_no v < page_no (virt (j + 4096)) + n
       then phys (j + 4096 + of_nat (4096 * (page_no v - page_no (virt (j + 4096))))) OR flags else leaf s1 root v)"
    using Suc.IH [OF vm(1) Suc.prems(2) _ _ _ Suc.prems(6,7), of "j + 4096", folded c_def] by blast
  have "map_range virt phys (HIGHER_HALF s root) flags j limit s = Some s'"
    using s'(1) lt vm(2) by (subst map_range.simps) (simp add: s1_def PAGE_SIZE_def)
  moreover have "loads root (run_cost i (Suc n) e) s s'"
    by (rule loads_more [OF loads_trans [OF st(1) s'(2)] c])
  moreover have "leaf s' root v = (if page_no ?v \<le> page_no v \<and> page_no v < page_no ?v + Suc n
      then phys (j + of_nat (4096 * (page_no v - page_no ?v))) OR flags else leaf s root v)" if "canonical v" for v
  proof -
    have p1: "page_no (virt (j + 4096)) = Suc (page_no ?v)" by (simp add: v1)
    have "canonical ?v" using Suc.prems(8) by (simp add: canonical_def)
    then have sp: "same_page v ?v \<longleftrightarrow> page_no v = page_no ?v" using same_page_canonical that by blast
    have "j + 4096 + of_nat (4096 * (page_no v - Suc (page_no ?v))) = j + of_nat (4096 * (page_no v - page_no ?v))"
      if "page_no ?v < page_no v"
    proof -
      have "4096 * (page_no v - page_no ?v) = 4096 + 4096 * (page_no v - Suc (page_no ?v))" using that by simp
      then show ?thesis by (simp only: of_nat_add) simp
    qed
    then show ?thesis
      unfolding s'(3) [OF that] p1 st(2) sp by (auto simp: add.assoc simp del: of_nat_mult)
  qed
  ultimately show ?case unfolding i_def e_def by blast
qed


text \<open>The loop over the pages from \<open>start\<close> up to \<open>stop\<close>, both a multiple of the page size from \<open>j\<close>.\<close>

definition run_pages :: "u64 \<Rightarrow> u64 \<Rightarrow> nat" where
  "run_pages start stop = (unat stop + 4095 - unat start) div 4096"

lemma map_run_pages:
  fixes virt phys :: "u64 \<Rightarrow> u64" and flags :: u64
  assumes "vm_inv s root" and "bit flags 0" and "3 * (run_pages j limit div 512 + 2) \<le> length (stack_list s)"
    and "unat limit + 4096 \<le> 2 ^ 64" and "\<And>j. virt (j + 4096) = virt j + 4096"
    and "high (virt j)" "unat (virt j) + 4096 * run_pages j limit < 2 ^ 64"
  obtains s' where "map_range virt phys (HIGHER_HALF s root) flags j limit s = Some s'"
    "loads root (3 * (run_pages j limit div 512 + 2)) s s'"
    "\<And>v. canonical v \<Longrightarrow> leaf s' root v =
       (if page_no (virt j) \<le> page_no v \<and> page_no v < page_no (virt j) + run_pages j limit
        then phys (j + of_nat (4096 * (page_no v - page_no (virt j)))) OR flags else leaf s root v)"
proof -
  let ?n = "run_pages j limit" and ?c = "run_cost (page_no (virt j) mod 512) (run_pages j limit) (has_table s root (virt j))"
  have c: "?c \<le> 3 * (?n div 512 + 2)" by (rule run_cost_le) simp
  have "unat limit \<le> unat j + 4096 * ?n" "?n = 0 \<or> unat j + 4096 * (?n - 1) < unat limit"
    unfolding run_pages_def by linarith+
  moreover have "?c \<le> length (stack_list s)" using c assms(3) by linarith
  ultimately show ?thesis
    using map_run [OF assms(1,2) _ _ _ assms(4-7)] that loads_more [OF _ c] by blast
qed


section \<open>What the kernel's address space maps\<close>

definition in_pages :: "u64 \<Rightarrow> u64 \<Rightarrow> u64 \<Rightarrow> bool" where
  "in_pages start stop a \<longleftrightarrow> ALIGN_DOWN start PAGE_SIZE \<le> a \<and> a < ALIGN_UP stop PAGE_SIZE"

definition section_tables :: "u64 \<Rightarrow> u64 \<Rightarrow> nat" where
  "section_tables start stop = 3 * (run_pages (ALIGN_DOWN start PAGE_SIZE) (ALIGN_UP stop PAGE_SIZE) div 512 + 2)"

text \<open>The entry for a page, the later loops of \<open>vmm_init\<close> first: first for the loops over the kernel's
  sections and its stack, then for all of them.\<close>

definition image_entry :: "kernel_image \<Rightarrow> u64 \<Rightarrow> u64 \<Rightarrow> u64" where
  "image_entry k offset a =
     (let phys = a - kernel_virt_base k + kernel_phys_base k;
          top = ALIGN_UP (kernel_stack_top k) PAGE_SIZE in
      if in_pages (printk_buff_start k) (printk_buff_end k) a then phys OR (VMM_PRESENT OR VMM_WRITE)
      else if in_pages (data_start k) (data_end k) a then phys OR (VMM_PRESENT OR VMM_WRITE OR VMM_NX)
      else if in_pages (rodata_start k) (rodata_end k) a then phys OR (VMM_PRESENT OR VMM_NX)
      else if in_pages (text_start k) (text_end k) a then phys OR VMM_PRESENT
      else if top - 0x10000 \<le> a \<and> a < top then (a - offset) OR (VMM_PRESENT OR VMM_WRITE OR VMM_NX)
      else if in_pages (limine_requests_start k) (limine_requests_end k) a then phys OR (VMM_PRESENT OR VMM_WRITE)
      else 0)"

definition kernel_entry :: "kernel_image \<Rightarrow> u64 \<Rightarrow> u64 \<Rightarrow> u64" where
  "kernel_entry k offset a =
     (if offset \<le> a \<and> a - offset < 0x100000000 then (a - offset) OR (VMM_PRESENT OR VMM_WRITE)
      else image_entry k offset a)"

text \<open>The layout of the linker script and of the boot loader: everything lies in the upper half of
  the address space and ends two pages before the last address.\<close>

definition section_ok :: "u64 \<Rightarrow> u64 \<Rightarrow> bool" where
  "section_ok start stop \<longleftrightarrow> high start \<and> unat stop + 8192 \<le> 2 ^ 64"

definition image_ok :: "kernel_image \<Rightarrow> u64 \<Rightarrow> bool" where
  "image_ok k offset \<longleftrightarrow>
     section_ok (limine_requests_start k) (limine_requests_end k) \<and> section_ok (text_start k) (text_end k) \<and>
     section_ok (rodata_start k) (rodata_end k) \<and> section_ok (data_start k) (data_end k) \<and>
     section_ok (printk_buff_start k) (printk_buff_end k) \<and>
     page_aligned offset \<and> high offset \<and> unat offset + 0x100002000 \<le> 2 ^ 64 \<and>
     2 ^ 64 - 2 ^ 47 + 0x10000 \<le> unat (kernel_stack_top k) \<and> unat (kernel_stack_top k) + 8192 \<le> 2 ^ 64"

text \<open>How many pages the tables may take: three for each table of the last level, of which every run of
  pages touches at most two more than it fills.\<close>

definition image_pages :: "kernel_image \<Rightarrow> nat" where
  "image_pages k = section_tables (limine_requests_start k) (limine_requests_end k) + 6 +
     section_tables (text_start k) (text_end k) + section_tables (rodata_start k) (rodata_end k) +
     section_tables (data_start k) (data_end k) + section_tables (printk_buff_start k) (printk_buff_end k)"

definition init_pages :: "kernel_image \<Rightarrow> nat" where
  "init_pages k = 1 + image_pages k + 6150"

lemma map_section_entry:
  assumes "vm_inv s root" and "bit flags 0" and "section_ok start stop" and "section_tables start stop \<le> length (stack_list s)"
  obtains s' where "map_section k (HIGHER_HALF s root) start stop flags s = Some s'" "loads root (section_tables start stop) s s'"
    "\<And>a. page_aligned a \<Longrightarrow> canonical a \<Longrightarrow> leaf s' root a =
       (if in_pages start stop a then (a - kernel_virt_base k + kernel_phys_base k) OR flags else leaf s root a)"
proof -
  let ?j = "ALIGN_DOWN start PAGE_SIZE" and ?l = "ALIGN_UP stop PAGE_SIZE"
  have st: "high start" "unat stop + 8192 \<le> 2 ^ 64" using assms(3) by (simp_all add: section_ok_def)
  have j: "unat ?j = unat start div 4096 * 4096" by (simp add: unat_ALIGN_DOWN)
  have l: "unat ?l = (unat stop + 4095) div 4096 * 4096"
    using st(2) by (simp add: unat_ALIGN_UP PAGE_SIZE_def)
  have hj: "high ?j"
  proof -
    have "(2 ^ 64 - 2 ^ 47) div 4096 * 4096 \<le> unat ?j" unfolding j using st(1) by (intro mult_le_mono1 div_le_mono)
    then show ?thesis by simp
  qed
  have lim: "unat ?l + 4096 \<le> 2 ^ 64" unfolding l using st(2) by linarith
  have n: "run_pages ?j ?l = (unat stop + 4095) div 4096 - unat start div 4096"
    unfolding run_pages_def j l by (simp add: diff_mult_distrib [symmetric])
  have "unat ?j + 4096 * run_pages ?j ?l < 2 ^ 64"
    unfolding n j using st(2) unat_lt_64 [of start] by (cases "(unat stop + 4095) div 4096 \<le> unat start div 4096") auto
  from map_run_pages [of s root flags ?j ?l "\<lambda>j. j" "\<lambda>j. j - kernel_virt_base k + kernel_phys_base k", OF assms(1,2)
      assms(4) [unfolded section_tables_def] lim _ hj this]
  obtain s' where s': "map_section k (HIGHER_HALF s root) start stop flags s = Some s'" "loads root (section_tables start stop) s s'"
    "\<And>v. canonical v \<Longrightarrow> leaf s' root v = (if page_no ?j \<le> page_no v \<and> page_no v < page_no ?j + run_pages ?j ?l
        then (?j + of_nat (4096 * (page_no v - page_no ?j)) - kernel_virt_base k + kernel_phys_base k) OR flags
        else leaf s root v)"
    unfolding map_section_def section_tables_def by auto
  have "leaf s' root a = (if in_pages start stop a then (a - kernel_virt_base k + kernel_phys_base k) OR flags else leaf s root a)"
    if a: "page_aligned a" "canonical a" for a
  proof -
    have aa: "unat a = 4096 * page_no a" using a(1) by (rule page_aligned_pages)
    have pj: "page_no ?j = unat start div 4096" unfolding j by simp
    have "in_pages start stop a \<longleftrightarrow> page_no ?j \<le> page_no a \<and> page_no a < page_no ?j + run_pages ?j ?l"
      unfolding in_pages_def word_le_nat_alt word_less_nat_alt j l n pj using aa by auto
    moreover have "?j + of_nat (4096 * (page_no a - page_no ?j)) = a" if "page_no ?j \<le> page_no a"
    proof -
      have "unat ?j + 4096 * (page_no a - page_no ?j) = unat a" using that aa j pj by (simp add: diff_mult_distrib2)
      then have "of_nat (unat ?j + 4096 * (page_no a - page_no ?j)) = a" by simp
      then show ?thesis by (simp del: of_nat_mult)
    qed
    ultimately show ?thesis unfolding s'(3) [OF a(2)] by (auto simp del: of_nat_mult)
  qed
  with s'(1,2) that show ?thesis by blast
qed


lemma or_present: "page_aligned x \<Longrightarrow> bit flags 0 \<Longrightarrow> (x + 1) OR flags = x OR (flags :: u64)"
proof -
  assume a: "page_aligned x" "bit flags 0"
  then have "even x" using page_aligned_bit [of x 0] by (simp add: bit_0)
  then have "x + 1 = x OR 1" by (simp add: or_one_eq)
  moreover have "1 OR flags = flags" using a(2) by (intro bit_word_eqI) (auto simp: bit_or_iff bit_1_iff)
  ultimately show ?thesis by (simp add: or.assoc)
qed

lemma page_aligned_diff:
  assumes "page_aligned a" and "page_aligned b"
  shows "page_aligned (a - b)"
proof -
  have d: "4096 dvd unat a" "4096 dvd unat b" using assms by (simp_all add: page_aligned_unat mod_eq_0_iff_dvd)
  have "4096 dvd unat a + 18446744073709551616" by (rule dvd_add [OF d(1)]) simp
  with d have "4096 dvd unat (a - b)" unfolding unat_sub_if_size by (simp add: word_size dvd_diff_nat)
  then show ?thesis by (simp add: page_aligned_unat mod_eq_0_iff_dvd)
qed

text \<open>The stack's loop starts one byte after the start of a page.\<close>

lemma map_stack_entry:
  fixes offset top flags :: u64
  assumes "vm_inv s root" and "bit flags 0" and "6 \<le> length (stack_list s)" and "page_aligned offset" "page_aligned top"
    and "2 ^ 64 - 2 ^ 47 + 0x10000 \<le> unat top" "unat top + 4096 \<le> 2 ^ 64"
  obtains s' where "map_range (\<lambda>j. j) (\<lambda>j. j - offset) (HIGHER_HALF s root) flags (top - 65535) top s = Some s'" "loads root 6 s s'"
    "\<And>a. page_aligned a \<Longrightarrow> canonical a \<Longrightarrow> leaf s' root a =
       (if top - 0x10000 \<le> a \<and> a < top then (a - offset) OR flags else leaf s root a)"
proof -
  let ?j = "top - 65535"
  have le: "65536 \<le> top" using assms(6) by (simp add: word_le_nat_alt)
  have "65535 \<le> top" by (rule order_trans [OF _ le]) simp
  then have j: "unat ?j = unat top - 65535" by (simp add: unat_sub)
  have t: "unat top = 4096 * page_no top" using assms(5) by (rule page_aligned_pages)
  have lo: "unat (top - 0x10000) = unat top - 0x10000" using le by (simp add: unat_sub)
  have n: "run_pages ?j top = 16" using assms(6) unfolding run_pages_def j by simp
  have c: "3 * (16 div 512 + 2) = (6 :: nat)" by simp
  have pt: "16 \<le> page_no top" using div_le_mono [OF assms(6), of 4096] by simp
  have jj: "unat ?j = 4096 * (page_no top - 16) + 1" unfolding j using t pt by linarith
  then have pj: "page_no ?j = page_no top - 16" by simp
  have "high ?j" "unat ?j + 4096 * 16 < 2 ^ 64" using assms(6,7) unfolding j by simp_all
  then obtain s' where s': "map_range (\<lambda>j. j) (\<lambda>j. j - offset) (HIGHER_HALF s root) flags ?j top s = Some s'" "loads root 6 s s'"
    "\<And>v. canonical v \<Longrightarrow> leaf s' root v = (if page_no ?j \<le> page_no v \<and> page_no v < page_no ?j + 16
        then (?j + of_nat (4096 * (page_no v - page_no ?j)) - offset) OR flags else leaf s root v)"
    using map_run_pages [of s root flags ?j top "\<lambda>j. j" "\<lambda>j. j - offset", OF assms(1,2) _ assms(7), unfolded n c] assms(3) by blast
  have "leaf s' root a = (if top - 0x10000 \<le> a \<and> a < top then (a - offset) OR flags else leaf s root a)"
    if a: "page_aligned a" "canonical a" for a
  proof -
    have aa: "unat a = 4096 * page_no a" using a(1) by (rule page_aligned_pages)
    have i: "page_no ?j \<le> page_no a \<and> page_no a < page_no ?j + 16 \<longleftrightarrow> top - 0x10000 \<le> a \<and> a < top"
      unfolding pj word_le_nat_alt word_less_nat_alt lo using aa t pt by (intro iffI conjI; linarith)
    have e: "?j + of_nat (4096 * (page_no a - page_no ?j)) = a + 1" if "page_no ?j \<le> page_no a"
    proof -
      have "unat ?j + 4096 * (page_no a - page_no ?j) = Suc (unat a)" using that aa jj unfolding pj by linarith
      then have "of_nat (unat ?j + 4096 * (page_no a - page_no ?j)) = (of_nat (Suc (unat a)) :: u64)" by (rule arg_cong)
      then show ?thesis by (simp del: of_nat_mult)
    qed
    have o: "(a + 1 - offset) OR flags = (a - offset) OR flags"
      using or_present [OF page_aligned_diff [OF a(1) assms(4)] assms(2)] by (simp add: diff_add_eq)
    show ?thesis using s'(3) [OF a(2)] i e o by metis
  qed
  with s'(1,2) that show ?thesis by blast
qed

lemma map_hhdm_entry:
  assumes "vm_inv s root" and "bit flags 0" and "6150 \<le> length (stack_list s)"
    and "page_aligned (hhdm_offset s)" "high (hhdm_offset s)" "unat (hhdm_offset s) + 0x100002000 \<le> 2 ^ 64"
  obtains s' where "map_range (HIGHER_HALF s) (\<lambda>j. j) (HIGHER_HALF s root) flags 0 0x100000000 s = Some s'" "loads root 6150 s s'"
    "\<And>a. page_aligned a \<Longrightarrow> canonical a \<Longrightarrow> leaf s' root a =
       (if hhdm_offset s \<le> a \<and> a - hhdm_offset s < 0x100000000 then (a - hhdm_offset s) OR flags else leaf s root a)"
proof -
  let ?o = "hhdm_offset s"
  have n: "run_pages 0 0x100000000 = 1048576" by (simp add: run_pages_def)
  have c: "3 * (1048576 div 512 + 2) = (6150 :: nat)" by simp
  have o: "unat ?o = 4096 * page_no ?o" using assms(4) by (rule page_aligned_pages)
  have h: "HIGHER_HALF s 0 = ?o" "\<And>j. HIGHER_HALF s (j + 4096) = HIGHER_HALF s j + 4096"
    by (simp_all add: HIGHER_HALF_def)
  have "unat ?o + 4096 * 1048576 < 2 ^ 64" "unat (0x100000000 :: u64) + 4096 \<le> 2 ^ 64" using assms(6) by simp_all
  then obtain s' where s': "map_range (HIGHER_HALF s) (\<lambda>j. j) (HIGHER_HALF s root) flags 0 0x100000000 s = Some s'" "loads root 6150 s s'"
    "\<And>v. canonical v \<Longrightarrow> leaf s' root v = (if page_no ?o \<le> page_no v \<and> page_no v < page_no ?o + 1048576
        then of_nat (4096 * (page_no v - page_no ?o)) OR flags else leaf s root v)"
    using map_run_pages [of s root flags 0 "0x100000000" "HIGHER_HALF s" "\<lambda>j. j", OF assms(1,2) _ _ h(2), unfolded n h(1) add_0_left c] assms(3,5)
    by blast
  have "leaf s' root a = (if ?o \<le> a \<and> a - ?o < 0x100000000 then (a - ?o) OR flags else leaf s root a)"
    if a: "page_aligned a" "canonical a" for a
  proof -
    have aa: "unat a = 4096 * page_no a" using a(1) by (rule page_aligned_pages)
    have d: "unat (a - ?o) = 4096 * (page_no a - page_no ?o)" if "?o \<le> a"
      using that aa o by (simp add: unat_sub diff_mult_distrib2)
    have le: "?o \<le> a \<longleftrightarrow> page_no ?o \<le> page_no a" unfolding word_le_nat_alt using aa o by linarith
    have "?o \<le> a \<and> a - ?o < 0x100000000 \<longleftrightarrow> page_no ?o \<le> page_no a \<and> page_no a < page_no ?o + 1048576"
      using d le by (auto simp: word_less_nat_alt less_diff_conv2)
    moreover have "of_nat (4096 * (page_no a - page_no ?o)) = a - ?o" if "page_no ?o \<le> page_no a"
      using arg_cong [OF d, of "of_nat :: nat \<Rightarrow> u64"] that le by (simp del: of_nat_mult)
    ultimately show ?thesis unfolding s'(3) [OF a(2)] by (auto simp del: of_nat_mult)
  qed
  with s'(1,2) that show ?thesis by blast
qed



section \<open>The whole address space\<close>

text \<open>A free page, cleared, is an address space that maps nothing.\<close>

lemma new_root:
  assumes inv: "pmm_inv s" and free: "stack_list s \<noteq> []"
  obtains q s1 where "pmm_request_page s = (q, s1)" "memset (mem s1) (HIGHER_HALF s1 q) 0 PAGE_SIZE = mem s1"
    "HIGHER_HALF s1 q \<noteq> NULL" "q \<in> set (stack_list s)" "vm_inv s1 q" "\<And>v. leaf s1 q v = 0" "same_setup s s1"
    "length (stack_list s) = Suc (length (stack_list s1))"
proof -
  from free obtain ps q where l: "stack_list s = ps @ [q]" by (metis rev_exhaust)
  obtain s1 where s1: "pmm_request_page s = (q, s1)" "pmm_inv s1" "stack_list s1 = ps" "same_setup s s1"
    "mem s1 = block_fill (mem s) (HIGHER_HALF s q) 0 4096"
    using request_top [OF inv l] by metis
  note su = same_setup_simps [OF s1(4)]
  have q: "frame_ok s1 q" "q \<notin> set ps" using inv l su(5) by (auto simp: pmm_inv_def)
  have zero: "entry_get s1 (HIGHER_HALF s1 q) j = 0" if "j < 512" for j
  proof -
    have "load64 (mem s1) (HIGHER_HALF s q + 8 * j) = load64 (\<lambda>_. 0) (HIGHER_HALF s q + 8 * j)"
      by (rule load64_region)
        (use slot_region [OF that, of "HIGHER_HALF s q"] in \<open>auto simp: s1(5) block_fill_def region_def\<close>)
    then show ?thesis by (simp add: entry_get_def load64_def su(4))
  qed
  have side: "page_aligned q" "q \<notin> set (stack_list s1)" "page_frame s1 q \<inter> stack_region s1 = {}"
    using q s1(3) by (simp_all add: frame_ok_def)
  have "memset (mem s1) (HIGHER_HALF s1 q) 0 PAGE_SIZE = mem s1"
    by (simp add: memset_page s1(5) su(4) block_fill_def fun_eq_iff)
  moreover have "length (stack_list s) = Suc (length (stack_list s1))" unfolding l s1(3) by simp
  moreover have "HIGHER_HALF s1 q \<noteq> NULL" using q(1) by (simp add: frame_ok_def)
  ultimately show ?thesis
    using that s1(1,4) l vm_inv_empty(1,2) [OF s1(2) side zero] by simp
qed

lemma flags_present: "bit (VMM_PRESENT OR f) 0" "bit VMM_PRESENT 0"
  by (simp_all add: VMM_PRESENT_def bit_or_iff)

lemma ALIGN_UP_top:
  assumes "2 ^ 64 - 2 ^ 47 + 0x10000 \<le> unat t" and "unat t + 8192 \<le> 2 ^ 64"
  shows "page_aligned (ALIGN_UP t PAGE_SIZE)" "2 ^ 64 - 2 ^ 47 + 0x10000 \<le> unat (ALIGN_UP t PAGE_SIZE)"
    "unat (ALIGN_UP t PAGE_SIZE) + 4096 \<le> 2 ^ 64"
proof -
  have u: "unat (ALIGN_UP t PAGE_SIZE) = (unat t + 4095) div 4096 * 4096"
    using assms(2) by (simp add: unat_ALIGN_UP PAGE_SIZE_def)
  then show "page_aligned (ALIGN_UP t PAGE_SIZE)" by (simp add: page_aligned_unat)
  show "2 ^ 64 - 2 ^ 47 + 0x10000 \<le> unat (ALIGN_UP t PAGE_SIZE)" "unat (ALIGN_UP t PAGE_SIZE) + 4096 \<le> 2 ^ 64"
    using assms unfolding u by linarith+
qed

lemma loads_state:
  assumes "loads root c s t"
  shows "vm_inv t root" "HIGHER_HALF t = HIGHER_HALF s" "hhdm_offset t = hhdm_offset s"
  using assms same_setup_simps(4) [of s t] by (auto simp: loads_def same_setup_def)

text \<open>What a loop does after loops that took \<open>c\<close> pages: \<open>maps root c d P g s t t'\<close>.\<close>

definition maps :: "u64 \<Rightarrow> nat \<Rightarrow> (u64 \<Rightarrow> bool) \<Rightarrow> (u64 \<Rightarrow> u64) \<Rightarrow> pmm \<Rightarrow> pmm \<Rightarrow> pmm \<Rightarrow> bool" where
  "maps root c P g s t t' \<longleftrightarrow> loads root c s t' \<and>
     (\<forall>a. page_aligned a \<and> canonical a \<longrightarrow> leaf t' root a = (if P a then g a else leaf t root a))"

lemma mapsI:
  assumes "loads root c s t" and "loads root d t t'"
    and "\<And>a. page_aligned a \<Longrightarrow> canonical a \<Longrightarrow> leaf t' root a = (if P a then g a else leaf t root a)"
  shows "maps root (c + d) P g s t t'"
  using loads_trans [OF assms(1,2)] assms(3) by (simp add: maps_def)

lemma section_maps:
  assumes "loads root c s t" and "c + section_tables start stop \<le> length (stack_list s)" and "bit flags 0" and "section_ok start stop"
  obtains t' where "map_section k (HIGHER_HALF s root) start stop flags t = Some t'"
    "maps root (c + section_tables start stop) (in_pages start stop)
       (\<lambda>a. (a - kernel_virt_base k + kernel_phys_base k) OR flags) s t t'"
proof -
  note ls = loads_state [OF assms(1)]
  from map_section_entry [OF ls(1) assms(3,4) loads_free [OF assms(1,2)], of k]
  obtain t' where "map_section k (HIGHER_HALF t root) start stop flags t = Some t'" "loads root (section_tables start stop) t t'"
    "\<And>a. page_aligned a \<Longrightarrow> canonical a \<Longrightarrow> leaf t' root a =
       (if in_pages start stop a then (a - kernel_virt_base k + kernel_phys_base k) OR flags else leaf t root a)"
    by metis
  then show ?thesis using that mapsI [OF assms(1)] by (simp add: ls(2))
qed

lemma stack_maps:
  fixes offset top flags :: u64
  assumes "loads root c s t" and "c + 6 \<le> length (stack_list s)" and "bit flags 0" and "page_aligned offset" "page_aligned top"
    and "2 ^ 64 - 2 ^ 47 + 0x10000 \<le> unat top" "unat top + 4096 \<le> 2 ^ 64"
  obtains t' where "map_range (\<lambda>j. j) (\<lambda>j. j - offset) (HIGHER_HALF s root) flags (top - 65535) top t = Some t'"
    "maps root (c + 6) (\<lambda>a. top - 0x10000 \<le> a \<and> a < top) (\<lambda>a. (a - offset) OR flags) s t t'"
proof -
  note ls = loads_state [OF assms(1)]
  from map_stack_entry [OF ls(1) assms(3) loads_free [OF assms(1,2)] assms(4-7)]
  obtain t' where "map_range (\<lambda>j. j) (\<lambda>j. j - offset) (HIGHER_HALF t root) flags (top - 65535) top t = Some t'" "loads root 6 t t'"
    "\<And>a. page_aligned a \<Longrightarrow> canonical a \<Longrightarrow> leaf t' root a =
       (if top - 0x10000 \<le> a \<and> a < top then (a - offset) OR flags else leaf t root a)"
    by metis
  then show ?thesis using that mapsI [OF assms(1)] by (simp add: ls(2))
qed

lemma hhdm_maps:
  assumes "loads root c s t" and "c + 6150 \<le> length (stack_list s)" and "bit flags 0"
    and "page_aligned (hhdm_offset s)" "high (hhdm_offset s)" "unat (hhdm_offset s) + 0x100002000 \<le> 2 ^ 64"
  obtains t' where "map_range (HIGHER_HALF t) (\<lambda>j. j) (HIGHER_HALF s root) flags 0 0x100000000 t = Some t'"
    "maps root (c + 6150) (\<lambda>a. hhdm_offset s \<le> a \<and> a - hhdm_offset s < 0x100000000) (\<lambda>a. (a - hhdm_offset s) OR flags) s t t'"
proof -
  note ls = loads_state [OF assms(1)]
  from map_hhdm_entry [OF ls(1) assms(3) loads_free [OF assms(1,2)]] assms(4-6)
  obtain t' where "map_range (HIGHER_HALF t) (\<lambda>j. j) (HIGHER_HALF t root) flags 0 0x100000000 t = Some t'" "loads root 6150 t t'"
    "\<And>a. page_aligned a \<Longrightarrow> canonical a \<Longrightarrow> leaf t' root a =
       (if hhdm_offset s \<le> a \<and> a - hhdm_offset s < 0x100000000 then (a - hhdm_offset s) OR flags else leaf t root a)"
    unfolding ls(3) by metis
  then show ?thesis using that mapsI [OF assms(1)] by (simp add: ls(2))
qed

lemma loads_length:
  assumes "loads root c s t"
  shows "length (stack_list s) \<le> length (stack_list t) + c"
proof -
  obtain ps where "length ps \<le> c" "stack_list s = stack_list t @ ps" using assms by (auto simp: loads_def)
  then show ?thesis by (simp del: length_stack_list)
qed

lemma image_loops:
  assumes inv: "vm_inv s0 root" and zero: "\<And>a. leaf s0 root a = 0" and img: "image_ok k offset"
    and free: "image_pages k \<le> length (stack_list s0)" and o: "hhdm_offset s0 = offset"
  defines "pm \<equiv> HIGHER_HALF s0 root" and "tp \<equiv> ALIGN_UP (kernel_stack_top k) PAGE_SIZE"
  obtains s1 s2 s3 s4 s5 s6 where
    "map_section k pm (limine_requests_start k) (limine_requests_end k) (VMM_PRESENT OR VMM_WRITE) s0 = Some s1"
    "hhdm_offset s1 = offset"
    "map_range (\<lambda>j. j) (\<lambda>j. j - offset) pm (VMM_PRESENT OR VMM_WRITE OR VMM_NX) (tp - 65535) tp s1 = Some s2"
    "map_section k pm (text_start k) (text_end k) VMM_PRESENT s2 = Some s3"
    "map_section k pm (rodata_start k) (rodata_end k) (VMM_PRESENT OR VMM_NX) s3 = Some s4"
    "map_section k pm (data_start k) (data_end k) (VMM_PRESENT OR VMM_WRITE OR VMM_NX) s4 = Some s5"
    "map_section k pm (printk_buff_start k) (printk_buff_end k) (VMM_PRESENT OR VMM_WRITE) s5 = Some s6"
    "loads root (image_pages k) s0 s6" "\<And>a. page_aligned a \<Longrightarrow> canonical a \<Longrightarrow> leaf s6 root a = image_entry k offset a"
proof -
  have sok: "section_ok (limine_requests_start k) (limine_requests_end k)" "section_ok (text_start k) (text_end k)"
    "section_ok (rodata_start k) (rodata_end k)" "section_ok (data_start k) (data_end k)"
    "section_ok (printk_buff_start k) (printk_buff_end k)" "page_aligned offset"
    using img by (simp_all add: image_ok_def)
  have tp: "page_aligned tp" "2 ^ 64 - 2 ^ 47 + 0x10000 \<le> unat tp" "unat tp + 4096 \<le> 2 ^ 64"
    using img ALIGN_UP_top [of "kernel_stack_top k"] by (simp_all add: tp_def image_ok_def)
  define lim tex rod dat pri where n: "lim = section_tables (limine_requests_start k) (limine_requests_end k)"
    "tex = section_tables (text_start k) (text_end k)" "rod = section_tables (rodata_start k) (rodata_end k)"
    "dat = section_tables (data_start k) (data_end k)" "pri = section_tables (printk_buff_start k) (printk_buff_end k)"
  have rm: "lim \<le> length (stack_list s0)" "lim + 6 \<le> length (stack_list s0)" "lim + 6 + tex \<le> length (stack_list s0)"
    "lim + 6 + tex + rod \<le> length (stack_list s0)" "lim + 6 + tex + rod + dat \<le> length (stack_list s0)"
    "lim + 6 + tex + rod + dat + pri \<le> length (stack_list s0)"
    using free unfolding image_pages_def n by linarith+
  obtain s1 where
    s1: "map_section k pm (limine_requests_start k) (limine_requests_end k) (VMM_PRESENT OR VMM_WRITE) s0 = Some s1"
    "maps root lim (in_pages (limine_requests_start k) (limine_requests_end k))
       (\<lambda>a. (a - kernel_virt_base k + kernel_phys_base k) OR (VMM_PRESENT OR VMM_WRITE)) s0 s0 s1"
    by (rule section_maps [OF loads_refl [OF inv] _ flags_present(1) sok(1), of k VMM_WRITE, folded n, unfolded add_0_left, folded pm_def, OF rm(1)])
  then have l1: "loads root lim s0 s1" by (simp add: maps_def)
  obtain s2 where
    s2: "map_range (\<lambda>j. j) (\<lambda>j. j - offset) pm (VMM_PRESENT OR VMM_WRITE OR VMM_NX) (tp - 65535) tp s1 = Some s2"
    "maps root (lim + 6) (\<lambda>a. tp - 0x10000 \<le> a \<and> a < tp) (\<lambda>a. (a - offset) OR (VMM_PRESENT OR VMM_WRITE OR VMM_NX)) s0 s1 s2"
    by (rule stack_maps [OF l1 rm(2) flags_present(1) sok(6) tp, of "VMM_WRITE OR VMM_NX", folded pm_def])
  then have l2: "loads root (lim + 6) s0 s2" by (simp add: maps_def)
  obtain s3 where
    s3: "map_section k pm (text_start k) (text_end k) VMM_PRESENT s2 = Some s3"
    "maps root (lim + 6 + tex) (in_pages (text_start k) (text_end k))
       (\<lambda>a. (a - kernel_virt_base k + kernel_phys_base k) OR VMM_PRESENT) s0 s2 s3"
    by (rule section_maps [OF l2 _ flags_present(2) sok(2), of k, folded n, folded pm_def, OF rm(3)])
  then have l3: "loads root (lim + 6 + tex) s0 s3" by (simp add: maps_def)
  obtain s4 where
    s4: "map_section k pm (rodata_start k) (rodata_end k) (VMM_PRESENT OR VMM_NX) s3 = Some s4"
    "maps root (lim + 6 + tex + rod) (in_pages (rodata_start k) (rodata_end k))
       (\<lambda>a. (a - kernel_virt_base k + kernel_phys_base k) OR (VMM_PRESENT OR VMM_NX)) s0 s3 s4"
    by (rule section_maps [OF l3 _ flags_present(1) sok(3), of k VMM_NX, folded n, folded pm_def, OF rm(4)])
  then have l4: "loads root (lim + 6 + tex + rod) s0 s4" by (simp add: maps_def)
  obtain s5 where
    s5: "map_section k pm (data_start k) (data_end k) (VMM_PRESENT OR VMM_WRITE OR VMM_NX) s4 = Some s5"
    "maps root (lim + 6 + tex + rod + dat) (in_pages (data_start k) (data_end k))
       (\<lambda>a. (a - kernel_virt_base k + kernel_phys_base k) OR (VMM_PRESENT OR VMM_WRITE OR VMM_NX)) s0 s4 s5"
    by (rule section_maps [OF l4 _ flags_present(1) sok(4), of k "VMM_WRITE OR VMM_NX", folded n, folded pm_def, OF rm(5)])
  then have l5: "loads root (lim + 6 + tex + rod + dat) s0 s5" by (simp add: maps_def)
  obtain s6 where
    s6: "map_section k pm (printk_buff_start k) (printk_buff_end k) (VMM_PRESENT OR VMM_WRITE) s5 = Some s6"
    "maps root (lim + 6 + tex + rod + dat + pri) (in_pages (printk_buff_start k) (printk_buff_end k))
       (\<lambda>a. (a - kernel_virt_base k + kernel_phys_base k) OR (VMM_PRESENT OR VMM_WRITE)) s0 s5 s6"
    by (rule section_maps [OF l5 _ flags_present(1) sok(5), of k VMM_WRITE, folded n, folded pm_def, OF rm(6)])
  then have l6: "loads root (lim + 6 + tex + rod + dat + pri) s0 s6" by (simp add: maps_def)
  have "leaf s6 root a = image_entry k offset a" if "page_aligned a" "canonical a" for a
    using s1(2) s2(2) s3(2) s4(2) s5(2) s6(2) that zero unfolding maps_def image_entry_def Let_def tp_def by simp
  moreover have "loads root (image_pages k) s0 s6" using l6 by (simp add: image_pages_def n)
  moreover have "hhdm_offset s1 = offset" using loads_state(3) [OF l1] o by simp
  ultimately show ?thesis using that s1(1) s2(1) s3(1) s4(1) s5(1) s6(1) by blast
qed

lemma vmm_init_entries:
  assumes inv: "pmm_inv (frames v)" and img: "image_ok k (hhdm_offset (frames v))"
    and free: "init_pages k \<le> length (stack_list (frames v))"
  obtains v' root where "vmm_init k v = Some v'" "kernel_pagemap v' = HIGHER_HALF (frames v') root" "cr3 v' = root"
    "kernel_pagemap v' \<noteq> NULL" "root \<in> set (stack_list (frames v))" "vm_inv (frames v') root" "same_setup (frames v) (frames v')"
    "\<And>a. page_aligned a \<Longrightarrow> canonical a \<Longrightarrow> leaf (frames v') root a = kernel_entry k (hhdm_offset (frames v)) a"
    "length (stack_list (frames v)) \<le> length (stack_list (frames v')) + init_pages k"
proof -
  let ?o = "hhdm_offset (frames v)"
  have "stack_list (frames v) \<noteq> []" using free by (auto simp: init_pages_def simp del: length_stack_list)
  from new_root [OF inv this] obtain root s0 where
    r: "pmm_request_page (frames v) = (root, s0)" "memset (mem s0) (HIGHER_HALF s0 root) 0 PAGE_SIZE = mem s0"
    "HIGHER_HALF s0 root \<noteq> NULL" "root \<in> set (stack_list (frames v))" "vm_inv s0 root" "\<And>v. leaf s0 root v = 0"
    "same_setup (frames v) s0" "length (stack_list (frames v)) = Suc (length (stack_list s0))"
    by metis
  let ?pm = "HIGHER_HALF s0 root"
  have oo: "hhdm_offset s0 = ?o" using r(7) by (simp add: same_setup_def)
  have room: "image_pages k + 6150 \<le> length (stack_list s0)" using free r(8) unfolding init_pages_def by linarith
  then have "image_pages k \<le> length (stack_list s0)" by linarith
  note loops = image_loops [OF r(5,6) img this oo]
  obtain s1 s2 s3 s4 s5 s6 where s:
    "map_section k ?pm (limine_requests_start k) (limine_requests_end k) (VMM_PRESENT OR VMM_WRITE) s0 = Some s1"
    "hhdm_offset s1 = ?o"
    "map_range (\<lambda>j. j) (\<lambda>j. j - ?o) ?pm (VMM_PRESENT OR VMM_WRITE OR VMM_NX)
       (ALIGN_UP (kernel_stack_top k) PAGE_SIZE - 65535) (ALIGN_UP (kernel_stack_top k) PAGE_SIZE) s1 = Some s2"
    "map_section k ?pm (text_start k) (text_end k) VMM_PRESENT s2 = Some s3"
    "map_section k ?pm (rodata_start k) (rodata_end k) (VMM_PRESENT OR VMM_NX) s3 = Some s4"
    "map_section k ?pm (data_start k) (data_end k) (VMM_PRESENT OR VMM_WRITE OR VMM_NX) s4 = Some s5"
    "map_section k ?pm (printk_buff_start k) (printk_buff_end k) (VMM_PRESENT OR VMM_WRITE) s5 = Some s6"
    "loads root (image_pages k) s0 s6" "\<And>a. page_aligned a \<Longrightarrow> canonical a \<Longrightarrow> leaf s6 root a = image_entry k ?o a"
    by (rule loops) blast
  have "page_aligned ?o" "high ?o" "unat ?o + 0x100002000 \<le> 2 ^ 64" using img by (simp_all add: image_ok_def)
  note hh = hhdm_maps [OF s(8) room flags_present(1) [of VMM_WRITE], unfolded oo, OF this]
  obtain s7 where
    s7: "map_range (HIGHER_HALF s6) (\<lambda>j. j) ?pm (VMM_PRESENT OR VMM_WRITE) 0 0x100000000 s6 = Some s7"
    "maps root (image_pages k + 6150) (\<lambda>a. ?o \<le> a \<and> a - ?o < 0x100000000)
       (\<lambda>a. (a - ?o) OR (VMM_PRESENT OR VMM_WRITE)) s0 s6 s7"
    by (rule hh)
  then have l7: "loads root (image_pages k + 6150) s0 s7" by (simp add: maps_def)
  define v' where "v' = vmm_switch_pagemap (v\<lparr>frames := s7, kernel_pagemap := ?pm\<rparr>) ?pm"
  have off: "HIGHER_HALF s7 = HIGHER_HALF s0" "hhdm_offset s7 = ?o" using loads_state [OF l7] oo by simp_all
  have "vmm_init k v = Some v'"
    unfolding vmm_init_def by (simp add: r(1-3) s(1-7) s7(1) v'_def Let_def)
  moreover have f: "frames v' = s7" "kernel_pagemap v' = ?pm" "cr3 v' = root"
    using oo off(2) by (simp_all add: v'_def vmm_switch_pagemap_def PHYSICAL_def HIGHER_HALF_def)
  moreover have "leaf s7 root a = kernel_entry k ?o a" if "page_aligned a" "canonical a" for a
    using s(9) s7(2) that unfolding maps_def kernel_entry_def by simp
  moreover have "vm_inv s7 root" "same_setup (frames v) s7"
    using l7 same_setup_trans [OF r(7)] by (auto simp: loads_def)
  moreover have "length (stack_list (frames v)) \<le> length (stack_list s7) + init_pages k"
    using loads_length [OF l7] r(8) unfolding init_pages_def by linarith
  ultimately show ?thesis
    using that [of v' root] r(3,4) off(1) by (simp del: length_stack_list)
qed



lemma pmm_init_offset:
  assumes "laid_out 4096 mm" "stack_home mm = Some e" "unat (stack_array_size mm) + 128 * 4096 \<le> unat (me_length e)"
    and "unat (hhdm_offset s) + 2 ^ 46 \<le> 2 ^ 64" and init: "pmm_init s (Some mm) = Some s'"
  shows "hhdm_offset s' = hhdm_offset s"
proof -
  have push: "hhdm_offset (fold (\<lambda>p s. push_page s p) ps t) = hhdm_offset t" for ps t
    by (induction ps arbitrary: t) (simp_all add: push_page_def)
  have pos: "0 < unat (me_length e)" using assms(3) by simp
  show ?thesis
  proof (rule pmm_init_steps [OF assms(1,2,4) pos])
    fix xs ys
    let ?s1 = "s\<lparr>stack_pages := HIGHER_HALF s (me_base e), memmap := xs @ cut_entry (stack_array_size mm) e # ys,
       valid_page_cache := fill_cache (me_base e + stack_array_size mm) (of_nat (length (usable_pages mm)))
         [0..<CACHE_SIZE] 0 (valid_page_cache s)\<rparr>"
    assume "\<And>s1. s1 = ?s1 \<Longrightarrow> pmm_init s (Some mm) = (let s2 = fold (\<lambda>p s. push_page s p) (usable_pages (memmap s1)) s1 in
         Some (s2\<lparr>stack_max := stack_idx s2, reclaimed := False\<rparr>))"
    from this [OF refl] init have "s' = (fold (\<lambda>p s. push_page s p) (usable_pages (memmap ?s1)) ?s1)
        \<lparr>stack_max := stack_idx (fold (\<lambda>p s. push_page s p) (usable_pages (memmap ?s1)) ?s1), reclaimed := False\<rparr>"
      by (simp only: Let_def option.inject)
    then have "hhdm_offset s' = hhdm_offset (fold (\<lambda>p s. push_page s p) (usable_pages (memmap ?s1)) ?s1)" by simp
    then show "hhdm_offset s' = hhdm_offset s" unfolding push by simp
  qed
qed


section \<open>Properties\<close>


text \<open>A machine with 32 megabytes, and an image laid out as the linker script does, with a page for the
  boot requests, 64 for the code, 16 for constants and 512 for the data, of which 256 for messages.\<close>

definition big_map :: "memmap_entry list" where
  "big_map = [\<lparr>me_base = 0x100000, me_length = 0x2000000, me_type = LIMINE_MEMMAP_USABLE\<rparr>]"

definition sample_image :: kernel_image where
  "sample_image =
     \<lparr>limine_requests_start = 0xffffffff80000000, limine_requests_end = 0xffffffff80000200,
      text_start = 0xffffffff80001000, text_end = 0xffffffff80040fff,
      rodata_start = 0xffffffff80041000, rodata_end = 0xffffffff80050800,
      data_start = 0xffffffff80051000, data_end = 0xffffffff80250000,
      printk_buff_start = 0xffffffff80052008, printk_buff_end = 0xffffffff80152008,
      kernel_phys_base = 0, kernel_virt_base = 0, kernel_stack_top = 0xffff800003000ff0\<rparr>"

lemma big_map_pages: "usable_pages big_map = map (\<lambda>i. 0x100000 + of_nat (4096 * i)) [0..<8192]"
proof -
  have "filter usable_entry big_map = big_map" by (simp add: big_map_def usable_entry_def)
  moreover have "concat (map entry_pages big_map) = entry_pages (hd big_map)" by (simp add: big_map_def)
  moreover have "unat (me_length (hd big_map)) div 4096 = 8192" "me_base (hd big_map) = 0x100000" by (simp_all add: big_map_def)
  ultimately show ?thesis by (simp only: usable_pages_def entry_pages_def)
qed

lemma big_map_home: "stack_array_size big_map = 0x10000" "stack_home big_map = Some (hd big_map)" "laid_out 4096 big_map"
proof -
  have "length (usable_pages big_map) = 8192" unfolding big_map_pages length_map length_upt by simp
  then show s: "stack_array_size big_map = 0x10000"
    by (simp add: stack_array_size_def ALIGN_UP_def DIV_ROUND_UP_def PAGE_SIZE_def)
  show "stack_home big_map = Some (hd big_map)"
    unfolding stack_home_def s by (simp add: big_map_def usable_entry_def)
  show "laid_out 4096 big_map" by (simp add: big_map_def managed_def usable_entry_def page_aligned_def PAGE_SIZE_def)
qed

lemma big_map_free:
  "8176 \<le> card {p \<in> set (usable_pages big_map). \<not> (0x100000 \<le> unat p \<and> unat p < 0x110000)}" (is "_ \<le> card ?F")
proof -
  let ?p = "\<lambda>i. 0x100000 + of_nat (4096 * i) :: u64"
  have u: "unat (?p i) = 0x100000 + 4096 * i" if "i < 8192" for i
    using that by (subst unat_plus_no_wrap) (simp_all add: unat_of_nat del: of_nat_mult)
  have "inj_on ?p {16..<8192}"
  proof (rule inj_onI)
    fix i j :: nat assume "i \<in> {16..<8192}" "j \<in> {16..<8192}" and eq: "?p i = ?p j"
    then have "i < 8192" "j < 8192" by simp_all
    then show "i = j" using arg_cong [OF eq, of unat] unfolding u [OF \<open>i < 8192\<close>] u [OF \<open>j < 8192\<close>] by simp
  qed
  note card = card_image [OF this, unfolded card_atLeastLessThan]
  have "?p i \<in> ?F" if "i \<in> {16..<8192}" for i
  proof -
    have i: "16 \<le> i" "i < 8192" using that by simp_all
    then have "i \<in> {0..<8192}" by simp
    then have "?p i \<in> set (usable_pages big_map)" unfolding big_map_pages set_map set_upt by (rule imageI)
    moreover have "\<not> unat (?p i) < 0x110000" unfolding u [OF i(2)] using i(1) by linarith
    ultimately show ?thesis by blast
  qed
  then have "?p ` {16..<8192} \<subseteq> ?F" by (rule image_subsetI)
  moreover have "finite ?F" by (rule finite_subset [OF _ finite_set]) blast
  ultimately have "card (?p ` {16..<8192}) \<le> card ?F" by (rule card_mono [rotated])
  then show ?thesis unfolding card by linarith
qed

lemma sample_image_ok: "image_ok sample_image 0xffff800000000000" "init_pages sample_image + 2 \<le> 8176"
  by (simp add: image_ok_def section_ok_def sample_image_def page_aligned_def PAGE_SIZE_def)
    (simp add: init_pages_def image_pages_def section_tables_def run_pages_def sample_image_def ALIGN_DOWN_def ALIGN_UP_def
      DIV_ROUND_UP_def PAGE_SIZE_def)


end
