(* ===== verification/Spec2Isabelle.thy ===== *)
theory Spec2Isabelle
  imports Mem_Lib Pmm Vmm Vma Heap_Props Vfs_Core Fs_Ops Vfs Ramfs_Init Vfs_Tree Ramfs Vfs_Locks Scheduler Sched_Props Syscall Port_Io Pic Rtc Input Interrupts Elf Nanoprintf Pci Console Syscall_Props Kernel_Space
begin

text \<open>
  A verification library for the shadowOS kernel, a small x86-64 kernel in C. File names below are
  relative to \<open>kernel/src\<close>.

  \<^bold>\<open>The program.\<close> The boot loader enters \<open>kmain\<close> (\<open>main.c\<close>). It builds the descriptor tables, then the
  memory: a stack of free physical pages from the boot loader's memory map, the kernel's page tables,
  and a list of virtual memory areas from which the heap takes its pages. On the heap live the virtual
  file system, unpacked from an archive, and the processes. \<open>post_main\<close> (\<open>post.c\<close>) loads the first
  program from a file and starts the timer. From then on everything is an interrupt: the timer switches
  processes, the keyboard delivers scan codes, and \<open>int 0x80\<close> is a system call, which works on the
  file system and on the process that called.

  \<^bold>\<open>How the code is represented.\<close> An unsigned C integer is a word of its width, with the C wrap-around. A struct
  is a record, an enum a datatype, and the globals of a file are fields of the record of its component.
  A function is a function on that record. \<open>None\<close> is a call that never returns: an endless loop, a failed
  \<open>assert\<close>, a halt, a fault, or a spin lock that nobody releases. Error codes of the C functions are
  ordinary results. A loop that may not end is a partial function, so that its ending is something to
  prove; a loop over a counter is structural on that counter. No definition has a fuel argument.

  There are two kinds of memory. The page allocator, the page tables, the memory areas, the ELF loader,
  the string library and the formatter work on one flat array of bytes, at the offsets that the C layout
  gives the fields. The heap, the file system and the scheduler keep their structs in maps from addresses
  to records and only the contents of files and blocks as bytes. The file system and the scheduler do not
  run the heap: the addresses that \<open>kmalloc\<close> returns are an argument (\<open>answers\<close>, \<open>heap_answers\<close>), and the
  properties state what they need of these addresses, which is what the heap's own properties show.
  What a port returns is an argument too (\<open>answer\<close>).

  \<^bold>\<open>The theories.\<close>

  \<^item> \<open>Kernel_Prelude\<close>: types, alignment macros, the byte memory and shared lemmas.
  \<^item> \<open>Mem_Lib\<close> (\<open>lib/memory.c\<close>): every function of the file, under its C name. \<open>memmove\<close> copies
    overlapping blocks right, \<open>strtol\<close> reads back the number that is written there, and each routine
    returns on terminated strings.
  \<^item> \<open>Pmm\<close> (\<open>mm/pmm.c\<close>): record \<open>pmm\<close>; start-up, request, release, the validity cache, clean-up. The
    invariant \<open>pmm_inv\<close> is established by start-up and kept by the operations, whose effect on the list
    of free pages and on memory is exact. The locale \<open>page_provider\<close> is their contract for clients.
  \<^item> \<open>Vmm\<close> (\<open>mm/vmm.c\<close>): record \<open>vmm\<close>; map, unmap, translate, new page maps, \<open>vmm_init\<close>. The invariant
    \<open>vm_inv\<close> says that the tables form a tree that is disjoint from the free pages; mapping and
    unmapping change one translation only.
  \<^item> \<open>Address_Space\<close>: lemmas for clients of both, with \<open>page_is\<close> (a page is mapped to a private frame with
    given contents) and \<open>loads\<close> (how an operation may change an address space).
  \<^item> \<open>Vma\<close>, \<open>Vma_Props\<close> (\<open>mm/vma.c\<close>, \<open>mm/liballoc/liballoc_wrappers.c\<close>): contexts and regions. The first
    allocation of a context gives a mapped and cleared block; the second one overlaps it.
  \<^item> \<open>Kernel_Space\<close> (\<open>vmm_init\<close>; the set-up of the memory in \<open>main.c\<close>): the kernel's address space maps
    exactly what \<open>kernel_entry\<close> says, and the set-up as a whole returns.
  \<^item> \<open>Heap\<close>, \<open>Heap_Lists\<close>, \<open>Heap_Inv\<close>, \<open>Heap_Alloc\<close>, \<open>Heap_Props\<close> (\<open>mm/liballoc/liballoc.c\<close>): \<open>kmalloc\<close>,
    \<open>kfree\<close>, \<open>kcalloc\<close>, \<open>krealloc\<close>. Live blocks are disjoint and aligned, freeing removes one block, and
    no client that keeps to its blocks breaks the heap. The locale \<open>links\<close> holds the doubly linked lists
    and is used for both kinds of header.
  \<^item> \<open>Vfs_Core\<close>, \<open>Fs_Ops\<close>, \<open>Vfs\<close>, \<open>Ramfs_Init\<close> (\<open>dev/vfs.c\<close>, \<open>fs/ramfs.c\<close>, \<open>fs/devfs.c\<close>): vnodes, mounts,
    look-up, the two file systems, the archive. \<open>Vfs_Tree\<close> shows what creation does to the tree and that
    the path of a vnode leads back to it, \<open>Ramfs\<close> that written bytes are read back, \<open>Vfs_Locks\<close> that no
    sequence of operations leaves a lock behind and what the permission check decides.
  \<^item> \<open>Scheduler\<close>, \<open>Sched_Props\<close> (\<open>proc/scheduler.c\<close>): a tick refines a round-robin machine over saved
    registers, every process runs, and the descriptor table is a list (locale \<open>descriptors\<close>).
  \<^item> \<open>Syscall\<close>, \<open>Syscall_Props\<close> (\<open>sys/syscall.c\<close>, \<open>syscall_handler\<close>): record \<open>kernel\<close> of the two above. What a
    process writes it reads back, and an error is reported and changes nothing else.
  \<^item> \<open>Elf\<close> (\<open>proc/data/elf.c\<close>): loading returns, and every segment is what the process then sees.
  \<^item> \<open>Port_Io\<close>, \<open>Pic\<close>, \<open>Rtc\<close>, \<open>Input\<close>, \<open>Pci\<close> (\<open>dev/portio.c\<close>, \<open>sys/pic.c\<close>, \<open>dev/time/rtc.c\<close>, \<open>dev/input\<close>,
    \<open>sys/pci.c\<close>): the devices. The kernel's copy of the interrupt mask is right, printing the time undoes
    reading it, a scan code is delivered once, the devices found are those that answer.
  \<^item> \<open>Interrupts\<close> (\<open>sys/intr.c\<close>, \<open>sys/intr.S\<close>, \<open>sys/gdt.c\<close>, \<open>dev/timer/pit.c\<close>): record \<open>machine\<close>. The tables
    encode what the source says, and an interrupt runs its handler on the interrupted registers and
    resumes with what the handler left.
  \<^item> \<open>Nanoprintf\<close>, \<open>Console\<close> (\<open>lib/nanoprintf.h\<close>, \<open>lib/printf.c\<close>, \<open>dev/stdout.c\<close>): formatting fills the buffer
    with what is printed, cut and terminated; printing a number and reading it gives the number; a
    kernel message ends up in the ring and at the debug port.

  \<^bold>\<open>Bounds.\<close> Start-up of the page allocator is shown for maps that end below \<open>2 ^ 46\<close> and have room for
  128 pages beside the stack's array, which is what the cache of 128 entries walks over. Mapping a page
  takes up to three free pages; the ELF loader and \<open>vma_alloc\<close> are given four for each page.
  \<open>vmm_init\<close> needs \<open>init_pages\<close>: one page table covers 512 pages, so the four gigabytes of the direct map
  take at most 6150 pages for tables. Other bounds are the sizes of the arrays in the source.

  \<^bold>\<open>Not modelled.\<close>

  \<^item> The rest of \<open>kmain\<close> and \<open>post_main\<close>: they call the components above in turn and copy between the
    file system's bytes and the flat memory, which the model keeps apart.
  \<^item> \<open>kpanic\<close>, \<open>vma_dump_context\<close>, \<open>vfs_debug_print\<close>, \<open>liballoc_dump\<close>, \<open>hexdump\<close> and the log macros: they
    only print. \<open>kpanic\<close> appears as a call that does not return, the others have no effect.
  \<^item> \<open>devfs_create\<close> after its write through a pointer that was never set.
  \<^item> Inline assembly (\<open>util/cpu.c\<close>, loading of descriptor tables, \<open>invlpg\<close>), the translation cache of the
    processor, and interrupts that arrive while a handler runs.
  \<^item> The terminal library and the boot loader's header, which are not part of the repository: characters
    for the terminal are recorded, and the answers of the boot loader are arguments.
\<close>

end
